(* ===== verification/Prelude.thy ===== *)
theory Prelude
  imports Main "HOL-Library.Word" "HOL-Library.Multiset"
begin

text \<open>
  What every component of the development shares: the collections of rewrite rules its proofs
  name, signed machine arithmetic with its undefined behaviour as the value None, and facts on
  lists and words that the library theories do not state.
\<close>

unbundle bit_operations_syntax

named_theorems arith_defs \<open>definitions of the checked machine arithmetic\<close>
named_theorems run_simps \<open>equations that evaluate a component's operations\<close>

section \<open>Signed machine integers\<close>

text \<open>
  An int of the program is an Isabelle int together with the fact that it is in range. An
  operation whose exact result leaves the range is undefined behaviour in C++, and None here.
\<close>

definition in_int32 :: "int \<Rightarrow> bool" where
  [arith_defs]: "in_int32 x \<longleftrightarrow> - (2 ^ 31) \<le> x \<and> x < 2 ^ 31"

definition int32_sub :: "int \<Rightarrow> int \<Rightarrow> int option" where
  [arith_defs]: "int32_sub x y = (if in_int32 (x - y) then Some (x - y) else None)"

lemma int32_sub_SomeD: "int32_sub x y = Some z \<Longrightarrow> z = x - y"
  by (auto simp: int32_sub_def split: if_splits)

lemma int32_sub_nonneg [simp]:
  "0 \<le> y \<Longrightarrow> y \<le> x \<Longrightarrow> in_int32 x \<Longrightarrow> int32_sub x y = Some (x - y)"
  by (simp add: arith_defs)

section \<open>Lists\<close>

text \<open>The last element of a vector, replaced or dropped.\<close>

lemma butlast_snoc_rev: "xs \<noteq> [] \<Longrightarrow> rev xs = last xs # rev (butlast xs)"
  by (induction xs rule: rev_induct) auto

text \<open>Positions of a partitioned list: the elements where a predicate holds come first.\<close>

lemma partition_point_unique:
  assumes "\<And>i. i < length xs \<Longrightarrow> P (xs ! i) \<longleftrightarrow> i < k" and "k \<le> length xs"
  shows "length (takeWhile P xs) = k"
proof -
  have "takeWhile P xs = take k xs"
    using assms by (intro takeWhile_eq_take_P_nth) auto
  then show ?thesis using assms(2) by simp
qed

lemma nth_takeWhile_boundary:
  assumes "sorted_wrt (\<lambda>x y. P y \<longrightarrow> P x) xs" and "i < length xs"
  shows "P (xs ! i) \<longleftrightarrow> i < length (takeWhile P xs)"
proof
  assume "i < length (takeWhile P xs)"
  then show "P (xs ! i)"
    by (metis nth_mem set_takeWhileD takeWhile_nth)
next
  assume P: "P (xs ! i)"
  show "i < length (takeWhile P xs)"
  proof (rule ccontr)
    assume "\<not> ?thesis"
    then have le: "length (takeWhile P xs) \<le> i" by simp
    let ?k = "length (takeWhile P xs)"
    have "?k < length xs" using le assms(2) by simp
    then have "\<not> P (xs ! ?k)" by (rule nth_length_takeWhile)
    moreover have "P (xs ! ?k)"
      using le P assms sorted_wrt_nth_less [OF assms(1), of ?k i]
      by (cases "?k = i") auto
    ultimately show False by simp
  qed
qed

text \<open>Splitting where a predicate stops to hold for good.\<close>

lemma takeWhile_none: "\<forall>x\<in>set xs. \<not> P x \<Longrightarrow> takeWhile P xs = []"
  by (cases xs) auto

lemma dropWhile_none: "\<forall>x\<in>set xs. \<not> P x \<Longrightarrow> dropWhile P xs = xs"
  by (cases xs) auto

lemma takeWhile_switch:
  "\<forall>x\<in>set xs. P x \<Longrightarrow> \<forall>x\<in>set ys. \<not> P x \<Longrightarrow> takeWhile P (xs @ ys) = xs"
  by (simp add: takeWhile_append2 takeWhile_none)

lemma dropWhile_switch:
  "\<forall>x\<in>set xs. P x \<Longrightarrow> \<forall>x\<in>set ys. \<not> P x \<Longrightarrow> dropWhile P (xs @ ys) = ys"
  by (simp add: dropWhile_append2 dropWhile_none)

section \<open>Residues\<close>

lemma mod_add_inj:
  fixes a n :: nat
  assumes "i < n" and "j < n"
  shows "(a + i) mod n = (a + j) mod n \<longleftrightarrow> i = j"
proof -
  have "i = j" if "(a + i) mod n = (a + j) mod n" "i \<le> j" "j < n" for i j
  proof -
    have "n dvd (a + j) - (a + i)"
      using that by (metis mod_eq_dvd_iff_nat add_le_cancel_left)
    then have "n dvd j - i" by simp
    then show ?thesis using that by (auto dest: dvd_imp_le)
  qed
  from this [of i j] this [of j i] show ?thesis using assms by (metis nat_le_linear)
qed

lemma mod_add_cancel_back:
  fixes a n :: nat
  assumes "j < n"
  shows "(a + (j + n - a mod n) mod n) mod n = j"
proof -
  have "a mod n < n" using assms by simp
  then have "a + (j + n - a mod n) = j + (a - a mod n) + n"
    using mod_less_eq_dividend [of a n] by linarith
  also have "\<dots> = j + n * (a div n + 1)"
    by (simp add: minus_mod_eq_mult_div algebra_simps)
  finally have "(a + (j + n - a mod n)) mod n = (j + n * (a div n + 1)) mod n" by (rule arg_cong)
  also have "\<dots> = j" using assms by (simp only: mod_mult_self2 mod_less)
  finally have "(a + (j + n - a mod n)) mod n = j" .
  then show ?thesis by (simp add: mod_add_right_eq)
qed

section \<open>Words\<close>

type_synonym u64 = "64 word"

lemma unat_lt64: "unat (x :: u64) < 2 ^ 64"
  using unsigned_less [of x] by simp

text \<open>A word that shares no bit with its predecessor is 0 or a power of two.\<close>

lemma pow2_of_and_pred:
  fixes n :: "64 word"
  assumes "n AND (n - 1) = 0" and "n \<noteq> 0"
  obtains k where "k < 64" and "unat n = 2 ^ k"
proof -
  let ?m = "unat n"
  have pos: "0 < ?m" using assms(2) by (simp add: unat_gt_0)
  obtain k where k: "2 ^ k \<le> ?m" "?m < 2 ^ Suc k"
    using ex_power_ivl1 [of 2 ?m] pos by auto
  have "?m < 2 ^ 64" using unsigned_less [of n] by simp
  then have k64: "k < 64"
    using k(1) by (metis le_less_trans power_less_imp_less_exp one_less_numeral_iff semiring_norm(76))
  have bit: "bit x k" if "2 ^ k \<le> unat x" "unat x < 2 ^ Suc k" for x :: "64 word"
  proof -
    have "unat x div 2 ^ k = 1"
      using that by (intro div_nat_eqI) auto
    then have "bit (unat x) k" by (simp add: bit_iff_odd)
    then show ?thesis by (simp add: bit_unsigned_iff)
  qed
  have "?m = 2 ^ k"
  proof (rule ccontr)
    assume "?m \<noteq> 2 ^ k"
    then have "2 ^ k \<le> unat (n - 1)" "unat (n - 1) < 2 ^ Suc k"
      using k pos by (auto simp: unat_minus_one [OF assms(2)])
    then have "bit (n AND (n - 1)) k"
      using bit k by (simp add: bit_and_iff)
    then show False using assms(1) by simp
  qed
  with k64 that show thesis by blast
qed

lemma unat_and_pred:
  fixes x n :: "64 word"
  assumes "unat n = 2 ^ k" and "k < 64"
  shows "unat (x AND (n - 1)) = unat x mod 2 ^ k"
proof -
  have n: "n = 2 ^ k"
  proof -
    have "n = of_nat (unat n)" by simp
    then show ?thesis by (simp only: assms(1)) simp
  qed
  have "x AND (n - 1) = take_bit k x"
    by (simp add: n take_bit_eq_mask mask_eq_exp_minus_1)
  then have "unat (x AND (n - 1)) = take_bit k (unat x)"
    by (simp only: unsigned_take_bit_eq)
  then show ?thesis by (simp add: take_bit_eq_mod)
qed

lemma mod_pow2_of_nat:
  assumes "k < 64"
  shows "unat (of_nat m :: 64 word) mod 2 ^ k = m mod 2 ^ k"
proof -
  have "(2::nat) ^ k dvd 2 ^ LENGTH(64)" using assms by (intro le_imp_power_dvd) simp
  then show ?thesis unfolding unat_of_nat by (rule mod_mod_cancel)
qed

lemma unat_of_nat_diff:
  assumes "b \<le> a" and "a - b < 2 ^ 64"
  shows "unat (of_nat a - of_nat b :: 64 word) = a - b"
proof -
  have "of_nat a - of_nat b = (of_nat (a - b) :: 64 word)" using assms(1) by simp
  then show ?thesis using assms(2) by (simp add: unat_of_nat)
qed

section \<open>Sums over the threads\<close>

text \<open>A number that every element of a list carries, and its sum.\<close>

definition total :: "('p \<Rightarrow> nat) \<Rightarrow> 'p list \<Rightarrow> nat" where
  "total f ps = sum_list (map f ps)"

lemma total_simps [simp]: "total f [] = 0" "total f (p # ps) = f p + total f ps"
  by (simp_all add: total_def)

lemma total_upd: "i < length ps \<Longrightarrow> total f (ps[i := p]) + f (ps ! i) = total f ps + f p"
proof (induction ps arbitrary: i)
  case (Cons q ps)
  then show ?case by (cases i) auto
qed simp

lemma total_nth: "i < length ps \<Longrightarrow> f (ps ! i) \<le> total f ps"
proof (induction ps arbitrary: i)
  case (Cons q ps)
  then show ?case by (cases i) (auto simp: trans_le_add2)
qed simp

lemma total_none: "(\<And>p. p \<in> set ps \<Longrightarrow> f p = 0) \<Longrightarrow> total f ps = 0"
  by (induction ps) simp_all

lemma total_positive: "0 < total f ps \<Longrightarrow> \<exists>i<length ps. 0 < f (ps ! i)"
proof (induction ps)
  case (Cons p ps)
  then show ?case
  proof (cases "0 < f p")
    case False
    then obtain i where "i < length ps" "0 < f (ps ! i)" using Cons by auto
    then show ?thesis by (intro exI [of _ "Suc i"]) simp
  qed (auto intro: exI [of _ 0])
qed simp

section \<open>Storage\<close>

text \<open>A place for an object: raw memory, a constructed object, or one that was moved from.\<close>

datatype 'a slot = Raw | Live 'a | MovedFrom

end
