(* ===== verification/CppString.thy ===== *)
theory CppString
  imports Prelude "HOL-Library.Monad_Syntax"
begin

text \<open>
  The operations of std::string that the configuration code uses, on lists of characters.
  Positions are 64-bit numbers with npos, the largest, for not found; adding one to npos gives 0,
  as the code relies on. None is the exception out_of_range. Also std::getline and std::stoi.
\<close>

section \<open>Searching and cutting\<close>

definition npos :: nat where
  [run_simps]: "npos = 2 ^ 64 - 1"

definition size_succ :: "nat \<Rightarrow> nat" where
  [run_simps]: "size_succ n = (n + 1) mod 2 ^ 64"

definition find_char :: "char \<Rightarrow> string \<Rightarrow> nat" where
  "find_char c s = (let k = length (takeWhile (\<lambda>x. x \<noteq> c) s) in if k < length s then k else npos)"

definition find_first_not_of :: "string \<Rightarrow> string \<Rightarrow> nat" where
  "find_first_not_of cs s =
     (let k = length (takeWhile (\<lambda>x. x \<in> set cs) s) in if k < length s then k else npos)"

definition find_last_not_of :: "string \<Rightarrow> string \<Rightarrow> nat" where
  "find_last_not_of cs s =
     (let k = length (dropWhile (\<lambda>x. x \<in> set cs) (rev s)) in if k = 0 then npos else k - 1)"

definition substr :: "nat \<Rightarrow> nat \<Rightarrow> string \<Rightarrow> string option" where
  [run_simps]: "substr pos n s = (if pos > length s then None else Some (take n (drop pos s)))"

definition erase :: "nat \<Rightarrow> nat \<Rightarrow> string \<Rightarrow> string option" where
  [run_simps]: "erase pos n s = (if pos > length s then None else Some (take pos s @ drop (pos + n) s))"

section \<open>Trimming\<close>

definition blanks :: string where
  [run_simps]: "blanks = [CHR 0x20, CHR 0x09, CHR 0x0D, CHR 0x0A]"

text \<open>s.erase(0, s.find_first_not_of(blanks)) and s.erase(s.find_last_not_of(blanks) + 1).\<close>

definition erase_front :: "string \<Rightarrow> string option" where
  [run_simps]: "erase_front s = erase 0 (find_first_not_of blanks s) s"

definition erase_back :: "string \<Rightarrow> string option" where
  [run_simps]: "erase_back s = erase (size_succ (find_last_not_of blanks s)) npos s"

text \<open>What they are for. A string is far shorter than npos (max_size is below 2^63).\<close>

definition is_blank :: "char \<Rightarrow> bool" where
  "is_blank c \<longleftrightarrow> c \<in> set blanks"

definition strip_front :: "string \<Rightarrow> string" where
  "strip_front s = dropWhile is_blank s"

definition strip_back :: "string \<Rightarrow> string" where
  "strip_back s = rev (dropWhile is_blank (rev s))"

definition strip :: "string \<Rightarrow> string" where
  "strip s = strip_back (strip_front s)"

definition fits :: "string \<Rightarrow> bool" where
  "fits s \<longleftrightarrow> length s < 2 ^ 63"

lemma fits_sub: "fits s \<Longrightarrow> length t \<le> length s \<Longrightarrow> fits t"
  by (simp add: fits_def)

lemma fits_npos: "fits s \<Longrightarrow> length s < npos"
  by (simp add: fits_def npos_def)

lemma drop_npos [simp]: "fits s \<Longrightarrow> drop npos s = []" "fits s \<Longrightarrow> drop (k + npos) s = []"
  using fits_npos [of s] by simp_all

lemma take_npos [simp]: "fits s \<Longrightarrow> take npos s = s"
  using fits_npos [of s] by simp

lemma erase_front_strip: "fits s \<Longrightarrow> erase_front s = Some (strip_front s)"
  by (auto simp: erase_front_def erase_def find_first_not_of_def strip_front_def is_blank_def [abs_def]
      Let_def dropWhile_eq_drop not_less dest: drop_npos(1) split: if_splits)

lemma erase_back_strip:
  assumes "fits s"
  shows "erase_back s = Some (strip_back s)"
proof -
  let ?k = "length (dropWhile is_blank (rev s))"
  have eq: "strip_back s = take ?k s"
  proof -
    have "rev s = takeWhile is_blank (rev s) @ dropWhile is_blank (rev s)" by simp
    then have "s = rev (dropWhile is_blank (rev s)) @ rev (takeWhile is_blank (rev s))"
      by (metis rev_append rev_rev_ident)
    then show ?thesis unfolding strip_back_def by (metis append_eq_conv_conj length_rev)
  qed
  have "?k \<le> length s" using length_dropWhile_le [of is_blank "rev s"] by simp
  then have "?k < 2 ^ 64" using assms by (simp add: fits_def)
  then have "size_succ (find_last_not_of blanks s) = ?k"
    unfolding find_last_not_of_def size_succ_def npos_def Let_def is_blank_def [abs_def, symmetric]
    by (cases "?k = 0") simp_all
  then show ?thesis
    using \<open>?k \<le> length s\<close> assms by (simp add: erase_back_def erase_def eq)
qed

lemma strip_front_fits: "fits s \<Longrightarrow> fits (strip_front s)"
  by (erule fits_sub) (simp add: strip_front_def length_dropWhile_le)

lemma strip_back_length: "length (strip_back s) \<le> length s"
  using length_dropWhile_le [of is_blank "rev s"] by (simp add: strip_back_def)

lemma strip_back_fits: "fits s \<Longrightarrow> fits (strip_back s)"
  by (erule fits_sub) (rule strip_back_length)

lemma strip_fits: "fits s \<Longrightarrow> fits (strip s)"
  by (simp add: strip_def strip_front_fits strip_back_fits)

text \<open>Both ends, in either order.\<close>

lemma strip_back_Cons: "\<not> is_blank c \<Longrightarrow> strip_back (c # s) = c # strip_back s"
  by (auto simp: strip_back_def dropWhile_append dropWhile_eq_Nil_conv)

lemma strip_back_eq_Nil: "strip_back s = [] \<longleftrightarrow> (\<forall>c\<in>set s. is_blank c)"
  by (simp add: strip_back_def dropWhile_eq_Nil_conv)

lemma strip_commute: "strip_back (strip_front s) = strip_front (strip_back s)"
proof (induction s)
  case (Cons c s)
  show ?case
  proof (cases "is_blank c")
    case blank: True
    show ?thesis
    proof (cases "strip_back s = []")
      case True
      then have "\<forall>x\<in>set (c # s). is_blank x" using blank by (simp add: strip_back_eq_Nil)
      then show ?thesis by (simp add: strip_back_eq_Nil [THEN iffD2] strip_front_def strip_back_def dropWhile_eq_Nil_conv [THEN iffD2])
    next
      case False
      then have "strip_back (c # s) = c # strip_back s"
        by (simp add: strip_back_def dropWhile_append dropWhile_eq_Nil_conv)
      then show ?thesis using Cons blank by (simp add: strip_front_def)
    qed
  next
    case False
    then show ?thesis by (simp add: strip_front_def strip_back_Cons)
  qed
qed (simp add: strip_front_def strip_back_def)

lemma strip_front_idem [simp]: "strip_front (strip_front s) = strip_front s"
  by (simp add: strip_front_def)

lemma strip_back_idem [simp]: "strip_back (strip_back s) = strip_back s"
  by (simp add: strip_back_def)

lemma strip_idem [simp]: "strip (strip s) = strip s"
  unfolding strip_def by (simp add: strip_commute)

section \<open>Reading lines\<close>

text \<open>The lines std::getline delivers until it finds the end of the file with nothing read.\<close>

function getlines :: "string \<Rightarrow> string list" where
  "getlines s =
     (if s = [] then []
      else takeWhile (\<lambda>c. c \<noteq> CHR 0x0A) s # getlines (drop 1 (dropWhile (\<lambda>c. c \<noteq> CHR 0x0A) s)))"
  by pat_completeness auto
termination
proof (relation "measure length")
  fix s :: string
  assume "s \<noteq> []"
  then show "(drop 1 (dropWhile (\<lambda>c. c \<noteq> CHR 0x0A) s), s) \<in> measure length"
    using length_dropWhile_le [of "\<lambda>c. c \<noteq> CHR 0x0A" s] by (cases s) auto
qed simp

declare getlines.simps [simp del]

text \<open>Reading back the lines of a text written with a line break after each.\<close>

lemma getlines_written:
  "\<forall>l\<in>set ls. CHR 0x0A \<notin> set l \<Longrightarrow> getlines (concat (map (\<lambda>l. l @ [CHR 0x0A]) ls)) = ls"
proof (induction ls)
  case Nil
  then show ?case by (simp add: getlines.simps)
next
  case (Cons l ls)
  have l: "\<forall>c\<in>set l. c \<noteq> CHR 0x0A" using Cons.prems by auto
  let ?rest = "concat (map (\<lambda>l. l @ [CHR 0x0A]) ls)"
  have "takeWhile (\<lambda>c. c \<noteq> CHR 0x0A) (l @ CHR 0x0A # ?rest) = l"
    "dropWhile (\<lambda>c. c \<noteq> CHR 0x0A) (l @ CHR 0x0A # ?rest) = CHR 0x0A # ?rest"
    using l by (simp_all add: takeWhile_append2 dropWhile_append2)
  then show ?case using Cons by (subst getlines.simps) simp
qed

section \<open>Numbers\<close>

datatype num_error = Invalid_argument | Out_of_range

definition char_code :: "char \<Rightarrow> int" where
  [run_simps]: "char_code c = of_char c"

definition is_space :: "char \<Rightarrow> bool" where
  [run_simps]: "is_space c \<longleftrightarrow> char_code c = 32 \<or> 9 \<le> char_code c \<and> char_code c \<le> 13"

definition is_digit :: "char \<Rightarrow> bool" where
  [run_simps]: "is_digit c \<longleftrightarrow> 48 \<le> char_code c \<and> char_code c \<le> 57"

definition digits_value :: "string \<Rightarrow> int" where
  [run_simps]: "digits_value ds = foldl (\<lambda>n c. 10 * n + (char_code c - 48)) 0 ds"

text \<open>std::stoi in base ten: what follows the digits is ignored.\<close>

definition stoi :: "string \<Rightarrow> num_error + int" where
  [run_simps]: "stoi s =
     (let t = dropWhile is_space s;
          negative = (t \<noteq> [] \<and> hd t = CHR ''-'');
          u = (if t \<noteq> [] \<and> (hd t = CHR ''-'' \<or> hd t = CHR ''+'') then tl t else t);
          ds = takeWhile is_digit u;
          n = (if negative then - digits_value ds else digits_value ds)
      in if ds = [] then Inl Invalid_argument
         else if in_int32 n then Inr n else Inl Out_of_range)"

lemma stoi_range: "stoi s = Inr n \<Longrightarrow> in_int32 n"
  by (auto simp: stoi_def Let_def split: if_splits)

end
