(* ===== verification/Decimal.thy ===== *)
theory Decimal
  imports CppString
begin

text \<open>
  A number as operator<< and std::format print it, in base ten, and the fact that std::stoi reads
  it back: the log lines and the configuration files both rest on it.
\<close>

definition digit :: "nat \<Rightarrow> char" where
  "digit d = char_of (48 + int d)"

fun decimal_nat :: "nat \<Rightarrow> string" where
  "decimal_nat n = (if n < 10 then [digit n] else decimal_nat (n div 10) @ [digit (n mod 10)])"

declare decimal_nat.simps [simp del]

definition decimal :: "int \<Rightarrow> string" where
  [run_simps]: "decimal n = (if n < 0 then CHR ''-'' # decimal_nat (nat (- n)) else decimal_nat (nat n))"

lemma digit_code: "d < 10 \<Longrightarrow> char_code (digit d) = 48 + int d"
  by (simp add: digit_def char_code_def)

lemma digit_is_digit: "d < 10 \<Longrightarrow> is_digit (digit d)"
  using digit_code [of d] by (simp add: is_digit_def)

lemma digits_value_snoc: "digits_value (ds @ [c]) = 10 * digits_value ds + (char_code c - 48)"
  by (simp add: digits_value_def)

lemma decimal_nat_digits: "decimal_nat n \<noteq> [] \<and> (\<forall>c\<in>set (decimal_nat n). is_digit c) \<and> digits_value (decimal_nat n) = int n"
proof (induction n rule: less_induct)
  case (less n)
  show ?case
  proof (cases "n < 10")
    case True
    then show ?thesis using digit_code [of n] digit_is_digit [of n]
      by (subst (1 2 3) decimal_nat.simps) (simp add: digits_value_def)
  next
    case False
    then have IH: "decimal_nat (n div 10) \<noteq> []" "\<forall>c\<in>set (decimal_nat (n div 10)). is_digit c"
      "digits_value (decimal_nat (n div 10)) = int (n div 10)" using less [of "n div 10"] by simp_all
    have "10 * int (n div 10) + int (n mod 10) = int n"
      by (metis mult_div_mod_eq of_nat_add of_nat_mult of_nat_numeral)
    then show ?thesis using False IH digit_code [of "n mod 10"] digit_is_digit [of "n mod 10"]
      by (subst (1 2 3) decimal_nat.simps) (simp add: digits_value_snoc)
  qed
qed

lemma digit_not_special: "is_digit c \<Longrightarrow> c \<noteq> CHR ''-'' \<and> c \<noteq> CHR ''+'' \<and> \<not> is_space c \<and> c \<noteq> CHR '':'' \<and> c \<noteq> CHR '']'' \<and> c \<noteq> CHR ''.''"
  by (auto simp: is_digit_def is_space_def char_code_def)

lemma stoi_digits:
  assumes "\<forall>c\<in>set ds. is_digit c" and "ds \<noteq> []" and "rest = [] \<or> \<not> is_digit (hd rest)" and "in_int32 (digits_value ds)"
  shows "stoi (ds @ rest) = Inr (digits_value ds)"
proof -
  have h: "is_digit (hd ds)" using assms(1,2) by (cases ds) auto
  have "dropWhile is_space (ds @ rest) = ds @ rest"
    using h digit_not_special [of "hd ds"] assms(2) by (cases ds) auto
  moreover have "takeWhile is_digit (ds @ rest) = ds"
    using assms(1,3) by (cases rest) (auto simp: takeWhile_append)
  ultimately show ?thesis
    using assms(2,4) h digit_not_special [of "hd ds"] by (simp add: stoi_def Let_def hd_append2 [of ds])
qed

lemma stoi_decimal:
  assumes "0 \<le> n" and "in_int32 n" and "rest = [] \<or> \<not> is_digit (hd rest)"
  shows "stoi (decimal n @ rest) = Inr n"
  using decimal_nat_digits [of "nat n"] stoi_digits [of "decimal_nat (nat n)" rest] assms
  by (simp add: decimal_def)

lemma stoi_zero_decimal:
  assumes "0 \<le> n" and "in_int32 n"
  shows "stoi (CHR ''0'' # decimal n) = Inr n"
proof -
  let ?ds = "CHR ''0'' # decimal_nat (nat n)"
  have z: "digits_value (CHR ''0'' # ds) = digits_value ds" for ds
    by (simp add: digits_value_def char_code_def)
  have "is_digit CHR ''0''" by code_simp
  then show ?thesis
    using decimal_nat_digits [of "nat n"] stoi_digits [of ?ds "[]"] assms by (simp add: decimal_def z)
qed

lemma decimal_chars: "0 \<le> n \<Longrightarrow> c \<in> set (decimal n) \<Longrightarrow> is_digit c"
  using decimal_nat_digits [of "nat n"] by (simp add: decimal_def)

lemma decimal_inject:
  assumes "decimal m = decimal n" and "0 \<le> m" and "0 \<le> n"
  shows "m = n"
proof -
  have reads: "digits_value (decimal k) = k" if "0 \<le> k" for k
    using that decimal_nat_digits [of "nat k"] by (simp add: decimal_def)
  have "digits_value (decimal m) = digits_value (decimal n)" by (simp only: assms(1))
  then show ?thesis by (simp only: reads [OF assms(2)] reads [OF assms(3)])
qed

text \<open>Texts with a separator that the first part does not hold are cut in one place only.\<close>

lemma cut:
  assumes "xs @ c # ys = xs' @ c # ys'" and "c \<notin> set xs" and "c \<notin> set xs'"
  shows "xs = xs' \<and> ys = ys'"
  using assms
proof (induction xs arbitrary: xs')
  case Nil
  then show ?case by (cases xs') auto
next
  case (Cons x xs)
  then show ?case by (cases xs') auto
qed

lemma decimal_signed_chars: "c \<in> set (decimal n) \<Longrightarrow> is_digit c \<or> c = CHR ''-''"
  using decimal_nat_digits [of "nat n"] decimal_nat_digits [of "nat (- n)"] by (auto simp: decimal_def split: if_splits)

lemma decimal_signed_inject:
  assumes "decimal m = decimal n"
  shows "m = n"
proof -
  have sign: "(k < 0) = (hd (decimal k) = CHR ''-'')" for k
  proof -
    have "hd (decimal_nat j) \<noteq> CHR ''-''" for j
      using decimal_nat_digits [of j] digit_not_special [of "hd (decimal_nat j)"] by (cases "decimal_nat j") auto
    then show ?thesis by (simp add: decimal_def)
  qed
  have same: "m < 0 \<longleftrightarrow> n < 0" by (simp only: sign assms)
  show ?thesis
  proof (cases "m < 0")
    case True
    then have "decimal (- m) = decimal (- n)" using assms same by (simp add: decimal_def)
    from decimal_inject [OF this] show ?thesis using True same by simp
  next
    case False
    then show ?thesis using decimal_inject [OF assms] same by simp
  qed
qed

lemma cut_signed:
  assumes "decimal m @ c # ys = decimal n @ c # ys'" and "\<not> is_digit c" and "c \<noteq> CHR ''-''"
  shows "m = n \<and> ys = ys'"
  using cut [OF assms(1)] decimal_signed_chars [of c m] decimal_signed_chars [of c n] decimal_signed_inject [of m n] assms(2,3)
  by blast

end
