(* ===== verification/Orderbook.thy ===== *)
theory Orderbook
  imports Decimal
begin

text \<open>
  The limit order book of include/quick/structs/Orderbook.hh: orders, trades, the two sides of
  the book as vectors whose back is the best price, and the operations insert_order, AddOrder
  and CancelOrder. Both sides are instances of one interface (price_side), the book refines a
  matching engine over priority lists, and its invariant is kept by every operation.
\<close>

section \<open>Data\<close>

type_synonym Id = "64 word"
type_synonym Price = int
type_synonym Quantity = int

datatype Side = BUY | SELL

record Order =
  get_id :: Id
  get_level :: Price
  is_buy :: bool
  get_qty :: Quantity
  get_side :: Side

definition Order_ctor :: "Id \<Rightarrow> Price \<Rightarrow> bool \<Rightarrow> Quantity \<Rightarrow> Order" where
  [run_simps]: "Order_ctor orderId level isBuy quantity =
     \<lparr>get_id = orderId, get_level = level, is_buy = isBuy, get_qty = quantity,
      get_side = (if isBuy then BUY else SELL)\<rparr>"

definition OrderId :: "Order \<Rightarrow> Id" where
  [run_simps]: "OrderId ord = get_id ord"

text \<open>What operator<< writes; a bool is written as a digit.\<close>

definition order_text :: "Order \<Rightarrow> string" where
  [run_simps]: "order_text ord =
     ''id: '' @ decimal (uint (get_id ord)) @ '', '' @ ''level: '' @ decimal (get_level ord) @ '', '' @
     ''isbuy: '' @ (if is_buy ord then ''1'' else ''0'') @ '', '' @ ''qty: '' @ decimal (get_qty ord)"

text \<open>The text tells the orders apart.\<close>

lemma order_text_inject:
  assumes "order_text a = order_text b"
  shows "get_id a = get_id b \<and> get_level a = get_level b \<and> is_buy a = is_buy b \<and> get_qty a = get_qty b"
proof -
  have comma: "\<not> is_digit CHR '',''" by code_simp
  let ?rest = "\<lambda>x :: Order. '' level: '' @ decimal (get_level x) @ CHR '','' # '' isbuy: '' @ (if is_buy x then ''1'' else ''0'') @
    '', '' @ ''qty: '' @ decimal (get_qty x)"
  have "decimal (uint (get_id a)) @ CHR '','' # ?rest a = decimal (uint (get_id b)) @ CHR '','' # ?rest b"
    using assms by (simp add: order_text_def)
  from cut_signed [OF this comma] have id: "uint (get_id a) = uint (get_id b)" and "?rest a = ?rest b" by simp_all
  from \<open>?rest a = ?rest b\<close> have "decimal (get_level a) @ CHR '','' # '' isbuy: '' @ (if is_buy a then ''1'' else ''0'') @ '', '' @ ''qty: '' @ decimal (get_qty a) =
     decimal (get_level b) @ CHR '','' # '' isbuy: '' @ (if is_buy b then ''1'' else ''0'') @ '', '' @ ''qty: '' @ decimal (get_qty b)"
    by simp
  from cut_signed [OF this comma] have "get_level a = get_level b"
    "(if is_buy a then ''1'' else ''0'') @ '', '' @ ''qty: '' @ decimal (get_qty a) =
     (if is_buy b then ''1'' else ''0'') @ '', '' @ ''qty: '' @ decimal (get_qty b)" by simp_all
  then show ?thesis using word_uint_eqI [OF id] decimal_signed_inject [of "get_qty a" "get_qty b"]
    by (auto split: if_splits)
qed

definition set_qty :: "Order \<Rightarrow> Quantity \<Rightarrow> Order" where
  [run_simps]: "set_qty ord new_qty = ord\<lparr>get_qty := new_qty\<rparr>"

record Trade =
  OrderIdA :: Id
  OrderIdB :: Id
  AggressorOrderId :: Id
  AggressorIsBuy :: bool
  Level :: Price
  Size :: Quantity

record Orderbook =
  bids :: "Order list"
  asks :: "Order list"

definition Orderbook_ctor :: Orderbook where
  [run_simps]: "Orderbook_ctor = \<lparr>bids = [], asks = []\<rparr>"

section \<open>Operations\<close>

definition can_match :: "Order \<Rightarrow> Order \<Rightarrow> bool" where
  [run_simps]: "can_match buy sell \<longleftrightarrow> get_level buy \<ge> get_level sell"

definition is_dupe :: "Orderbook \<Rightarrow> Order \<Rightarrow> bool" where
  [run_simps]: "is_dupe book ord \<longleftrightarrow>
     (let is_match = (\<lambda>x. get_id x = get_id ord)
      in list_ex is_match (bids book) \<or> list_ex is_match (asks book))"

text \<open>
  std::ranges::lower_bound: the halving loop over the range that starts at first and has len
  elements, with a comparator and a projection.
\<close>

fun lower_bound_loop :: "('k \<Rightarrow> 'k \<Rightarrow> bool) \<Rightarrow> ('a \<Rightarrow> 'k) \<Rightarrow> 'a list \<Rightarrow> 'k \<Rightarrow> nat \<Rightarrow> nat \<Rightarrow> nat" where
  "lower_bound_loop cmp proj xs v first len =
     (if len = 0 then first
      else let half = len div 2; mid = first + half
        in if cmp (proj (xs ! mid)) v
           then lower_bound_loop cmp proj xs v (mid + 1) (len - half - 1)
           else lower_bound_loop cmp proj xs v first half)"

declare lower_bound_loop.simps [simp del]

definition lower_bound :: "('k \<Rightarrow> 'k \<Rightarrow> bool) \<Rightarrow> ('a \<Rightarrow> 'k) \<Rightarrow> 'a list \<Rightarrow> 'k \<Rightarrow> nat" where
  [run_simps]: "lower_bound cmp proj xs v = lower_bound_loop cmp proj xs v 0 (length xs)"

definition vector_insert :: "'a list \<Rightarrow> nat \<Rightarrow> 'a \<Rightarrow> 'a list" where
  [run_simps]: "vector_insert xs pos x = take pos xs @ x # drop pos xs"

definition insert_order :: "Orderbook \<Rightarrow> Order \<Rightarrow> Orderbook" where
  [run_simps]: "insert_order book ord =
     (if is_dupe book ord then book
      else if is_buy ord then
        let pos = lower_bound (<) get_level (bids book) (get_level ord)
        in book\<lparr>bids := vector_insert (bids book) pos ord\<rparr>
      else
        let pos = lower_bound (>) get_level (asks book) (get_level ord)
        in book\<lparr>asks := vector_insert (asks book) pos ord\<rparr>)"

text \<open>
  The matching loop of AddOrder over the opposite side: the back of the vector is the best
  order; None is a signed overflow of one of the two subtractions.
\<close>

function match_loop ::
  "Order \<Rightarrow> Order list \<Rightarrow> Quantity \<Rightarrow> Trade list \<Rightarrow> (Order list \<times> Quantity \<times> Trade list) option" where
  "match_loop incoming opposite_side remaining trades =
     (if opposite_side \<noteq> [] \<and> remaining > 0 then
        let best = last opposite_side;
            matches = (if is_buy incoming then can_match incoming best else can_match best incoming)
        in if \<not> matches then Some (opposite_side, remaining, trades)
           else
             let trade_size = min (get_qty best) remaining;
                 trade_price = (if is_buy incoming then get_level best else get_level incoming);
                 aggressor_id = get_id incoming;
                 aggressor_is_buy = is_buy incoming;
                 bid_order_id = (if is_buy incoming then get_id incoming else get_id best);
                 ask_order_id = (if is_buy incoming then get_id best else get_id incoming);
                 trades' = trades @
                   [\<lparr>OrderIdA = bid_order_id, OrderIdB = ask_order_id,
                     AggressorOrderId = aggressor_id, AggressorIsBuy = aggressor_is_buy,
                     Level = trade_price, Size = trade_size\<rparr>]
             in (case int32_sub (get_qty best) trade_size of
                   None \<Rightarrow> None
                 | Some best_qty \<Rightarrow>
                     (case int32_sub remaining trade_size of
                        None \<Rightarrow> None
                      | Some remaining' \<Rightarrow>
                          let opposite' = butlast opposite_side @ [set_qty best best_qty]
                          in match_loop incoming
                               (if best_qty = 0 then butlast opposite' else opposite')
                               remaining' trades'))
      else Some (opposite_side, remaining, trades))"
  by pat_completeness auto
termination
  by (relation "measure (\<lambda>(incoming, opposite_side, remaining, trades).
        length opposite_side + (if remaining > 0 then 1 else 0))")
    (auto dest!: int32_sub_SomeD simp: min_def split: if_splits)

declare match_loop.simps [simp del]

definition AddOrder :: "Orderbook \<Rightarrow> Order \<Rightarrow> (Trade list \<times> Orderbook) option" where
  [run_simps]: "AddOrder book incoming =
     (if is_dupe book incoming then Some ([], book)
      else
        (case match_loop incoming (if is_buy incoming then asks book else bids book)
                (get_qty incoming) [] of
           None \<Rightarrow> None
         | Some (opposite_side, remaining, trades) \<Rightarrow>
             let book' = (if is_buy incoming then book\<lparr>asks := opposite_side\<rparr>
                          else book\<lparr>bids := opposite_side\<rparr>)
             in Some (trades,
                      if remaining > 0 then insert_order book' (set_qty incoming remaining)
                      else book')))"

text \<open>std::ranges::find_if followed by vector::erase of the position found.\<close>

fun erase_first :: "('a \<Rightarrow> bool) \<Rightarrow> 'a list \<Rightarrow> 'a list" where
  "erase_first P [] = []"
| "erase_first P (x # xs) = (if P x then xs else x # erase_first P xs)"

definition CancelOrder :: "Orderbook \<Rightarrow> Id \<Rightarrow> Orderbook" where
  [run_simps]: "CancelOrder book order_id =
     (let id_match = (\<lambda>x. get_id x = order_id)
      in if list_ex id_match (bids book) then book\<lparr>bids := erase_first id_match (bids book)\<rparr>
         else if list_ex id_match (asks book) then book\<lparr>asks := erase_first id_match (asks book)\<rparr>
         else book)"

lemma lower_bound_loop_partition:
  assumes part: "\<And>i. i < length xs \<Longrightarrow> cmp (proj (xs ! i)) v \<longleftrightarrow> i < k"
  shows "first \<le> k \<Longrightarrow> k \<le> first + len \<Longrightarrow> first + len \<le> length xs \<Longrightarrow>
    lower_bound_loop cmp proj xs v first len = k"
proof (induction len arbitrary: first rule: less_induct)
  case (less len)
  show ?case
  proof (cases "len = 0")
    case True
    with less.prems show ?thesis by (simp add: lower_bound_loop.simps)
  next
    case False
    let ?half = "len div 2"
    have mid: "first + ?half < length xs" using False less.prems(3) by linarith
    show ?thesis
    proof (cases "first + ?half < k")
      case True
      then have "lower_bound_loop cmp proj xs v (first + ?half + 1) (len - ?half - 1) = k"
        using False less.prems by (intro less.IH) auto
      with True False part [OF mid] show ?thesis
        by (subst lower_bound_loop.simps) (simp add: Let_def)
    next
      case le: False
      then have "lower_bound_loop cmp proj xs v first ?half = k"
        using False less.prems by (intro less.IH) auto
      with le False part [OF mid] show ?thesis
        by (subst lower_bound_loop.simps) (simp add: Let_def)
    qed
  qed
qed

lemma lower_bound_takeWhile:
  assumes "sorted_wrt (\<lambda>x y. cmp (proj y) v \<longrightarrow> cmp (proj x) v) xs"
  shows "lower_bound cmp proj xs v = length (takeWhile (\<lambda>x. cmp (proj x) v) xs)"
  unfolding lower_bound_def
  using nth_takeWhile_boundary [OF assms]
  by (intro lower_bound_loop_partition) (auto simp: length_takeWhile_le)

text \<open>
  The order in which a side keeps its orders: no order is worse than one before it, so the
  back is the best.
\<close>

definition side_sorted :: "(Price \<Rightarrow> Price \<Rightarrow> bool) \<Rightarrow> Order list \<Rightarrow> bool" where
  "side_sorted worse xs \<longleftrightarrow> sorted_wrt (\<lambda>x y. \<not> worse (get_level y) (get_level x)) xs"

text \<open>
  The specification's view of a side lists the orders by priority, best first; a new order
  goes behind every order that is at least as good.
\<close>

definition spec_insert :: "(Price \<Rightarrow> Price \<Rightarrow> bool) \<Rightarrow> Order \<Rightarrow> Order list \<Rightarrow> Order list" where
  "spec_insert worse ord ps =
     takeWhile (\<lambda>x. \<not> worse (get_level x) (get_level ord)) ps @ ord #
     dropWhile (\<lambda>x. \<not> worse (get_level x) (get_level ord)) ps"

lemma mset_vector_insert [simp]: "mset (vector_insert xs k x) = add_mset x (mset xs)"
proof -
  have "mset xs = mset (take k xs) + mset (drop k xs)"
    by (metis append_take_drop_id mset_append)
  then show ?thesis by (simp add: vector_insert_def)
qed

lemma set_vector_insert [simp]: "set (vector_insert xs k x) = insert x (set xs)"
  by (simp add: set_mset_mset [symmetric] del: set_mset_mset)

lemma set_spec_insert [simp]: "set (spec_insert worse x ps) = insert x (set ps)"
  by (simp add: spec_insert_def) (metis set_append takeWhile_dropWhile_id)

section \<open>The interface of a side of the book\<close>

locale price_side =
  fixes worse :: "Price \<Rightarrow> Price \<Rightarrow> bool"
  assumes worse_irrefl: "\<not> worse p p"
    and worse_trans: "worse p q \<Longrightarrow> worse q r \<Longrightarrow> worse p r"
    and worse_total: "worse p q \<or> p = q \<or> worse q p"
begin

lemma not_worse_trans: "\<not> worse q p \<Longrightarrow> \<not> worse r q \<Longrightarrow> \<not> worse r p"
  using worse_trans worse_total by metis

lemma sorted_partitioned:
  "side_sorted worse xs \<Longrightarrow>
   sorted_wrt (\<lambda>x y. worse (get_level y) p \<longrightarrow> worse (get_level x) p) xs"
  unfolding side_sorted_def
  by (erule sorted_wrt_mono_rel [rotated]) (metis worse_total worse_trans)

lemma lower_bound_position:
  "side_sorted worse xs \<Longrightarrow>
   lower_bound worse get_level xs p = length (takeWhile (\<lambda>x. worse (get_level x) p) xs)"
  by (intro lower_bound_takeWhile sorted_partitioned)

lemma insert_split:
  assumes "side_sorted worse xs"
  shows "vector_insert xs (lower_bound worse get_level xs (get_level ord)) ord =
    takeWhile (\<lambda>x. worse (get_level x) (get_level ord)) xs @ ord #
    dropWhile (\<lambda>x. worse (get_level x) (get_level ord)) xs"
  using lower_bound_position [OF assms]
  by (simp add: vector_insert_def takeWhile_eq_take [symmetric] dropWhile_eq_drop [symmetric])

lemma dropWhile_not_worse:
  assumes "side_sorted worse xs" and "x \<in> set (dropWhile (\<lambda>x. worse (get_level x) p) xs)"
  shows "\<not> worse (get_level x) p"
  using sorted_partitioned [OF assms(1), of p] assms(2)
proof (induction xs)
  case (Cons y ys)
  then show ?case by (cases "worse (get_level y) p") auto
qed simp

lemma insert_sorted:
  assumes "side_sorted worse xs"
  shows "side_sorted worse (vector_insert xs (lower_bound worse get_level xs (get_level ord)) ord)"
proof -
  let ?P = "\<lambda>x. worse (get_level x) (get_level ord)"
  have sorted: "sorted_wrt (\<lambda>x y. \<not> worse (get_level y) (get_level x))
      (takeWhile ?P xs @ dropWhile ?P xs)"
    using assms by (simp add: side_sorted_def)
  have front: "\<forall>x\<in>set (takeWhile ?P xs). \<not> worse (get_level ord) (get_level x)"
    using set_takeWhileD [of _ ?P xs] worse_irrefl worse_trans by blast
  have rear: "\<forall>x\<in>set (dropWhile ?P xs). \<not> worse (get_level x) (get_level ord)"
    using dropWhile_not_worse [OF assms] by blast
  show ?thesis
    unfolding insert_split [OF assms] side_sorted_def
    using sorted front rear unfolding sorted_wrt_append sorted_wrt.simps list.set by blast
qed

lemma insert_priority:
  assumes "side_sorted worse xs"
  shows "rev (vector_insert xs (lower_bound worse get_level xs (get_level ord)) ord) =
    spec_insert worse ord (rev xs)"
proof -
  let ?P = "\<lambda>x. worse (get_level x) (get_level ord)"
  have drop: "\<forall>x\<in>set (rev (dropWhile ?P xs)). \<not> ?P x"
    unfolding set_rev using dropWhile_not_worse [OF assms] by blast
  have take: "\<forall>x\<in>set (rev (takeWhile ?P xs)). ?P x"
    unfolding set_rev using set_takeWhileD [of _ ?P xs] by blast
  have split: "rev xs = rev (dropWhile ?P xs) @ rev (takeWhile ?P xs)"
    by (metis rev_append takeWhile_dropWhile_id)
  have "takeWhile (\<lambda>x. \<not> ?P x) (rev xs) = rev (dropWhile ?P xs)"
    unfolding split by (rule takeWhile_switch [OF drop]) (use take in blast)
  moreover have "dropWhile (\<lambda>x. \<not> ?P x) (rev xs) = rev (takeWhile ?P xs)"
    unfolding split by (rule dropWhile_switch [OF drop]) (use take in blast)
  ultimately show ?thesis
    by (simp add: insert_split [OF assms] spec_insert_def)
qed

lemma best_is_last:
  assumes "side_sorted worse xs" and "x \<in> set xs"
  shows "\<not> worse (get_level (last xs)) (get_level x)"
  using assms
  by (induction xs rule: rev_induct)
    (auto simp: side_sorted_def sorted_wrt_append worse_irrefl)

end

interpretation bid_side: price_side "(<)"
  by unfold_locales auto

interpretation ask_side: price_side "(>)"
  by unfold_locales auto

section \<open>The matching engine as a specification\<close>

text \<open>
  What the book promises: an incoming order trades with the other side in priority order, each
  time for the smaller of the two quantities, until it is filled or the best remaining order
  is too expensive; what is left of it then rests on its own side.
\<close>

definition crosses :: "Order \<Rightarrow> Order \<Rightarrow> bool" where
  "crosses inc b \<longleftrightarrow> (if is_buy inc then can_match inc b else can_match b inc)"

definition fill :: "Order \<Rightarrow> Order \<Rightarrow> Quantity \<Rightarrow> Trade" where
  "fill inc b q =
     \<lparr>OrderIdA = get_id (if is_buy inc then inc else b),
      OrderIdB = get_id (if is_buy inc then b else inc),
      AggressorOrderId = get_id inc, AggressorIsBuy = is_buy inc,
      Level = get_level (if is_buy inc then b else inc), Size = q\<rparr>"

fun spec_match :: "Order \<Rightarrow> Order list \<Rightarrow> Quantity \<Rightarrow> Trade list \<times> Order list \<times> Quantity" where
  "spec_match inc [] r = ([], [], r)"
| "spec_match inc (b # ps) r =
     (if r \<le> 0 \<or> \<not> crosses inc b then ([], b # ps, r)
      else if get_qty b \<le> r then
        (case spec_match inc ps (r - get_qty b) of
           (ts, ps', r') \<Rightarrow> (fill inc b (get_qty b) # ts, ps', r'))
      else ([fill inc b r], set_qty b (get_qty b - r) # ps, 0))"

type_synonym priority_book = "Order list \<times> Order list"

definition abs_book :: "Orderbook \<Rightarrow> priority_book" where
  "abs_book book = (rev (bids book), rev (asks book))"

fun spec_add :: "priority_book \<Rightarrow> Order \<Rightarrow> Trade list \<times> priority_book" where
  "spec_add (bs, as) inc =
     (if get_id inc \<in> get_id ` (set bs \<union> set as) then ([], (bs, as))
      else if is_buy inc then
        (case spec_match inc as (get_qty inc) of (ts, as', r) \<Rightarrow>
           (ts, (if r > 0 then spec_insert (<) (set_qty inc r) bs else bs, as')))
      else
        (case spec_match inc bs (get_qty inc) of (ts, bs', r) \<Rightarrow>
           (ts, (bs', if r > 0 then spec_insert (>) (set_qty inc r) as else as))))"

lemma set_qty_sel [simp]:
  "get_id (set_qty ord q) = get_id ord" "get_level (set_qty ord q) = get_level ord"
  "is_buy (set_qty ord q) = is_buy ord" "get_side (set_qty ord q) = get_side ord"
  "get_qty (set_qty ord q) = q"
  by (simp_all add: set_qty_def)

text \<open>One turn of the loop, in the words of the specification.\<close>

lemma match_loop_stop:
  "xs = [] \<or> r \<le> 0 \<or> \<not> crosses inc (last xs) \<Longrightarrow> match_loop inc xs r ts = Some (xs, r, ts)"
  by (subst match_loop.simps) (auto simp: crosses_def Let_def)

lemma match_loop_step:
  assumes "0 < r" and "crosses inc b"
    and "0 < get_qty b" and "in_int32 (get_qty b)" and "in_int32 r"
  shows "match_loop inc (xs @ [b]) r ts =
    match_loop inc (if get_qty b \<le> r then xs else xs @ [set_qty b (get_qty b - r)])
      (if get_qty b \<le> r then r - get_qty b else 0)
      (ts @ [fill inc b (if get_qty b \<le> r then get_qty b else r)])"
  using assms by (subst match_loop.simps) (auto simp: crosses_def Let_def fill_def min_def)

definition resting_ok :: "Order \<Rightarrow> bool" where
  "resting_ok ord \<longleftrightarrow> 0 < get_qty ord \<and> in_int32 (get_qty ord) \<and>
     get_side ord = (if is_buy ord then BUY else SELL)"

text \<open>
  The loop computes the specification's match, without overflow, on a side whose orders have
  positive quantities.
\<close>

lemma match_loop_spec:
  assumes "\<forall>b\<in>set xs. resting_ok b" and "in_int32 r"
  shows "match_loop inc xs r ts =
    (case spec_match inc (rev xs) r of (us, ps, r') \<Rightarrow> Some (rev ps, r', ts @ us))"
  using assms
proof (induction xs arbitrary: r ts rule: rev_induct)
  case Nil
  then show ?case by (simp add: match_loop_stop)
next
  case (snoc b xs)
  have b: "0 < get_qty b" "in_int32 (get_qty b)"
    using snoc.prems by (auto simp: resting_ok_def)
  show ?case
  proof (cases "0 < r \<and> crosses inc b")
    case False
    then show ?thesis by (auto simp: match_loop_stop)
  next
    case True
    then have step: "match_loop inc (xs @ [b]) r ts =
        match_loop inc (if get_qty b \<le> r then xs else xs @ [set_qty b (get_qty b - r)])
          (if get_qty b \<le> r then r - get_qty b else 0)
          (ts @ [fill inc b (if get_qty b \<le> r then get_qty b else r)])"
      using b snoc.prems by (intro match_loop_step) auto
    show ?thesis
    proof (cases "get_qty b \<le> r")
      case le: True
      have "in_int32 (r - get_qty b)"
        using le b snoc.prems(2) by (simp add: in_int32_def)
      then show ?thesis
        using step le True snoc.IH snoc.prems by (auto split: prod.splits)
    next
      case gt: False
      then show ?thesis
        using step True by (simp add: match_loop_stop)
    qed
  qed
qed

section \<open>Facts about the match\<close>

text \<open>An order without its quantity: what a partial fill does not change.\<close>

definition sans_qty :: "Order \<Rightarrow> Order" where
  "sans_qty ord = set_qty ord 0"

lemma spec_match_drops:
  "spec_match inc ps r = (ts, ps', r') \<Longrightarrow>
   \<exists>k\<le>length ps. map sans_qty ps' = drop k (map sans_qty ps)"
proof (induction inc ps r arbitrary: ts ps' r' rule: spec_match.induct)
  case (2 inc b ps r)
  show ?case
  proof (cases "0 < r \<and> crosses inc b \<and> get_qty b \<le> r")
    case True
    then obtain us where rest: "spec_match inc ps (r - get_qty b) = (us, ps', r')"
      using "2.prems" by (auto split: prod.splits if_splits)
    with True "2.IH" obtain k where "k \<le> length ps" "map sans_qty ps' = drop k (map sans_qty ps)"
      by (metis leD)
    then show ?thesis by (intro exI [of _ "Suc k"]) simp
  next
    case False
    then show ?thesis
      using "2.prems" by (intro exI [of _ 0]) (auto simp: sans_qty_def set_qty_def split: if_splits)
  qed
qed simp

lemma spec_match_resting:
  "spec_match inc ps r = (ts, ps', r') \<Longrightarrow> \<forall>b\<in>set ps. resting_ok b \<Longrightarrow> \<forall>b\<in>set ps'. resting_ok b"
  by (induction inc ps r arbitrary: ts ps' r' rule: spec_match.induct)
    (auto simp: resting_ok_def in_int32_def split: prod.splits if_splits)

text \<open>Quantities are conserved on both sides of the match.\<close>

lemma spec_match_conserves:
  "spec_match inc ps r = (ts, ps', r') \<Longrightarrow>
   r = sum_list (map Size ts) + r' \<and>
   sum_list (map get_qty ps) = sum_list (map Size ts) + sum_list (map get_qty ps')"
  by (induction inc ps r arbitrary: ts ps' r' rule: spec_match.induct)
    (auto simp: fill_def split: prod.splits if_splits)

lemma spec_match_remaining:
  "spec_match inc ps r = (ts, ps', r') \<Longrightarrow> \<forall>b\<in>set ps. resting_ok b \<Longrightarrow> 
   (0 \<le> r \<longrightarrow> 0 \<le> r') \<and> r' \<le> r"
  by (induction inc ps r arbitrary: ts ps' r' rule: spec_match.induct)
    (fastforce simp: resting_ok_def split: prod.splits if_splits)+

lemma spec_match_stops:
  "spec_match inc ps r = (ts, ps', r') \<Longrightarrow> 0 < r' \<Longrightarrow> ps' = [] \<or> \<not> crosses inc (hd ps')"
  by (induction inc ps r arbitrary: ts ps' r' rule: spec_match.induct)
    (auto split: prod.splits if_splits)

text \<open>
  Trades in priority order: each trade fills the next order of the list, at a crossing price
  and for a positive quantity that the order has, and all but the last fill it completely.
\<close>

fun fills_in_order :: "Order \<Rightarrow> Trade list \<Rightarrow> Order list \<Rightarrow> bool" where
  "fills_in_order inc [] ps = True"
| "fills_in_order inc (t # ts) [] = False"
| "fills_in_order inc (t # ts) (b # ps) \<longleftrightarrow>
     t = fill inc b (Size t) \<and> crosses inc b \<and> 0 < Size t \<and> Size t \<le> get_qty b \<and>
     (ts \<noteq> [] \<longrightarrow> Size t = get_qty b) \<and> fills_in_order inc ts ps"

lemma spec_match_in_order:
  "spec_match inc ps r = (ts, ps', r') \<Longrightarrow> \<forall>b\<in>set ps. resting_ok b \<Longrightarrow> fills_in_order inc ts ps"
  by (induction inc ps r arbitrary: ts ps' r' rule: spec_match.induct)
    (auto simp: resting_ok_def fill_def split: prod.splits if_splits)

section \<open>The book's invariant\<close>

definition book_ids :: "Orderbook \<Rightarrow> Id list" where
  "book_ids book = map get_id (bids book) @ map get_id (asks book)"

definition side_ok :: "(Price \<Rightarrow> Price \<Rightarrow> bool) \<Rightarrow> bool \<Rightarrow> Order list \<Rightarrow> bool" where
  "side_ok worse buy xs \<longleftrightarrow>
     side_sorted worse xs \<and> (\<forall>x\<in>set xs. resting_ok x \<and> is_buy x = buy)"

definition book_ok :: "Orderbook \<Rightarrow> bool" where
  "book_ok book \<longleftrightarrow>
     side_ok (<) True (bids book) \<and> side_ok (>) False (asks book) \<and> distinct (book_ids book)"

definition uncrossed :: "Orderbook \<Rightarrow> bool" where
  "uncrossed book \<longleftrightarrow> (\<forall>b\<in>set (bids book). \<forall>a\<in>set (asks book). \<not> can_match b a)"

definition order_ok :: "Order \<Rightarrow> bool" where
  "order_ok ord \<longleftrightarrow> in_int32 (get_qty ord) \<and> get_side ord = (if is_buy ord then BUY else SELL)"

lemma Order_ctor_ok: "in_int32 q \<Longrightarrow> order_ok (Order_ctor i p buy q)"
  by (simp add: order_ok_def Order_ctor_def)

lemma is_dupe_iff: "is_dupe book ord \<longleftrightarrow> get_id ord \<in> set (book_ids book)"
  by (simp add: is_dupe_def list_ex_iff book_ids_def Let_def image_iff) metis

lemma Orderbook_ctor_ok: "book_ok Orderbook_ctor" "uncrossed Orderbook_ctor"
  by (simp_all add: Orderbook_ctor_def book_ok_def book_ids_def uncrossed_def side_ok_def side_sorted_def)

lemma insert_order_ids:
  "\<not> is_dupe book ord \<Longrightarrow> mset (book_ids (insert_order book ord)) = add_mset (get_id ord) (mset (book_ids book))"
  by (simp add: insert_order_def book_ids_def Let_def)

lemma insert_order_ok:
  assumes "book_ok book" and "resting_ok ord"
  shows "book_ok (insert_order book ord)"
proof (cases "is_dupe book ord")
  case True
  with assms show ?thesis by (simp add: insert_order_def)
next
  case False
  have "distinct (get_id ord # book_ids book)"
    using False assms(1) by (simp add: is_dupe_iff book_ok_def)
  then have "distinct (book_ids (insert_order book ord))"
    using insert_order_ids [OF False] by (metis mset.simps(2) mset_eq_imp_distinct_iff)
  then show ?thesis
    using assms bid_side.insert_sorted [of "bids book" ord] ask_side.insert_sorted [of "asks book" ord]
    by (auto simp: insert_order_def book_ok_def side_ok_def Let_def)
qed

lemma insert_order_abs:
  assumes "book_ok book" and "\<not> is_dupe book ord"
  shows "abs_book (insert_order book ord) =
    (if is_buy ord then (spec_insert (<) ord (rev (bids book)), rev (asks book))
     else (rev (bids book), spec_insert (>) ord (rev (asks book))))"
  using assms bid_side.insert_priority [of "bids book" ord] ask_side.insert_priority [of "asks book" ord]
  by (auto simp: insert_order_def book_ok_def side_ok_def abs_book_def Let_def)

text \<open>A side after a match: the orders behind the filled ones, up to the quantity of the best.\<close>

lemma sans_qty_map:
  assumes "map sans_qty xs = ys" and "\<And>x. f (sans_qty x) = f x"
  shows "map f xs = map f ys"
  using assms by auto

lemma sans_qty_sel [simp]:
  "get_id (sans_qty x) = get_id x" "get_level (sans_qty x) = get_level x"
  "is_buy (sans_qty x) = is_buy x"
  by (simp_all add: sans_qty_def)

lemma match_loop_total:
  assumes "\<forall>b\<in>set xs. resting_ok b" and "in_int32 r"
  obtains xs' r' ts k where "match_loop inc xs r [] = Some (xs', r', ts)"
    and "spec_match inc (rev xs) r = (ts, rev xs', r')"
    and "map sans_qty xs' = take k (map sans_qty xs)" and "\<forall>b\<in>set xs'. resting_ok b"
proof -
  obtain ts ps r' where m: "spec_match inc (rev xs) r = (ts, ps, r')"
    by (metis prod_cases3)
  obtain k where k: "map sans_qty ps = drop k (map sans_qty (rev xs))"
    using spec_match_drops [OF m] by blast
  then have "map sans_qty (rev ps) = take (length xs - k) (map sans_qty xs)"
    by (simp add: rev_map [symmetric] drop_rev rev_swap)
  moreover have "\<forall>b\<in>set (rev ps). resting_ok b"
    using spec_match_resting [OF m] assms(1) by simp
  ultimately show thesis
    using match_loop_spec [OF assms, of inc "[]"] m by (intro that [of "rev ps" r' ts]) auto
qed

lemma match_side_ids:
  "map sans_qty xs' = take k (map sans_qty xs) \<Longrightarrow> map get_id xs' = take k (map get_id xs)"
  using sans_qty_map [of xs' _ get_id] by (auto simp: take_map)

lemma match_side_levels:
  "map sans_qty xs' = take k (map sans_qty xs) \<Longrightarrow> map get_level xs' = take k (map get_level xs)"
  using sans_qty_map [of xs' _ get_level] by (auto simp: take_map)

lemma match_side_is_buy:
  "map sans_qty xs' = take k (map sans_qty xs) \<Longrightarrow> map is_buy xs' = take k (map is_buy xs)"
  using sans_qty_map [of xs' _ is_buy] by (auto simp: take_map)

lemma side_sorted_levels:
  "side_sorted worse xs \<longleftrightarrow> sorted_wrt (\<lambda>p q. \<not> worse q p) (map get_level xs)"
  by (simp add: side_sorted_def sorted_wrt_map)

lemma match_side_ok:
  assumes "side_ok worse buy xs" and "map sans_qty xs' = take k (map sans_qty xs)"
    and "\<forall>b\<in>set xs'. resting_ok b"
  shows "side_ok worse buy xs'"
proof -
  have "set (map is_buy xs') \<subseteq> set (map is_buy xs)"
    unfolding match_side_is_buy [OF assms(2)] by (rule set_take_subset)
  then have "is_buy ` set xs' \<subseteq> {buy}"
    using assms(1) by (auto simp: side_ok_def)
  then have "\<forall>x\<in>set xs'. is_buy x = buy" by blast
  moreover have "side_sorted worse xs'"
    using assms(1) unfolding side_ok_def side_sorted_levels match_side_levels [OF assms(2)]
    by (blast intro: sorted_wrt_take)
  ultimately show ?thesis using assms(3) by (simp add: side_ok_def)
qed

section \<open>The two sides, seen from an incoming order\<close>

definition opposite :: "Orderbook \<Rightarrow> Order \<Rightarrow> Order list" where
  "opposite book inc = (if is_buy inc then asks book else bids book)"

definition own_side :: "Orderbook \<Rightarrow> Order \<Rightarrow> Order list" where
  "own_side book inc = (if is_buy inc then bids book else asks book)"

definition set_opposite :: "Orderbook \<Rightarrow> Order \<Rightarrow> Order list \<Rightarrow> Orderbook" where
  "set_opposite book inc xs = (if is_buy inc then book\<lparr>asks := xs\<rparr> else book\<lparr>bids := xs\<rparr>)"

lemma opposite_simps [simp]:
  "opposite book (set_qty inc r) = opposite book inc"
  "own_side book (set_qty inc r) = own_side book inc"
  "opposite (set_opposite book inc xs) inc = xs"
  "own_side (set_opposite book inc xs) inc = own_side book inc"
  by (simp_all add: opposite_def own_side_def set_opposite_def)

lemma opposite_side_ok:
  "book_ok book \<Longrightarrow> side_ok (if is_buy inc then (>) else (<)) (\<not> is_buy inc) (opposite book inc)"
  by (simp add: book_ok_def opposite_def)

lemma opposite_resting: "book_ok book \<Longrightarrow> \<forall>b\<in>set (opposite book inc). resting_ok b"
  by (simp add: book_ok_def opposite_def side_ok_def)

lemma own_side_insert:
  "\<not> is_dupe book x \<Longrightarrow> opposite (insert_order book x) x = opposite book x"
  "\<not> is_dupe book x \<Longrightarrow> set (own_side (insert_order book x) x) = insert x (set (own_side book x))"
  by (auto simp: insert_order_def own_side_def opposite_def Let_def)

lemma set_opposite_ok:
  assumes "book_ok book" and "map sans_qty xs' = take k (map sans_qty (opposite book inc))"
    and "\<forall>b\<in>set xs'. resting_ok b"
  shows "book_ok (set_opposite book inc xs')"
    and "set (book_ids (set_opposite book inc xs')) \<subseteq> set (book_ids book)"
  using assms match_side_ok [OF opposite_side_ok assms(2,3)]
  by (auto simp: book_ok_def book_ids_def opposite_def set_opposite_def match_side_ids distinct_take
      simp del: set_map dest: in_set_takeD split: if_splits)

text \<open>If the best order of a side does not cross, no order of it does.\<close>

lemma best_not_crossing:
  assumes "side_ok (if is_buy inc then (>) else (<)) (\<not> is_buy inc) xs"
    and "\<not> crosses inc (last xs)" and "b \<in> set xs"
  shows "\<not> crosses inc b"
  using assms ask_side.best_is_last [of xs b] bid_side.best_is_last [of xs b]
  by (auto simp: crosses_def can_match_def side_ok_def split: if_splits)

lemma uncrossed_iff:
  "uncrossed book \<longleftrightarrow> (\<forall>p\<in>get_level ` set (bids book). \<forall>q\<in>get_level ` set (asks book). p < q)"
  by (auto simp: uncrossed_def can_match_def not_le)

lemma uncrossed_insert:
  assumes "uncrossed book" and "\<not> is_dupe book x" and "\<forall>b\<in>set (opposite book x). \<not> crosses x b"
  shows "uncrossed (insert_order book x)"
  using assms by (auto simp: uncrossed_def insert_order_def opposite_def crosses_def Let_def)

lemma uncrossed_set_opposite:
  assumes "uncrossed book" and "map sans_qty xs' = take k (map sans_qty (opposite book inc))"
  shows "uncrossed (set_opposite book inc xs')"
proof -
  have "get_level ` set xs' \<subseteq> get_level ` set (opposite book inc)"
    using match_side_levels [OF assms(2)] by (metis list.set_map set_take_subset)
  then show ?thesis
    using assms(1) by (auto simp: uncrossed_iff set_opposite_def opposite_def)
qed

section \<open>Adding an order\<close>

lemma set_qty_resting:
  "order_ok ord \<Longrightarrow> 0 < r \<Longrightarrow> r \<le> get_qty ord \<Longrightarrow> resting_ok (set_qty ord r)"
  by (auto simp: order_ok_def resting_ok_def in_int32_def)

lemma AddOrder_dupe: "is_dupe book inc \<Longrightarrow> AddOrder book inc = Some ([], book)"
  by (simp add: AddOrder_def)

lemma AddOrder_loop:
  "\<not> is_dupe book inc \<Longrightarrow>
   match_loop inc (opposite book inc) (get_qty inc) [] = Some (xs', r, ts) \<Longrightarrow>
   AddOrder book inc = Some (ts,
     if r > 0 then insert_order (set_opposite book inc xs') (set_qty inc r) else set_opposite book inc xs')"
  by (simp add: AddOrder_def opposite_def set_opposite_def)

text \<open>
  AddOrder with its loop replaced by the specification's match: it always returns, and the
  book it returns is the old one with the opposite side shortened and the rest inserted.
\<close>

lemma AddOrder_new:
  assumes "book_ok book" and "order_ok inc" and "\<not> is_dupe book inc"
  obtains xs' r ts k where "spec_match inc (rev (opposite book inc)) (get_qty inc) = (ts, rev xs', r)"
    and "AddOrder book inc = Some (ts, if r > 0
          then insert_order (set_opposite book inc xs') (set_qty inc r) else set_opposite book inc xs')"
    and "map sans_qty xs' = take k (map sans_qty (opposite book inc))"
    and "book_ok (set_opposite book inc xs')"
    and "\<not> is_dupe (set_opposite book inc xs') (set_qty inc r)"
    and "0 < r \<Longrightarrow> resting_ok (set_qty inc r)"
proof -
  have "in_int32 (get_qty inc)" using assms(2) by (simp add: order_ok_def)
  then obtain xs' r ts k where
    m: "match_loop inc (opposite book inc) (get_qty inc) [] = Some (xs', r, ts)"
      "spec_match inc (rev (opposite book inc)) (get_qty inc) = (ts, rev xs', r)"
    and side: "map sans_qty xs' = take k (map sans_qty (opposite book inc))"
      "\<forall>b\<in>set xs'. resting_ok b"
    using match_loop_total [OF opposite_resting [OF assms(1)]] by blast
  have "r \<le> get_qty inc"
    using spec_match_remaining [OF m(2)] opposite_resting [OF assms(1)] by simp
  then show thesis
    using assms set_opposite_ok [OF assms(1) side] set_qty_resting [OF assms(2)]
    by (intro that [OF m(2) AddOrder_loop [OF assms(3) m(1)] side(1)]) (auto simp: is_dupe_iff)
qed

lemma crosses_set_qty [simp]: "crosses (set_qty inc r) b \<longleftrightarrow> crosses inc b"
  by (simp add: crosses_def can_match_def)

text \<open>
  The book stays well formed (both sides sorted with the best price at the back, all ids
  distinct, every resting quantity positive and in range) and uncrossed (no resting bid
  reaches a resting ask) when any order is added.
\<close>

lemma AddOrder_invariant:
  assumes "book_ok book" and "uncrossed book" and "order_ok inc"
    and "AddOrder book inc = Some (ts, book')"
  shows "book_ok book' \<and> uncrossed book'"
proof (cases "is_dupe book inc")
  case True
  with assms show ?thesis by (simp add: AddOrder_dupe)
next
  case False
  obtain xs' r us k where add: "spec_match inc (rev (opposite book inc)) (get_qty inc) = (us, rev xs', r)"
    "AddOrder book inc = Some (us, if r > 0
        then insert_order (set_opposite book inc xs') (set_qty inc r) else set_opposite book inc xs')"
    "map sans_qty xs' = take k (map sans_qty (opposite book inc))"
    "book_ok (set_opposite book inc xs')" "\<not> is_dupe (set_opposite book inc xs') (set_qty inc r)"
    "0 < r \<Longrightarrow> resting_ok (set_qty inc r)"
    using AddOrder_new [OF assms(1,3) False] by metis
  note uncrossed = uncrossed_set_opposite [OF assms(2) add(3)]
  have "xs' \<noteq> [] \<Longrightarrow> 0 < r \<Longrightarrow> \<not> crosses inc (last xs')"
    using spec_match_stops [OF add(1)] by (simp add: hd_rev)
  then have "0 < r \<Longrightarrow> \<forall>b\<in>set xs'. \<not> crosses inc b"
    using best_not_crossing [of inc xs'] opposite_side_ok [OF add(4), of inc] by fastforce
  then have "0 < r \<Longrightarrow> uncrossed (insert_order (set_opposite book inc xs') (set_qty inc r))"
    by (intro uncrossed_insert [OF uncrossed add(5)]) simp
  then show ?thesis
    using uncrossed add(2,4,6) assms(4) insert_order_ok by auto
qed

definition volume :: "Order list \<Rightarrow> int" where
  "volume xs = sum_list (map get_qty xs)"

lemma volume_vector_insert [simp]: "volume (vector_insert xs k x) = get_qty x + volume xs"
proof -
  have "volume xs = volume (take k xs) + volume (drop k xs)"
    by (metis append_take_drop_id map_append sum_list_append volume_def)
  then show ?thesis by (simp add: vector_insert_def volume_def)
qed

lemma volume_rev [simp]: "volume (rev xs) = volume xs"
  by (simp add: volume_def rev_map [symmetric])

lemma volume_insert_order:
  "\<not> is_dupe book x \<Longrightarrow> volume (own_side (insert_order book x) x) = get_qty x + volume (own_side book x)"
  by (auto simp: insert_order_def own_side_def Let_def)

section \<open>Cancelling an order\<close>

lemma filter_absent: "i \<notin> f ` set xs \<Longrightarrow> filter (\<lambda>x. f x \<noteq> i) xs = xs"
  by (auto simp: filter_id_conv)

lemma filter_vector_insert: "\<not> P x \<Longrightarrow> filter P (vector_insert xs k x) = filter P xs"
  by (simp add: vector_insert_def) (metis append_take_drop_id filter_append)

lemma erase_first_id:
  "distinct (map get_id xs) \<Longrightarrow>
   erase_first (\<lambda>x. get_id x = i) xs = filter (\<lambda>x. get_id x \<noteq> i) xs"
proof (induction xs)
  case (Cons x xs)
  then show ?case by (auto simp: filter_absent)
qed simp

definition without :: "Id \<Rightarrow> Orderbook \<Rightarrow> Orderbook" where
  "without i book = \<lparr>bids = filter (\<lambda>x. get_id x \<noteq> i) (bids book),
     asks = filter (\<lambda>x. get_id x \<noteq> i) (asks book)\<rparr>"

lemma CancelOrder_without:
  assumes "distinct (book_ids book)"
  shows "CancelOrder book i = without i book"
proof -
  have "i \<notin> get_id ` set (bids book) \<or> i \<notin> get_id ` set (asks book)"
    using assms by (auto simp: book_ids_def)
  moreover have "list_ex (\<lambda>x. get_id x = i) xs \<longleftrightarrow> i \<in> get_id ` set xs" for xs
    by (auto simp: list_ex_iff)
  ultimately show ?thesis
    using assms by (auto simp: CancelOrder_def without_def Let_def book_ids_def erase_first_id filter_absent)
qed

lemma side_ok_filter: "side_ok worse buy xs \<Longrightarrow> side_ok worse buy (filter P xs)"
  by (auto simp: side_ok_def side_sorted_def intro: sorted_wrt_filter)

lemma without_ok:
  "book_ok book \<Longrightarrow> book_ok (without i book)" "uncrossed book \<Longrightarrow> uncrossed (without i book)"
  by (auto simp: book_ok_def without_def book_ids_def side_ok_filter distinct_map_filter uncrossed_def)

lemma CancelOrder_ok:
  "book_ok book \<Longrightarrow> uncrossed book \<Longrightarrow> book_ok (CancelOrder book i) \<and> uncrossed (CancelOrder book i)"
  by (simp add: CancelOrder_without without_ok book_ok_def [of book])

section \<open>Runs of the book\<close>

datatype book_event = Add Order | Cancel Id

fun book_run :: "Orderbook \<Rightarrow> book_event list \<Rightarrow> (Trade list \<times> Orderbook) option" where
  "book_run book [] = Some ([], book)"
| "book_run book (Cancel i # es) = book_run (CancelOrder book i) es"
| "book_run book (Add ord # es) =
     (case AddOrder book ord of None \<Rightarrow> None
      | Some (ts, book') \<Rightarrow>
          (case book_run book' es of None \<Rightarrow> None | Some (us, book'') \<Rightarrow> Some (ts @ us, book'')))"

fun event_ok :: "book_event \<Rightarrow> bool" where
  "event_ok (Add ord) = order_ok ord"
| "event_ok (Cancel i) = True"

lemma AddOrder_total:
  assumes "book_ok book" and "order_ok inc"
  obtains ts book' where "AddOrder book inc = Some (ts, book')"
  using AddOrder_dupe AddOrder_new [OF assms] by metis

lemma book_run_ok:
  "book_ok book \<Longrightarrow> uncrossed book \<Longrightarrow> list_all event_ok es \<Longrightarrow>
   \<exists>ts book'. book_run book es = Some (ts, book') \<and> book_ok book' \<and> uncrossed book'"
proof (induction book es rule: book_run.induct)
  case (2 book i es)
  then show ?case using CancelOrder_ok by simp
next
  case (3 book ord es)
  obtain ts book' where add: "AddOrder book ord = Some (ts, book')"
    using AddOrder_total [of book ord] "3.prems" by auto
  with 3 have "book_ok book' \<and> uncrossed book'" by (intro AddOrder_invariant) auto
  with 3 add show ?case by fastforce
qed simp

text \<open>A buyer never pays more than its limit; a seller gets its own price.\<close>

definition within_limit :: "Order \<Rightarrow> Trade \<Rightarrow> bool" where
  "within_limit inc t \<longleftrightarrow>
     (if is_buy inc then Level t \<le> get_level inc else Level t = get_level inc)"

lemma fills_in_order_levels: "fills_in_order inc ts ps \<Longrightarrow> list_all (within_limit inc) ts"
proof (induction inc ts ps rule: fills_in_order.induct)
  case (3 inc t ts b ps)
  have "within_limit inc t"
    using "3.prems" by (auto simp: within_limit_def crosses_def can_match_def fill_def dest: arg_cong [of _ _ Level])
  with 3 show ?case by auto
qed simp_all

lemma fills_in_order_fill:
  "fills_in_order inc ts ps \<Longrightarrow> t \<in> set ts \<Longrightarrow> \<exists>b\<in>set ps. t = fill inc b (Size t)"
  by (induction inc ts ps rule: fills_in_order.induct) auto

section \<open>A small book for the witnesses\<close>

definition demo_book :: Orderbook where
  [run_simps]: "demo_book = \<lparr>bids = [Order_ctor 4 7 True 6, Order_ctor 3 8 True 2],
     asks = [Order_ctor 2 11 False 9, Order_ctor 1 10 False 5]\<rparr>"

lemma demo_book_ok: "book_ok demo_book" "uncrossed demo_book"
  by (auto simp: demo_book_def Order_ctor_def book_ok_def book_ids_def side_ok_def side_sorted_def
      resting_ok_def in_int32_def uncrossed_def can_match_def)

lemma demo_order_ok: "in_int32 q \<Longrightarrow> order_ok (Order_ctor i p buy q)"
  by (rule Order_ctor_ok)

text \<open>A buy of 8 at 12 takes the ask of 5 at 10 and 3 of the 9 at 11.\<close>

definition demo_trades :: "Trade list" where
  "demo_trades =
     [\<lparr>OrderIdA = 9, OrderIdB = 1, AggressorOrderId = 9, AggressorIsBuy = True, Level = 10, Size = 5\<rparr>,
      \<lparr>OrderIdA = 9, OrderIdB = 2, AggressorOrderId = 9, AggressorIsBuy = True, Level = 11, Size = 3\<rparr>]"

definition demo_book_after :: Orderbook where
  "demo_book_after = \<lparr>bids = bids demo_book, asks = [Order_ctor 2 11 False 6]\<rparr>"

lemma demo_add:
  "AddOrder demo_book (Order_ctor 9 12 True 8) = Some (demo_trades, demo_book_after)"
  by (simp add: AddOrder_def is_dupe_def demo_book_def Order_ctor_def match_loop.simps can_match_def
      int32_sub_def in_int32_def set_qty_def demo_trades_def demo_book_after_def)

section \<open>Properties\<close>

text \<open>
  C1: on a book that satisfies its invariant, AddOrder always returns (its loop ends and no
  quantity overflows), and the trades it reports and the book it leaves are those of the
  specification: the incoming order trades with the other side in price-time priority and
  what is left of it is queued behind every order at least as good.
\<close>

theorem AddOrder_refines:
  assumes "book_ok book" and "order_ok inc"
  shows "\<exists>ts book'. AddOrder book inc = Some (ts, book') \<and>
    spec_add (abs_book book) inc = (ts, abs_book book')"
proof (cases "is_dupe book inc")
  case True
  then have "get_id inc \<in> get_id ` (set (rev (bids book)) \<union> set (rev (asks book)))"
    by (auto simp: is_dupe_iff book_ids_def)
  with True show ?thesis by (simp add: AddOrder_dupe abs_book_def)
next
  case False
  then have new: "get_id inc \<notin> get_id ` (set (rev (bids book)) \<union> set (rev (asks book)))"
    by (auto simp: is_dupe_iff book_ids_def)
  obtain xs' r ts where add: "spec_match inc (rev (opposite book inc)) (get_qty inc) = (ts, rev xs', r)"
    "AddOrder book inc = Some (ts, if r > 0
        then insert_order (set_opposite book inc xs') (set_qty inc r) else set_opposite book inc xs')"
    "book_ok (set_opposite book inc xs')" "\<not> is_dupe (set_opposite book inc xs') (set_qty inc r)"
    using AddOrder_new [OF assms False] by metis
  then show ?thesis
    using new insert_order_abs [OF add(3,4)]
    by (auto simp: abs_book_def opposite_def set_opposite_def)
qed

theorem AddOrder_refines_witness:
  "\<exists>ts book'. AddOrder demo_book (Order_ctor 9 12 True 8) = Some (ts, book') \<and>
    spec_add (abs_book demo_book) (Order_ctor 9 12 True 8) = (ts, abs_book book')"
  by (rule AddOrder_refines [OF demo_book_ok(1)]) (simp add: Order_ctor_ok in_int32_def)

text \<open>
  C3: quantity is conserved by AddOrder. What the trades sum to is what the opposite side
  loses, and the rest of a new order's quantity is what its own side gains; no order can trade
  more than its quantity.
\<close>

theorem AddOrder_conserves:
  assumes "book_ok book" and "order_ok inc" and "0 \<le> get_qty inc" and "\<not> is_dupe book inc"
    and "AddOrder book inc = Some (ts, book')"
  shows "volume (opposite book inc) = sum_list (map Size ts) + volume (opposite book' inc) \<and>
    volume (own_side book' inc) = volume (own_side book inc) + (get_qty inc - sum_list (map Size ts)) \<and>
    sum_list (map Size ts) \<le> get_qty inc"
proof -
  obtain xs' r us where new: "spec_match inc (rev (opposite book inc)) (get_qty inc) = (us, rev xs', r)"
    "AddOrder book inc = Some (us, if r > 0
        then insert_order (set_opposite book inc xs') (set_qty inc r) else set_opposite book inc xs')"
    "\<not> is_dupe (set_opposite book inc xs') (set_qty inc r)"
    using AddOrder_new [OF assms(1,2,4)] by metis
  then have add: "spec_match inc (rev (opposite book inc)) (get_qty inc) = (ts, rev xs', r)"
    "book' = (if r > 0 then insert_order (set_opposite book inc xs') (set_qty inc r)
       else set_opposite book inc xs')"
    using assms(5) by simp_all
  have vol: "get_qty inc = sum_list (map Size ts) + r"
    "volume (opposite book inc) = sum_list (map Size ts) + volume xs'"
    using spec_match_conserves [OF add(1)] by (simp_all add: volume_def rev_map [symmetric])
  have "0 \<le> r"
    using spec_match_remaining [OF add(1)] opposite_resting [OF assms(1)] assms(3) by simp
  have "volume (opposite book' inc) = volume xs'" "volume (own_side book' inc) = r + volume (own_side book inc)"
    using volume_insert_order [OF new(3)] own_side_insert(1) [OF new(3)] \<open>0 \<le> r\<close>
    unfolding add(2) by (cases "0 < r"; simp)+
  then show ?thesis using vol \<open>0 \<le> r\<close> by (intro conjI) linarith+
qed

theorem AddOrder_conserves_witness:
  "volume (opposite demo_book (Order_ctor 9 12 True 8)) =
      sum_list (map Size demo_trades) + volume (opposite demo_book_after (Order_ctor 9 12 True 8)) \<and>
    volume (own_side demo_book_after (Order_ctor 9 12 True 8)) =
      volume (own_side demo_book (Order_ctor 9 12 True 8)) +
      (get_qty (Order_ctor 9 12 True 8) - sum_list (map Size demo_trades)) \<and>
    sum_list (map Size demo_trades) \<le> get_qty (Order_ctor 9 12 True 8)"
  by (rule AddOrder_conserves [OF demo_book_ok(1) _ _ _ demo_add])
    (auto simp: Order_ctor_ok in_int32_def is_dupe_def demo_book_def, auto simp: Order_ctor_def)

text \<open>
  C4: AddOrder trades in strict price-time priority. The trades it reports fill the orders of
  the opposite side one after the other from the best one, each for a positive quantity and at
  a crossing price, and only the last can be partial; a buyer never pays more than its limit and
  a seller gets its own price.
\<close>

theorem AddOrder_priority:
  assumes "book_ok book" and "order_ok inc" and "AddOrder book inc = Some (ts, book')"
  shows "fills_in_order inc ts (rev (opposite book inc)) \<and>
    list_all (within_limit inc) ts"
proof (cases "is_dupe book inc")
  case True
  with assms show ?thesis by (simp add: AddOrder_dupe)
next
  case False
  obtain xs' r where "spec_match inc (rev (opposite book inc)) (get_qty inc) = (ts, rev xs', r)"
    using AddOrder_new [OF assms(1,2) False] assms(3) by (metis Pair_inject option.inject)
  then show ?thesis
    using opposite_resting [OF assms(1)] fills_in_order_levels spec_match_in_order by fastforce
qed

theorem AddOrder_priority_witness:
  "fills_in_order (Order_ctor 9 12 True 8) demo_trades (rev (opposite demo_book (Order_ctor 9 12 True 8))) \<and>
    list_all (within_limit (Order_ctor 9 12 True 8)) demo_trades"
  by (rule AddOrder_priority [OF demo_book_ok(1) _ demo_add]) (simp add: Order_ctor_ok in_int32_def)

text \<open>
  C2: whatever orders and cancellations a fresh book is given, it never fails: every run
  returns, and the book it leaves is well formed (both sides sorted with the best price at the
  back, ids distinct, quantities positive and in range) and uncrossed (no resting bid reaches a
  resting ask).
\<close>

theorem book_run_invariant:
  assumes "list_all event_ok es"
  shows "\<exists>ts book. book_run Orderbook_ctor es = Some (ts, book) \<and> book_ok book \<and> uncrossed book"
  using book_run_ok [OF Orderbook_ctor_ok assms] .

theorem book_run_invariant_witness:
  "\<exists>ts book. book_run Orderbook_ctor
       [Add (Order_ctor 1 10 False 5), Add (Order_ctor 2 12 True 3), Cancel 1] = Some (ts, book) \<and>
     book_ok book \<and> uncrossed book"
  by (rule book_run_invariant) (simp add: Order_ctor_ok in_int32_def)

text \<open>
  C5: CancelOrder removes exactly the order with the given id, from whichever side holds it,
  keeps all others in their order, changes nothing when no order has the id, and keeps the
  book's invariant.
\<close>

theorem CancelOrder_exact:
  assumes "book_ok book"
  shows "CancelOrder book i = without i book \<and> book_ok (CancelOrder book i) \<and>
    (i \<notin> set (book_ids book) \<longrightarrow> CancelOrder book i = book)"
proof -
  have "CancelOrder book i = without i book"
    using assms by (simp add: CancelOrder_without book_ok_def)
  moreover have "without i book = book" if "i \<notin> set (book_ids book)"
    using that by (auto simp: without_def book_ids_def filter_id_conv intro!: Orderbook.equality)
  ultimately show ?thesis using without_ok(1) [OF assms] by simp
qed

theorem CancelOrder_exact_witness:
  "CancelOrder demo_book 2 = without 2 demo_book \<and> book_ok (CancelOrder demo_book 2) \<and>
    CancelOrder demo_book 77 = demo_book"
proof -
  have "77 \<notin> set (book_ids demo_book)"
    by (simp add: demo_book_def book_ids_def Order_ctor_def)
  then show ?thesis
    using CancelOrder_exact [OF demo_book_ok(1), of 2] CancelOrder_exact [OF demo_book_ok(1), of 77]
    by blast
qed

text \<open>
  C6: adding an order that crosses nothing and cancelling it again is a round trip: no trade
  happens, and the book is restored, every queue position included.
\<close>

theorem AddOrder_CancelOrder:
  assumes "book_ok book" and "order_ok inc" and "0 < get_qty inc" and "\<not> is_dupe book inc"
    and "\<forall>b\<in>set (opposite book inc). \<not> crosses inc b"
  shows "\<exists>book'. AddOrder book inc = Some ([], book') \<and> CancelOrder book' (get_id inc) = book"
proof -
  have "match_loop inc (opposite book inc) (get_qty inc) [] = Some (opposite book inc, get_qty inc, [])"
    using assms(5) by (intro match_loop_stop) (auto dest: last_in_set)
  from AddOrder_loop [OF assms(4) this]
  have add: "AddOrder book inc = Some ([], insert_order book inc)"
    using assms(3) by (simp add: set_opposite_def opposite_def set_qty_def)
  have "resting_ok inc" using assms(2,3) by (simp add: order_ok_def resting_ok_def)
  then have "book_ok (insert_order book inc)" by (rule insert_order_ok [OF assms(1)])
  then have cancel: "CancelOrder (insert_order book inc) (get_id inc) =
      without (get_id inc) (insert_order book inc)"
    by (simp add: CancelOrder_without book_ok_def)
  have "without (get_id inc) (insert_order book inc) = without (get_id inc) book"
    using assms(4)
    by (simp add: without_def insert_order_def filter_vector_insert Let_def)
  also have "\<dots> = book"
    using assms(4)
    by (simp add: without_def is_dupe_iff book_ids_def filter_absent)
  finally show ?thesis using add cancel by simp
qed

theorem AddOrder_CancelOrder_witness:
  "\<exists>book'. AddOrder demo_book (Order_ctor 9 9 True 8) = Some ([], book') \<and>
     CancelOrder book' (get_id (Order_ctor 9 9 True 8)) = demo_book"
  by (rule AddOrder_CancelOrder [OF demo_book_ok(1)])
    (simp_all add: Order_ctor_def order_ok_def in_int32_def is_dupe_def demo_book_def opposite_def
      crosses_def can_match_def)

section \<open>The ids of a trade\<close>

text \<open>
  The comment on Trade calls OrderIdB the aggressor's id. The code puts the ask there: for a
  buying aggressor it is the resting order, and OrderIdA is the aggressor.
\<close>

lemma buy_trade_ids:
  assumes "book_ok book" and "order_ok inc" and "\<not> is_dupe book inc" and "is_buy inc"
    and "AddOrder book inc = Some (ts, book')" and "t \<in> set ts"
  shows "OrderIdA t = AggressorOrderId t \<and> OrderIdB t \<noteq> AggressorOrderId t"
proof -
  obtain xs' r us where "spec_match inc (rev (opposite book inc)) (get_qty inc) = (us, rev xs', r)"
    "AddOrder book inc = Some (us, if r > 0
        then insert_order (set_opposite book inc xs') (set_qty inc r) else set_opposite book inc xs')"
    using AddOrder_new [OF assms(1-3)] by metis
  then have "fills_in_order inc ts (rev (opposite book inc))"
    using spec_match_in_order opposite_resting [OF assms(1)] assms(5) by fastforce
  then obtain b q where b: "b \<in> set (opposite book inc)" and t: "t = fill inc b q"
    using fills_in_order_fill assms(6) by fastforce
  have "get_id b \<in> set (book_ids book)"
    using b assms(4) by (simp add: book_ids_def opposite_def)
  then have "get_id b \<noteq> get_id inc"
    using assms(3) by (metis is_dupe_iff)
  then show ?thesis using assms(4) by (simp add: t fill_def)
qed

end
