(* ===== verification/QueueSpec.thy ===== *)
theory QueueSpec
  imports Prelude
begin

text \<open>
  The contract of the library's queues, as locales: a state that represents a list, a put that
  may refuse and a get that may find nothing. Results are option values, where None would be
  undefined behaviour. A bounded queue refuses exactly when it holds its capacity. The lemmas
  show that every run of operations gives the answers of the list model and keeps FIFO order.
\<close>

datatype 'a fifo_op = Put 'a | Get

datatype 'a fifo_result = Accepted bool | Popped "'a option"

fun fifo_step ::
  "('s \<Rightarrow> 'a \<Rightarrow> (bool \<times> 's) option) \<Rightarrow> ('s \<Rightarrow> ('a option \<times> 's) option) \<Rightarrow>
   's \<Rightarrow> 'a fifo_op \<Rightarrow> ('a fifo_result \<times> 's) option" where
  "fifo_step put get s (Put x) = map_option (\<lambda>(b, s'). (Accepted b, s')) (put s x)"
| "fifo_step put get s Get = map_option (\<lambda>(r, s'). (Popped r, s')) (get s)"

fun fifo_run ::
  "('s \<Rightarrow> 'a \<Rightarrow> (bool \<times> 's) option) \<Rightarrow> ('s \<Rightarrow> ('a option \<times> 's) option) \<Rightarrow>
   's \<Rightarrow> 'a fifo_op list \<Rightarrow> ('a fifo_result list \<times> 's) option" where
  "fifo_run put get s [] = Some ([], s)"
| "fifo_run put get s (a # as) =
     (case fifo_step put get s a of None \<Rightarrow> None
      | Some (r, s') \<Rightarrow> map_option (\<lambda>(rs, s''). (r # rs, s'')) (fifo_run put get s' as))"

section \<open>The list model\<close>

definition list_put :: "nat option \<Rightarrow> 'a list \<Rightarrow> 'a \<Rightarrow> (bool \<times> 'a list) option" where
  "list_put cap xs x =
     Some (case cap of None \<Rightarrow> (True, xs @ [x])
           | Some n \<Rightarrow> if length xs < n then (True, xs @ [x]) else (False, xs))"

definition list_get :: "'a list \<Rightarrow> ('a option \<times> 'a list) option" where
  "list_get xs = Some (case xs of [] \<Rightarrow> (None, []) | x # ys \<Rightarrow> (Some x, ys))"

abbreviation list_run :: "nat option \<Rightarrow> 'a list \<Rightarrow> 'a fifo_op list \<Rightarrow> ('a fifo_result list \<times> 'a list) option" where
  "list_run cap \<equiv> fifo_run (list_put cap) list_get"

text \<open>What went in and what came out of a run, in order.\<close>

fun accepted :: "'a fifo_op list \<Rightarrow> 'a fifo_result list \<Rightarrow> 'a list" where
  "accepted (Put x # as) (Accepted True # rs) = x # accepted as rs"
| "accepted (a # as) (r # rs) = accepted as rs"
| "accepted _ _ = []"

fun popped :: "'a fifo_result list \<Rightarrow> 'a list" where
  "popped [] = []"
| "popped (Popped (Some x) # rs) = x # popped rs"
| "popped (r # rs) = popped rs"

lemma list_run_total: "\<exists>rs ys. list_run cap xs as = Some (rs, ys)"
proof (induction as arbitrary: xs)
  case (Cons a as)
  have "\<exists>r ys. fifo_step (list_put cap) list_get xs a = Some (r, ys)"
    by (cases a) (simp_all add: list_put_def list_get_def split: prod.splits)
  then obtain r ys where "fifo_step (list_put cap) list_get xs a = Some (r, ys)" by blast
  then show ?case using Cons [of ys] by auto
qed simp

lemma list_run_fifo:
  "list_run cap xs as = Some (rs, ys) \<Longrightarrow> xs @ accepted as rs = popped rs @ ys"
proof (induction as arbitrary: xs rs)
  case (Cons a as)
  then show ?case
    by (cases a) (force simp: list_put_def list_get_def split: option.splits list.splits if_splits)+
qed simp

lemma list_run_bounded:
  "list_run (Some n) xs as = Some (rs, ys) \<Longrightarrow> length xs \<le> n \<Longrightarrow> length ys \<le> n"
proof (induction as arbitrary: xs rs)
  case (Cons a as)
  then show ?case
    by (cases a) (force simp: list_put_def list_get_def split: option.splits list.splits if_splits)+
qed simp

section \<open>The interface\<close>

locale fifo_queue =
  fixes inv :: "'s \<Rightarrow> bool"
    and items :: "'s \<Rightarrow> 'a list"
    and cap :: "nat option"
    and put :: "'s \<Rightarrow> 'a \<Rightarrow> (bool \<times> 's) option"
    and get :: "'s \<Rightarrow> ('a option \<times> 's) option"
  assumes put_list: "inv s \<Longrightarrow> \<exists>s'. put s x = Some (fst (the (list_put cap (items s) x)), s') \<and>
      inv s' \<and> items s' = snd (the (list_put cap (items s) x))"
    and get_list: "inv s \<Longrightarrow> \<exists>s'. get s = Some (fst (the (list_get (items s))), s') \<and>
      inv s' \<and> items s' = snd (the (list_get (items s)))"
begin

lemma step_list:
  assumes "inv s"
  shows "\<exists>r s'. fifo_step put get s a = Some (r, s') \<and> inv s' \<and>
    fifo_step (list_put cap) list_get (items s) a = Some (r, items s')"
proof (cases a)
  case (Put x)
  obtain s' where "put s x = Some (fst (the (list_put cap (items s) x)), s')" "inv s'"
    "items s' = snd (the (list_put cap (items s) x))"
    using put_list [OF assms, of x] by blast
  then show ?thesis by (simp add: Put list_put_def split: prod.splits)
next
  case Get
  obtain s' where "get s = Some (fst (the (list_get (items s))), s')" "inv s'"
    "items s' = snd (the (list_get (items s)))"
    using get_list [OF assms] by blast
  then show ?thesis by (simp add: Get list_get_def split: prod.splits)
qed

lemma run_list:
  "inv s \<Longrightarrow> \<exists>rs s'. fifo_run put get s as = Some (rs, s') \<and> inv s' \<and>
    list_run cap (items s) as = Some (rs, items s')"
proof (induction as arbitrary: s)
  case (Cons a as)
  obtain r s' where step: "fifo_step put get s a = Some (r, s')" "inv s'"
    "fifo_step (list_put cap) list_get (items s) a = Some (r, items s')"
    using step_list [OF Cons.prems] by metis
  show ?case using Cons.IH [OF step(2)] step by auto
qed simp

lemma run_fifo:
  "inv s \<Longrightarrow> fifo_run put get s as = Some (rs, s') \<Longrightarrow>
   items s @ accepted as rs = popped rs @ items s'"
  using run_list [of s as] list_run_fifo by fastforce

end

text \<open>A bounded queue: it never holds more than its capacity.\<close>

locale bounded_queue = fifo_queue inv items "Some n" put get
  for inv :: "'s \<Rightarrow> bool" and items :: "'s \<Rightarrow> 'a list" and n :: nat
    and put :: "'s \<Rightarrow> 'a \<Rightarrow> (bool \<times> 's) option" and get :: "'s \<Rightarrow> ('a option \<times> 's) option" +
  assumes bounded: "inv s \<Longrightarrow> length (items s) \<le> n"
begin

lemma put_full: "inv s \<Longrightarrow> length (items s) = n \<Longrightarrow> \<exists>s'. put s x = Some (False, s') \<and> items s' = items s"
  using put_list [of s x] by (auto simp: list_put_def)

lemma put_room: "inv s \<Longrightarrow> length (items s) < n \<Longrightarrow>
    \<exists>s'. put s x = Some (True, s') \<and> inv s' \<and> items s' = items s @ [x]"
  using put_list [of s x] by (auto simp: list_put_def)

lemma run_bounded: "inv s \<Longrightarrow> fifo_run put get s as = Some (rs, s') \<Longrightarrow> length (items s') \<le> n"
  using run_list [of s as] bounded by fastforce

end

end
