(* ===== verification/SPSCQueue.thy ===== *)
theory SPSCQueue
  imports QueueSpec
begin

text \<open>
  The lock-free single-producer single-consumer ring of include/quick/structs/SPSCQueue.hh: its
  two free-running 64-bit counters, the slots with their constructed or raw memory, and every
  operation as it runs alone. A None result is undefined behaviour: an access outside the
  storage, or a move from or destruction of raw memory. The concurrent use of the same code is
  in the theory SPSCThreads.
\<close>

section \<open>State and operations\<close>

text \<open>A slot holds a constructed object (Some) or raw memory (None).\<close>

record 'a spsc =
  m_head :: u64
  m_tail :: u64
  m_storage :: "'a option list"

text \<open>The static_assert on CapacityPow2.\<close>

definition capacity_assert :: "u64 \<Rightarrow> bool" where
  [run_simps]: "capacity_assert n \<longleftrightarrow> n AND (n - 1) = 0"

definition slot_ptr :: "u64 \<Rightarrow> u64 \<Rightarrow> nat" where
  "slot_ptr kCapacity idx = unat (idx AND (kCapacity - 1))"

definition spsc_ctor :: "u64 \<Rightarrow> 'a spsc" where
  [run_simps]: "spsc_ctor kCapacity =
     \<lparr>m_head = 0, m_tail = 0, m_storage = replicate (unat kCapacity) None\<rparr>"

definition construct_at :: "'a option list \<Rightarrow> nat \<Rightarrow> 'a \<Rightarrow> 'a option list option" where
  [run_simps]: "construct_at st p x = (if p < length st then Some (st[p := Some x]) else None)"

definition destroy_at :: "'a option list \<Rightarrow> nat \<Rightarrow> 'a option list option" where
  [run_simps]: "destroy_at st p =
     (if p < length st \<and> st ! p \<noteq> None then Some (st[p := None]) else None)"

definition read_at :: "'a option list \<Rightarrow> nat \<Rightarrow> 'a option" where
  [run_simps]: "read_at st p = (if p < length st then st ! p else None)"

definition emplace :: "u64 \<Rightarrow> 'a spsc \<Rightarrow> 'a \<Rightarrow> (bool \<times> 'a spsc) option" where
  [run_simps]: "emplace kCapacity q x =
     (let head = m_head q; tail = m_tail q
      in if head - tail = kCapacity then Some (False, q)
         else (case construct_at (m_storage q) (slot_ptr kCapacity head) x of
             None \<Rightarrow> None
           | Some st \<Rightarrow> Some (True, q\<lparr>m_storage := st, m_head := head + 1\<rparr>)))"

definition push :: "u64 \<Rightarrow> 'a spsc \<Rightarrow> 'a \<Rightarrow> (bool \<times> 'a spsc) option" where
  [run_simps]: "push kCapacity q x = emplace kCapacity q x"

text \<open>The result is None for false, and Some of what pop moved to its out parameter for true.\<close>

definition pop :: "u64 \<Rightarrow> 'a spsc \<Rightarrow> ('a option \<times> 'a spsc) option" where
  [run_simps]: "pop kCapacity q =
     (let tail = m_tail q; head = m_head q
      in if head = tail then Some (None, q)
         else
           (let p = slot_ptr kCapacity tail
            in case read_at (m_storage q) p of
                 None \<Rightarrow> None
               | Some out \<Rightarrow>
                   (case destroy_at (m_storage q) p of
                      None \<Rightarrow> None
                    | Some st \<Rightarrow> Some (Some out, q\<lparr>m_storage := st, m_tail := tail + 1\<rparr>))))"

definition empty :: "'a spsc \<Rightarrow> bool" where
  [run_simps]: "empty q \<longleftrightarrow> m_head q = m_tail q"

definition full :: "u64 \<Rightarrow> 'a spsc \<Rightarrow> bool" where
  [run_simps]: "full kCapacity q \<longleftrightarrow> m_head q - m_tail q = kCapacity"

definition size_of :: "'a spsc \<Rightarrow> u64" where
  [run_simps]: "size_of q = m_head q - m_tail q"

definition capacity :: "u64 \<Rightarrow> u64" where
  [run_simps]: "capacity kCapacity = kCapacity"

text \<open>The destructor's loop over the elements that are still constructed.\<close>

function drain :: "u64 \<Rightarrow> u64 \<Rightarrow> u64 \<Rightarrow> 'a option list \<Rightarrow> 'a option list option" where
  "drain kCapacity tail head st =
     (if tail = head then Some st
      else case destroy_at st (slot_ptr kCapacity tail) of
          None \<Rightarrow> None
        | Some st' \<Rightarrow> drain kCapacity (tail + 1) head st')"
  by pat_completeness auto

lemma unat_sub_add_one:
  fixes h t :: u64
  assumes "t \<noteq> h"
  shows "Suc (unat (h - (t + 1))) = unat (h - t)"
proof -
  have "h - t \<noteq> 0" using assms by simp
  then have "unat (h - t - 1) = unat (h - t) - 1" by (rule unat_minus_one)
  moreover have "0 < unat (h - t)" using \<open>h - t \<noteq> 0\<close> by (simp add: unat_gt_0)
  ultimately show ?thesis by (simp add: diff_diff_add)
qed

termination drain
  by (relation "measure (\<lambda>(kCapacity, tail, head, st). unat (head - tail))")
    (auto dest: unat_sub_add_one)

declare drain.simps [simp del]

definition spsc_dtor :: "u64 \<Rightarrow> 'a spsc \<Rightarrow> 'a option list option" where
  "spsc_dtor kCapacity q = drain kCapacity (m_tail q) (m_head q) (m_storage q)"

section \<open>The ring as a list\<close>

definition spsc_items :: "u64 \<Rightarrow> 'a spsc \<Rightarrow> 'a list" where
  "spsc_items n q =
     map (\<lambda>i. the (m_storage q ! slot_ptr n (m_tail q + of_nat i))) [0..<unat (m_head q - m_tail q)]"

text \<open>
  The counters are never further apart than the capacity, and exactly the slots between them
  hold a constructed object.
\<close>

definition spsc_inv :: "u64 \<Rightarrow> 'a spsc \<Rightarrow> bool" where
  "spsc_inv n q \<longleftrightarrow> capacity_assert n \<and>
     length (m_storage q) = unat n \<and> unat (m_head q - m_tail q) \<le> unat n \<and>
     (\<forall>i<unat n. (m_storage q ! slot_ptr n (m_tail q + of_nat i) \<noteq> None) \<longleftrightarrow>
        i < unat (m_head q - m_tail q))"

lemma capacity_pow2:
  assumes "capacity_assert n" and "0 < unat n"
  obtains k where "k < 64" and "unat n = 2 ^ k"
proof -
  have "n AND (n - 1) = 0" "n \<noteq> 0" using assms by (auto simp: capacity_assert_def)
  then show thesis using that by (rule pow2_of_and_pred)
qed

lemma slot_less: "capacity_assert n \<Longrightarrow> 0 < unat n \<Longrightarrow> slot_ptr n x < unat n"
  by (erule (1) capacity_pow2) (simp add: slot_ptr_def unat_and_pred)

lemma slot_shift:
  assumes "capacity_assert n" and "0 < unat n"
  shows "slot_ptr n (t + of_nat i) = (unat t + i) mod unat n"
proof -
  obtain k where k: "k < 64" "unat n = 2 ^ k" by (rule capacity_pow2 [OF assms])
  have "t + of_nat i = of_nat (unat t + i)" by simp
  then show ?thesis
    using k by (simp only: slot_ptr_def unat_and_pred mod_pow2_of_nat)
qed

lemma slot_eq_iff:
  "capacity_assert n \<Longrightarrow> i < unat n \<Longrightarrow> j < unat n \<Longrightarrow>
   slot_ptr n (t + of_nat i) = slot_ptr n (t + of_nat j) \<longleftrightarrow> i = j"
  by (simp add: slot_shift mod_add_inj)

lemma head_offset: "m_head q = m_tail q + of_nat (unat (m_head q - m_tail q))"
  by simp

lemma length_spsc_items [simp]: "length (spsc_items n q) = unat (size_of q)"
  by (simp add: spsc_items_def size_of_def)

lemma spsc_ctor_inv: "capacity_assert n \<Longrightarrow> spsc_inv n (spsc_ctor n)"
  by (auto simp: spsc_inv_def spsc_ctor_def slot_less)

lemma spsc_ctor_items [simp]: "spsc_items n (spsc_ctor n) = []"
  by (simp add: spsc_items_def spsc_ctor_def)

text \<open>A queue that is not full has its head slot raw, and emplace appends there.\<close>

lemma emplace_room:
  assumes "spsc_inv n q" and "length (spsc_items n q) < unat n"
  shows "\<exists>q'. emplace n q x = Some (True, q') \<and> spsc_inv n q' \<and> spsc_items n q' = spsc_items n q @ [x]"
proof -
  let ?t = "m_tail q" and ?d = "unat (m_head q - m_tail q)"
  let ?s = "\<lambda>i. slot_ptr n (?t + of_nat i)"
  define q' where "q' = q\<lparr>m_storage := (m_storage q)[?s ?d := Some x], m_head := m_head q + 1\<rparr>"
  have cap: "capacity_assert n" and len: "length (m_storage q) = unat n" and d: "?d < unat n"
    and live: "\<And>i. i < unat n \<Longrightarrow> (m_storage q ! ?s i \<noteq> None) \<longleftrightarrow> i < ?d"
    using assms by (auto simp: spsc_inv_def size_of_def)
  have s: "?s i < length (m_storage q)" for i using slot_less [OF cap] d len by simp
  have sh: "slot_ptr n (m_head q) < length (m_storage q)" using s [of ?d] by simp
  have d': "unat (m_head q' - m_tail q') = Suc ?d"
  proof -
    have "m_head q' - m_tail q' = of_nat (Suc ?d)" by (simp add: q'_def)
    moreover have "Suc ?d < 2 ^ 64" using d unat_lt64 [of n] by simp
    ultimately show ?thesis by (simp only: unat_of_nat) simp
  qed
  have slot: "m_storage q' ! ?s i = (if i = ?d then Some x else m_storage q ! ?s i)" if "i < unat n" for i
    using that d slot_eq_iff [OF cap that d, of ?t] sh by (auto simp: q'_def nth_list_update)
  have "emplace n q x = Some (True, q')"
    using d sh by (auto simp: emplace_def construct_at_def q'_def Let_def)
  moreover have "spsc_inv n q'"
    unfolding spsc_inv_def d' using cap len d slot live by (auto simp: q'_def less_Suc_eq)
  moreover have "spsc_items n q' = spsc_items n q @ [x]"
  proof -
    have t: "m_tail q' = ?t" by (simp add: q'_def)
    have d'': "unat (m_head q' - ?t) = Suc ?d" using d' t by simp
    show ?thesis unfolding spsc_items_def t d'' using slot slot [OF d] d by simp
  qed
  ultimately show ?thesis by blast
qed

lemma emplace_full:
  "length (spsc_items n q) = unat n \<Longrightarrow> emplace n q x = Some (False, q)"
  by (simp add: emplace_def size_of_def Let_def word_unat_eq_iff)

lemma items_bounded: "spsc_inv n q \<Longrightarrow> length (spsc_items n q) \<le> unat n"
  by (simp add: spsc_inv_def size_of_def)

lemma pop_empty: "spsc_items n q = [] \<Longrightarrow> pop n q = Some (None, q)"
  by (simp add: spsc_items_def pop_def unat_eq_0)

text \<open>A queue that is not empty has its first item in the tail slot; pop returns it and leaves raw memory.\<close>

lemma pop_item:
  assumes "spsc_inv n q" and "spsc_items n q = x # xs"
  shows "\<exists>q'. pop n q = Some (Some x, q') \<and> spsc_inv n q' \<and> spsc_items n q' = xs"
proof -
  let ?t = "m_tail q" and ?d = "unat (m_head q - m_tail q)"
  let ?s = "\<lambda>i. slot_ptr n (?t + of_nat i)"
  define q' where "q' = q\<lparr>m_storage := (m_storage q)[?s 0 := None], m_tail := ?t + 1\<rparr>"
  have "length (spsc_items n q) = Suc (length xs)" using assms(2) by simp
  then have d: "?d = Suc (length xs)" by (simp add: size_of_def)
  have ne: "?t \<noteq> m_head q" using d by auto
  have cap: "capacity_assert n" and len: "length (m_storage q) = unat n" and le: "?d \<le> unat n"
    and live: "\<And>i. i < unat n \<Longrightarrow> (m_storage q ! ?s i \<noteq> None) \<longleftrightarrow> i < ?d"
    using assms(1) by (auto simp: spsc_inv_def)
  have n: "0 < unat n" using d le by simp
  have s: "?s i < length (m_storage q)" for i using slot_less [OF cap n] len by simp
  have d': "unat (m_head q' - m_tail q') = length xs"
    using unat_sub_add_one [OF ne] d by (simp add: q'_def)
  have items: "spsc_items n q = map (\<lambda>i. the (m_storage q ! ?s i)) [0..<?d]"
    by (simp add: spsc_items_def)
  have x: "m_storage q ! ?s 0 = Some x"
    using live [OF n] items assms(2) by (simp add: d upt_conv_Cons del: upt_Suc)
  have "pop n q = Some (Some x, q')"
    using ne s [of 0] x by (auto simp: pop_def read_at_def destroy_at_def q'_def Let_def)
  moreover have slot: "m_storage q' ! slot_ptr n (m_tail q' + of_nat i) =
      (if Suc i < unat n then m_storage q ! ?s (Suc i) else None)" if "i < unat n" for i
  proof (cases "Suc i < unat n")
    case True
    then show ?thesis
      using slot_eq_iff [OF cap n True, of ?t] by (simp add: q'_def nth_list_update add.assoc)
  next
    case False
    with that have "Suc i = unat n" by simp
    then have "?s (Suc i) = ?s 0"
      unfolding slot_shift [OF cap n] by simp
    then show ?thesis using False s [of 0] by (simp add: q'_def add.assoc)
  qed
  moreover have "spsc_inv n q'"
  proof -
    have "(m_storage q' ! slot_ptr n (m_tail q' + of_nat i) \<noteq> None) \<longleftrightarrow> i < length xs"
      if "i < unat n" for i
      unfolding slot [OF that] using live [of "Suc i"] d le by auto
    then show ?thesis
      unfolding spsc_inv_def d' using cap len le d by (simp add: q'_def)
  qed
  moreover have "spsc_items n q' = xs"
  proof -
    have "spsc_items n q' = map (\<lambda>i. the (m_storage q ! ?s (Suc i))) [0..<length xs]"
      unfolding spsc_items_def d' using slot d le by simp
    also have "\<dots> = tl (map (\<lambda>i. the (m_storage q ! ?s i)) [0..<?d])"
      unfolding d by (simp only: upt_conv_Cons zero_less_Suc list.map list.sel map_Suc_upt [symmetric] map_map comp_def)
    finally show ?thesis using items assms(2) by (metis list.sel(3))
  qed
  ultimately show ?thesis by blast
qed

interpretation spsc: bounded_queue "spsc_inv n" "spsc_items n" "unat n" "emplace n" "pop n" for n
proof unfold_locales
  fix q :: "'a spsc" and x assume inv: "spsc_inv n q"
  show "\<exists>s'. emplace n q x = Some (fst (the (list_put (Some (unat n)) (spsc_items n q) x)), s') \<and>
      spsc_inv n s' \<and> spsc_items n s' = snd (the (list_put (Some (unat n)) (spsc_items n q) x))"
    using emplace_room [OF inv, of x] emplace_full [of n q x] items_bounded [OF inv] inv
    by (cases "length (spsc_items n q) < unat n") (auto simp: list_put_def)
  show "\<exists>s'. pop n q = Some (fst (the (list_get (spsc_items n q))), s') \<and>
      spsc_inv n s' \<and> spsc_items n s' = snd (the (list_get (spsc_items n q)))"
    using pop_item [OF inv] pop_empty [of n q] inv
    by (cases "spsc_items n q") (auto simp: list_get_def)
  show "length (spsc_items n q) \<le> unat n" by (rule items_bounded [OF inv])
qed

section \<open>The destructor\<close>

text \<open>The loop of the destructor destroys exactly the constructed slots.\<close>

lemma drain_inv:
  assumes "spsc_inv n q"
  shows "drain n (m_tail q) (m_head q) (m_storage q) = Some (replicate (unat n) None)"
  using assms
proof (induction "unat (m_head q - m_tail q)" arbitrary: q)
  case 0
  then have eq: "m_tail q = m_head q" and raw: "\<And>i. i < unat n \<Longrightarrow> m_storage q ! slot_ptr n (m_tail q + of_nat i) = None"
    by (simp_all add: spsc_inv_def unat_eq_0)
  have "m_storage q ! j = None" if j: "j < unat n" for j
  proof -
    let ?i = "(j + unat n - unat (m_tail q) mod unat n) mod unat n"
    have cap: "capacity_assert n" using 0 by (simp add: spsc_inv_def)
    have "slot_ptr n (m_tail q + of_nat ?i) = j"
      using j cap by (simp add: slot_shift mod_add_cancel_back)
    moreover have "?i < unat n" using j by simp
    ultimately show ?thesis using raw by metis
  qed
  then have "m_storage q = replicate (unat n) None"
    using 0 by (intro nth_equalityI) (auto simp: spsc_inv_def)
  then show ?case using eq by (simp add: drain.simps)
next
  case (Suc d)
  then obtain x xs where "spsc_items n q = x # xs"
    by (cases "spsc_items n q") (auto simp: spsc_items_def)
  then obtain q' where pop: "pop n q = Some (Some x, q')" "spsc_inv n q'"
    using pop_item [OF Suc.prems] by metis
  then have q': "m_head q' = m_head q" "m_tail q' = m_tail q + 1" "m_tail q \<noteq> m_head q"
    "destroy_at (m_storage q) (slot_ptr n (m_tail q)) = Some (m_storage q')"
    by (auto simp: pop_def Let_def split: if_splits option.splits)
  have "d = unat (m_head q' - m_tail q')"
    using unat_sub_add_one [OF q'(3)] Suc.hyps(2) q'(1,2) by simp
  then show ?case
    using Suc.hyps(1) [OF _ pop(2)] q' by (subst drain.simps) simp
qed

section \<open>A ring of four slots whose counters are about to wrap\<close>

definition demo_ring :: "nat spsc" where
  [run_simps]: "demo_ring = \<lparr>m_head = 2 ^ 64 - 1, m_tail = 2 ^ 64 - 1, m_storage = replicate 4 None\<rparr>"

lemma demo_ring_inv: "spsc_inv 4 demo_ring"
  using slot_less [of 4] by (simp add: spsc_inv_def demo_ring_def capacity_assert_def)

lemma demo_ring_run:
  "fifo_run (push 4) (pop 4) demo_ring [Put 7, Put 8, Get, Put 9] =
     Some ([Accepted True, Accepted True, Popped (Some 7), Accepted True],
       \<lparr>m_head = 2, m_tail = 0, m_storage = [Some 8, Some 9, None, None]\<rparr>)"
  by code_simp

section \<open>Properties\<close>

text \<open>
  C7: used from one thread, the ring is a bounded FIFO queue of its capacity, for any sequence
  of push and pop and however far the 64-bit counters have run around. No operation reads,
  moves from or destroys raw memory or leaves the storage, every result is the one of a list
  that refuses a push exactly when it holds capacity elements, what was pushed comes out in
  order, and empty, full and size tell the state of that list.
\<close>

theorem spsc_refines_list:
  assumes "spsc_inv n q"
  shows "\<exists>rs q'. fifo_run (push n) (pop n) q as = Some (rs, q') \<and> spsc_inv n q' \<and>
    list_run (Some (unat n)) (spsc_items n q) as = Some (rs, spsc_items n q') \<and>
    spsc_items n q @ accepted as rs = popped rs @ spsc_items n q' \<and>
    length (spsc_items n q') = unat (size_of q') \<and> length (spsc_items n q') \<le> unat (capacity n) \<and>
    (empty q' \<longleftrightarrow> spsc_items n q' = []) \<and> (full n q' \<longleftrightarrow> length (spsc_items n q') = unat n)"
proof -
  have push: "push n = emplace n" by (simp add: push_def fun_eq_iff)
  obtain rs q' where run: "fifo_run (push n) (pop n) q as = Some (rs, q')" "spsc_inv n q'"
    "list_run (Some (unat n)) (spsc_items n q) as = Some (rs, spsc_items n q')"
    using spsc.run_list [OF assms, of as] unfolding push by blast
  have "empty q' \<longleftrightarrow> spsc_items n q' = []"
    by (auto simp: empty_def spsc_items_def unat_eq_0)
  moreover have "full n q' \<longleftrightarrow> length (spsc_items n q') = unat n"
    by (simp add: full_def size_of_def word_unat_eq_iff)
  ultimately show ?thesis
    using run list_run_fifo [OF run(3)] items_bounded [OF run(2)] by (simp add: capacity_def)
qed

theorem spsc_refines_list_witness:
  "\<exists>rs q'. fifo_run (push 4) (pop 4) demo_ring [Put 7, Put 8, Get, Put 9] = Some (rs, q') \<and>
    spsc_inv 4 q' \<and>
    list_run (Some (unat (4::u64))) (spsc_items 4 demo_ring) [Put 7, Put 8, Get, Put 9] = Some (rs, spsc_items 4 q') \<and>
    spsc_items 4 demo_ring @ accepted [Put 7, Put 8, Get, Put 9] rs = popped rs @ spsc_items 4 q' \<and>
    length (spsc_items 4 q') = unat (size_of q') \<and> length (spsc_items 4 q') \<le> unat (capacity 4) \<and>
    (empty q' \<longleftrightarrow> spsc_items 4 q' = []) \<and> (full 4 q' \<longleftrightarrow> length (spsc_items 4 q') = unat (4::u64))"
  by (rule spsc_refines_list [OF demo_ring_inv])

text \<open>
  the destructor runs after any use of the queue without undefined behaviour: its loop
  ends, every element still in the queue is destroyed exactly once, and every slot is raw
  memory afterwards.
\<close>

theorem spsc_dtor_destroys_all:
  assumes "spsc_inv n q" and "fifo_run (push n) (pop n) q as = Some (rs, q')"
  shows "spsc_dtor n q' = Some (replicate (unat n) None)"
proof -
  have push: "push n = emplace n" by (simp add: push_def fun_eq_iff)
  have "spsc_inv n q'"
    using spsc.run_list [OF assms(1), of as] assms(2) unfolding push by simp
  then show ?thesis unfolding spsc_dtor_def by (rule drain_inv)
qed

theorem spsc_dtor_destroys_all_witness:
  "spsc_dtor 4 \<lparr>m_head = 2, m_tail = 0, m_storage = [Some 8, Some (9::nat), None, None]\<rparr> =
     Some (replicate (unat (4::u64)) None)"
  by (rule spsc_dtor_destroys_all [OF demo_ring_inv demo_ring_run])

text \<open>The static assertion lets a capacity of 0 through: such a queue is always full and always empty.\<close>

lemma zero_capacity_accepted:
  "capacity_assert 0" "full 0 (spsc_ctor 0)" "empty (spsc_ctor 0)"
  "push 0 (spsc_ctor 0) x = Some (False, spsc_ctor 0)"
  by (simp_all add: run_simps Let_def)

end
