(* ===== verification/Machine.thy ===== *)
theory Machine
  imports Prelude
begin

text \<open>
  Programs of several threads as machines: a state to start from and a step function that says,
  for the label of a step (which thread does what, and what the rest of the world answers),
  whether the step can be taken in a state and what it makes of it. Any sequence of steps that can
  be taken is an interleaving of the threads.
\<close>

inductive reachable :: "'s \<Rightarrow> ('l \<Rightarrow> 's \<Rightarrow> 's option) \<Rightarrow> 's \<Rightarrow> bool" for s0 step where
  reach_start: "reachable s0 step s0"
| reach_step: "reachable s0 step s \<Longrightarrow> step l s = Some s' \<Longrightarrow> reachable s0 step s'"

fun run_steps :: "('l \<Rightarrow> 's \<Rightarrow> 's option) \<Rightarrow> 'l list \<Rightarrow> 's \<Rightarrow> 's option" where
  "run_steps step [] s = Some s"
| "run_steps step (l # ls) s = (case step l s of None \<Rightarrow> None | Some s' \<Rightarrow> run_steps step ls s')"

lemma run_steps_append:
  "run_steps step (ls @ ls') s = Option.bind (run_steps step ls s) (run_steps step ls')"
  by (induction ls arbitrary: s) (auto split: option.splits)

lemma run_reachable:
  "run_steps step ls s = Some s' \<Longrightarrow> reachable s0 step s \<Longrightarrow> reachable s0 step s'"
  by (induction ls arbitrary: s) (auto split: option.splits intro: reach_step)

lemma run_the: "\<not> Option.is_none (run_steps step ls s) \<Longrightarrow> run_steps step ls s = Some (the (run_steps step ls s))"
  by (simp add: Option.is_none_def)

lemma the_run_reachable:
  "\<not> Option.is_none (run_steps step ls s0) \<Longrightarrow> reachable s0 step (the (run_steps step ls s0))"
  by (rule run_reachable [OF run_the reach_start])

lemma reachable_iff_run: "reachable s0 step s \<longleftrightarrow> (\<exists>ls. run_steps step ls s0 = Some s)"
proof
  assume "reachable s0 step s"
  then show "\<exists>ls. run_steps step ls s0 = Some s"
  proof (induction rule: reachable.induct)
    case reach_start
    show ?case by (rule exI [of _ "[]"]) simp
  next
    case (reach_step s l s')
    then obtain ls where "run_steps step ls s0 = Some s" by blast
    with reach_step.hyps(2) have "run_steps step (ls @ [l]) s0 = Some s'" by (simp add: run_steps_append)
    then show ?case by blast
  qed
qed (auto intro: run_reachable reach_start)

section \<open>Invariants\<close>

locale machine =
  fixes s0 :: 's
    and step :: "'l \<Rightarrow> 's \<Rightarrow> 's option"
    and inv :: "'s \<Rightarrow> bool"
  assumes inv_start: "inv s0"
    and inv_step: "inv s \<Longrightarrow> step l s = Some s' \<Longrightarrow> inv s'"
begin

lemma reachable_inv: "reachable s0 step s \<Longrightarrow> inv s"
  by (induction rule: reachable.induct) (auto intro: inv_start inv_step)

lemma run_inv: "run_steps step ls s = Some s' \<Longrightarrow> inv s \<Longrightarrow> inv s'"
  by (induction ls arbitrary: s) (auto split: option.splits intro: inv_step)

end

section \<open>Termination\<close>

text \<open>
  Some of the steps (those of the threads of a component, left alone by their environment) use up
  work: then no run of them is longer than the work there is, and there is one after which no such
  step is possible.
\<close>

locale terminating_machine = machine +
  fixes own :: "'b \<Rightarrow> bool"
    and work :: "'a \<Rightarrow> nat"
  assumes own_step_works: "inv s \<Longrightarrow> own l \<Longrightarrow> step l s = Some s' \<Longrightarrow> work s' < work s"
begin

lemma own_run_bounded:
  "run_steps step ls s = Some s' \<Longrightarrow> inv s \<Longrightarrow> \<forall>l\<in>set ls. own l \<Longrightarrow> work s' + length ls \<le> work s"
proof (induction ls arbitrary: s)
  case (Cons l ls)
  then obtain t where t: "step l s = Some t" "run_steps step ls t = Some s'" by (auto split: option.splits)
  have "work t < work s" using own_step_works [OF Cons.prems(2) _ t(1)] Cons.prems(3) by simp
  moreover have "work s' + length ls \<le> work t" using Cons.IH [OF t(2) inv_step [OF Cons.prems(2) t(1)]] Cons.prems(3) by simp
  ultimately show ?case by simp
qed simp

lemma own_run_rests:
  "inv s \<Longrightarrow> \<exists>ls s'. run_steps step ls s = Some s' \<and> (\<forall>l\<in>set ls. own l) \<and> (\<forall>l. own l \<longrightarrow> step l s' = None)"
proof (induction "work s" arbitrary: s rule: less_induct)
  case less
  show ?case
  proof (cases "\<exists>l. own l \<and> step l s \<noteq> None")
    case True
    then obtain l t where l: "own l" "step l s = Some t" by auto
    then obtain ls s' where "run_steps step ls t = Some s'" "\<forall>l\<in>set ls. own l" "\<forall>l. own l \<longrightarrow> step l s' = None"
      using less.hyps own_step_works less.prems inv_step by metis
    with l show ?thesis by (intro exI [of _ "l # ls"] exI [of _ s']) simp
  next
    case False
    then show ?thesis by (intro exI [of _ "[]"] exI [of _ s]) auto
  qed
qed

end

section \<open>Progress\<close>

text \<open>
  Machines whose threads may spin: a step can leave the work as it was, but from every state that
  is not final some run brings the work down. Then from every state some run leads to the end.
\<close>

locale progressing_machine = machine +
  fixes final :: "'a \<Rightarrow> bool"
    and work :: "'a \<Rightarrow> nat"
  assumes progress: "inv s \<Longrightarrow> \<not> final s \<Longrightarrow> \<exists>ls s'. run_steps step ls s = Some s' \<and> work s' < work s"
begin

lemma completes: "inv s \<Longrightarrow> \<exists>ls s'. run_steps step ls s = Some s' \<and> final s'"
proof (induction "work s" arbitrary: s rule: less_induct)
  case less
  show ?case
  proof (cases "final s")
    case True
    then show ?thesis by (intro exI [of _ "[]"]) simp
  next
    case False
    then obtain ls t where t: "run_steps step ls s = Some t" "work t < work s" using progress [OF less.prems] by blast
    then obtain ls' s' where "run_steps step ls' t = Some s'" "final s'" using less.hyps run_inv [OF t(1) less.prems] by blast
    with t(1) show ?thesis by (intro exI [of _ "ls @ ls'"]) (simp add: run_steps_append)
  qed
qed

end

section \<open>Layers\<close>

text \<open>
  Programs on top of a machine: each of their steps is one of the machine below, seen through a
  function on the states, or leaves it alone. Then what holds in the reachable states below holds
  of them too.
\<close>

locale layered_machine =
  fixes s0 :: 's
    and step :: "'l \<Rightarrow> 's \<Rightarrow> 's option"
    and below :: "'s \<Rightarrow> 't"
    and t0 :: 't
    and below_step :: "'m \<Rightarrow> 't \<Rightarrow> 't option"
  assumes below_start: "below s0 = t0"
    and step_below: "step l s = Some s' \<Longrightarrow> below s' = below s \<or> (\<exists>m. below_step m (below s) = Some (below s'))"
begin

lemma reachable_below: "reachable s0 step s \<Longrightarrow> reachable t0 below_step (below s)"
proof (induction rule: reachable.induct)
  case reach_start
  then show ?case using below_start by (simp add: reachable.reach_start)
next
  case (reach_step s l s')
  then show ?case using step_below [OF reach_step.hyps(2)] by (auto intro: reachable.reach_step)
qed

end

end
