(* ===== verification/SPSCThreads.thy ===== *)
theory SPSCThreads
  imports SPSCQueue Machine
begin

text \<open>
  The ring of include/quick/structs/SPSCQueue.hh under its intended use: one producer thread in
  emplace, one consumer thread in pop, interleaved at every access to shared memory, on the
  acquire/release memory model. Each counter is the list of the values stored to it; a thread
  reads the last value of its own counter, and any value of the other's that is not older than
  the one it read before. An access to a slot is ordered after the other thread's accesses only
  through a release store that the accessing thread has acquired; the model records that and
  clears its flag ok on a race, on an access outside the storage, and on an access to a slot in
  the wrong state.
\<close>

section \<open>State\<close>

text \<open>Where a thread is inside emplace and pop, with its local variables.\<close>

datatype 'a producer =
    P_idle
  | P_loaded_head 'a u64
  | P_ready 'a u64
  | P_constructed 'a u64

datatype 'a consumer =
    C_idle
  | C_loaded_tail u64
  | C_ready u64
  | C_moved u64 'a
  | C_destroyed u64 'a

record 'a spsc_mt =
  head_order :: "u64 list"
  tail_order :: "u64 list"
  slots :: "'a slot list"
  producer :: "'a producer"
  consumer :: "'a consumer"
  p_seen :: nat
  c_seen :: nat
  p_access :: "nat \<Rightarrow> nat"
  c_access :: "nat \<Rightarrow> nat"
  pushed :: "'a list"
  popped_out :: "'a list"
  ok :: bool

definition mt_init :: "u64 \<Rightarrow> 'a spsc_mt" where
  "mt_init n = \<lparr>head_order = [0], tail_order = [0], slots = replicate (unat n) Raw,
     producer = P_idle, consumer = C_idle, p_seen = 0, c_seen = 0,
     p_access = (\<lambda>_. 0), c_access = (\<lambda>_. 0), pushed = [], popped_out = [], ok = True\<rparr>"

section \<open>Steps\<close>

text \<open>
  One label per access to shared memory. A label of a cross-thread load names the position, in
  the other counter's list of values, of the value it reads.
\<close>

datatype 'a spsc_label =
    PLoadHead 'a | PLoadTail nat | PConstruct | PPublish
  | CLoadTail | CLoadHead nat | CMove | CDestroy | CPublish

fun emplace_step :: "u64 \<Rightarrow> 'a spsc_label \<Rightarrow> 'a spsc_mt \<Rightarrow> 'a spsc_mt option" where
  "emplace_step n (PLoadHead x) s =
     (case producer s of
        P_idle \<Rightarrow> Some (s\<lparr>producer := P_loaded_head x (last (head_order s))\<rparr>)
      | _ \<Rightarrow> None)"
| "emplace_step n (PLoadTail j) s =
     (case producer s of
        P_loaded_head x head \<Rightarrow>
          if p_seen s \<le> j \<and> j < length (tail_order s) then
            let tail = tail_order s ! j
            in Some (s\<lparr>p_seen := j, producer := (if head - tail = n then P_idle else P_ready x head)\<rparr>)
          else None
      | _ \<Rightarrow> None)"
| "emplace_step n PConstruct s =
     (case producer s of
        P_ready x head \<Rightarrow>
          let i = slot_ptr n head
          in Some (s\<lparr>ok := (ok s \<and> i < length (slots s) \<and> slots s ! i = Raw \<and> c_access s i \<le> p_seen s),
               slots := (slots s)[i := Live x], p_access := (p_access s)(i := length (head_order s)),
               producer := P_constructed x head\<rparr>)
      | _ \<Rightarrow> None)"
| "emplace_step n PPublish s =
     (case producer s of
        P_constructed x head \<Rightarrow>
          Some (s\<lparr>head_order := head_order s @ [head + 1], pushed := pushed s @ [x], producer := P_idle\<rparr>)
      | _ \<Rightarrow> None)"
| "emplace_step n _ s = None"

fun pop_step :: "u64 \<Rightarrow> 'a spsc_label \<Rightarrow> 'a spsc_mt \<Rightarrow> 'a spsc_mt option" where
  "pop_step n CLoadTail s =
     (case consumer s of
        C_idle \<Rightarrow> Some (s\<lparr>consumer := C_loaded_tail (last (tail_order s))\<rparr>)
      | _ \<Rightarrow> None)"
| "pop_step n (CLoadHead j) s =
     (case consumer s of
        C_loaded_tail tail \<Rightarrow>
          if c_seen s \<le> j \<and> j < length (head_order s) then
            let head = head_order s ! j
            in Some (s\<lparr>c_seen := j, consumer := (if head = tail then C_idle else C_ready tail)\<rparr>)
          else None
      | _ \<Rightarrow> None)"
| "pop_step n CMove s =
     (case consumer s of
        C_ready tail \<Rightarrow>
          let i = slot_ptr n tail
          in (case (if i < length (slots s) then slots s ! i else Raw) of
                Live v \<Rightarrow>
                  Some (s\<lparr>ok := (ok s \<and> p_access s i \<le> c_seen s),
                    slots := (slots s)[i := MovedFrom], c_access := (c_access s)(i := length (tail_order s)),
                    consumer := C_moved tail v\<rparr>)
              | _ \<Rightarrow> Some (s\<lparr>ok := False\<rparr>))
      | _ \<Rightarrow> None)"
| "pop_step n CDestroy s =
     (case consumer s of
        C_moved tail v \<Rightarrow>
          let i = slot_ptr n tail
          in Some (s\<lparr>ok := (ok s \<and> i < length (slots s) \<and> slots s ! i = MovedFrom),
               slots := (slots s)[i := Raw], consumer := C_destroyed tail v\<rparr>)
      | _ \<Rightarrow> None)"
| "pop_step n CPublish s =
     (case consumer s of
        C_destroyed tail v \<Rightarrow>
          Some (s\<lparr>tail_order := tail_order s @ [tail + 1], popped_out := popped_out s @ [v], consumer := C_idle\<rparr>)
      | _ \<Rightarrow> None)"
| "pop_step n _ s = None"

definition mt_step :: "u64 \<Rightarrow> 'a spsc_label \<Rightarrow> 'a spsc_mt \<Rightarrow> 'a spsc_mt option" where
  "mt_step n l s = (case emplace_step n l s of Some s' \<Rightarrow> Some s' | None \<Rightarrow> pop_step n l s)"

lemma mt_step_cases: "mt_step n l s = Some s' \<Longrightarrow> emplace_step n l s = Some s' \<or> pop_step n l s = Some s'"
  by (auto simp: mt_step_def split: option.splits)

abbreviation spsc_reach :: "u64 \<Rightarrow> 'a spsc_mt \<Rightarrow> bool" where
  "spsc_reach n \<equiv> reachable (mt_init n) (mt_step n)"

abbreviation mt_exec :: "u64 \<Rightarrow> 'a spsc_label list \<Rightarrow> 'a spsc_mt \<Rightarrow> 'a spsc_mt option" where
  "mt_exec n \<equiv> run_steps (mt_step n)"

section \<open>The invariant\<close>

abbreviation pushes :: "'a spsc_mt \<Rightarrow> nat" where
  "pushes s \<equiv> length (pushed s)"

abbreviation pops :: "'a spsc_mt \<Rightarrow> nat" where
  "pops s \<equiv> length (popped_out s)"

text \<open>What the slot of position k has to hold, for a position from the pops on.\<close>

definition expected :: "'a spsc_mt \<Rightarrow> nat \<Rightarrow> 'a slot" where
  "expected s k =
     (if k = pops s \<and> (\<exists>t v. consumer s = C_moved t v) then MovedFrom
      else if k = pops s \<and> (\<exists>t v. consumer s = C_destroyed t v) then Raw
      else if k < pushes s then Live (pushed s ! k)
      else (case producer s of P_constructed x head \<Rightarrow> if k = pushes s then Live x else Raw | _ \<Rightarrow> Raw))"

definition counters_inv :: "u64 \<Rightarrow> 'a spsc_mt \<Rightarrow> bool" where
  "counters_inv n s \<longleftrightarrow> capacity_assert n \<and>
     head_order s = map of_nat [0..<Suc (pushes s)] \<and> tail_order s = map of_nat [0..<Suc (pops s)] \<and>
     p_seen s \<le> pops s \<and> c_seen s \<le> pushes s \<and>
     pushes s \<le> p_seen s + unat n \<and> pops s \<le> c_seen s \<and>
     popped_out s = take (pops s) (pushed s)"

definition producer_inv :: "u64 \<Rightarrow> 'a spsc_mt \<Rightarrow> bool" where
  "producer_inv n s \<longleftrightarrow>
     (case producer s of
        P_idle \<Rightarrow> True
      | P_loaded_head x head \<Rightarrow> head = of_nat (pushes s)
      | P_ready x head \<Rightarrow> head = of_nat (pushes s) \<and> pushes s < p_seen s + unat n
      | P_constructed x head \<Rightarrow> head = of_nat (pushes s) \<and> pushes s < p_seen s + unat n)"

definition consumer_inv :: "'a spsc_mt \<Rightarrow> bool" where
  "consumer_inv s \<longleftrightarrow>
     (case consumer s of
        C_idle \<Rightarrow> True
      | C_loaded_tail tail \<Rightarrow> tail = of_nat (pops s)
      | C_ready tail \<Rightarrow> tail = of_nat (pops s) \<and> pops s < c_seen s
      | C_moved tail v \<Rightarrow> tail = of_nat (pops s) \<and> pops s < c_seen s \<and> v = pushed s ! pops s
      | C_destroyed tail v \<Rightarrow> tail = of_nat (pops s) \<and> pops s < c_seen s \<and> v = pushed s ! pops s)"

definition busy :: "'a spsc_mt \<Rightarrow> bool" where
  "busy s \<longleftrightarrow> (case consumer s of C_moved t v \<Rightarrow> True | C_destroyed t v \<Rightarrow> True | _ \<Rightarrow> False)"

text \<open>Contents and access history of the slots of the positions in the window.\<close>

definition slots_inv :: "u64 \<Rightarrow> 'a spsc_mt \<Rightarrow> bool" where
  "slots_inv n s \<longleftrightarrow> length (slots s) = unat n \<and>
     (\<forall>k. pops s \<le> k \<and> k < pops s + unat n \<longrightarrow>
        slots s ! (k mod unat n) = expected s k \<and>
        p_access s (k mod unat n) \<le> Suc k \<and>
        c_access s (k mod unat n) \<le> (if k = pops s \<and> busy s then Suc k else Suc k - unat n))"

definition mt_inv :: "u64 \<Rightarrow> 'a spsc_mt \<Rightarrow> bool" where
  "mt_inv n s \<longleftrightarrow> counters_inv n s \<and> producer_inv n s \<and> consumer_inv s \<and> slots_inv n s \<and> ok s"

section \<open>Preservation\<close>

lemmas mt_inv_defs = mt_inv_def counters_inv_def producer_inv_def consumer_inv_def

lemma slot_of_nat:
  assumes "capacity_assert n" and "0 < unat n"
  shows "slot_ptr n (of_nat k) = k mod unat n"
proof -
  obtain e where "e < 64" "unat n = 2 ^ e" by (rule capacity_pow2 [OF assms])
  then show ?thesis by (simp only: slot_ptr_def unat_and_pred mod_pow2_of_nat)
qed

lemma window_inj:
  fixes p m k k' :: nat
  assumes "p \<le> k" "k < p + m" "p \<le> k'" "k' < p + m"
  shows "k mod m = k' mod m \<longleftrightarrow> k = k'"
  using assms mod_add_inj [of "k - p" m "k' - p" p] by auto

lemma counter_nth: "j < Suc m \<Longrightarrow> map (of_nat :: nat \<Rightarrow> u64) [0..<Suc m] ! j = of_nat j"
  by (simp del: upt_Suc)

lemma counter_last: "last (map (of_nat :: nat \<Rightarrow> u64) [0..<Suc m]) = of_nat m"
  by simp

text \<open>The comparisons of the code on the wrapped counters are comparisons of the positions.\<close>

lemma full_iff:
  assumes "j \<le> h" and "h \<le> j + unat n"
  shows "(of_nat h - of_nat j :: u64) = n \<longleftrightarrow> h = j + unat n"
proof -
  have "unat (of_nat h - of_nat j :: u64) = h - j"
    using assms unat_lt64 [of n] by (intro unat_of_nat_diff) auto
  then show ?thesis using assms by (simp add: word_unat_eq_iff) linarith
qed

lemma empty_iff:
  assumes "t \<le> j" and "j \<le> t + unat (n :: u64)"
  shows "(of_nat j :: u64) = of_nat t \<longleftrightarrow> j = t"
proof -
  have "unat (of_nat j - of_nat t :: u64) = j - t"
    using assms unat_lt64 [of n] by (intro unat_of_nat_diff) auto
  then show ?thesis using assms by (metis diff_is_0_eq eq_iff_diff_eq_0 le_antisym unat_eq_0)
qed

lemma mt_init_inv: "capacity_assert n \<Longrightarrow> mt_inv n (mt_init n)"
  by (auto simp: mt_inv_defs slots_inv_def mt_init_def expected_def busy_def)

lemma window_unchanged:
  assumes "slots_inv n s" and "slots s' = slots s" and "popped_out s' = popped_out s"
    and "p_access s' = p_access s" and "c_access s' = c_access s" and "busy s' = busy s"
    and "\<And>k. expected s' k = expected s k"
  shows "slots_inv n s'"
  using assms by (simp add: slots_inv_def)

lemma consumer_frame:
  "consumer s' = consumer s \<Longrightarrow> popped_out s' = popped_out s \<Longrightarrow> pushed s' = pushed s \<Longrightarrow>
   c_seen s' = c_seen s \<Longrightarrow> consumer_inv s' = consumer_inv s"
  by (simp add: consumer_inv_def split: consumer.splits)

lemma producer_frame:
  "producer s' = producer s \<Longrightarrow> pushed s' = pushed s \<Longrightarrow> p_seen s' = p_seen s \<Longrightarrow>
   producer_inv n s' = producer_inv n s"
  by (simp add: producer_inv_def split: producer.splits)

lemma counters_frame:
  "head_order s' = head_order s \<Longrightarrow> tail_order s' = tail_order s \<Longrightarrow> pushed s' = pushed s \<Longrightarrow>
   popped_out s' = popped_out s \<Longrightarrow> p_seen s' = p_seen s \<Longrightarrow> c_seen s' = c_seen s \<Longrightarrow>
   counters_inv n s' = counters_inv n s"
  by (simp add: counters_inv_def)

lemma busy_frame: "consumer s' = consumer s \<Longrightarrow> busy s' = busy s"
  by (simp add: busy_def)

lemma PLoadHead_inv:
  assumes "mt_inv n s" and "emplace_step n (PLoadHead x) s = Some s'"
  shows "mt_inv n s'"
proof -
  have pc: "producer s = P_idle"
    and s': "s' = s\<lparr>producer := P_loaded_head x (last (head_order s))\<rparr>"
    using assms(2) by (auto split: producer.splits)
  have "last (head_order s) = of_nat (pushes s)"
    using assms(1) by (simp add: mt_inv_def counters_inv_def)
  moreover have "slots_inv n s'"
    by (rule window_unchanged [of n s])
      (use assms(1) pc in \<open>simp_all add: s' mt_inv_def busy_def expected_def\<close>)
  ultimately show ?thesis
    using assms(1) consumer_frame [of s' s] counters_frame [of s' s]
    by (simp add: mt_inv_def s' producer_inv_def)
qed

lemma PLoadTail_inv:
  assumes "mt_inv n s" and "emplace_step n (PLoadTail j) s = Some s'"
  shows "mt_inv n s'"
proof -
  have inv: "counters_inv n s" "producer_inv n s" "consumer_inv s" "slots_inv n s" "ok s"
    using assms(1) by (auto simp: mt_inv_def)
  obtain x head where pc: "producer s = P_loaded_head x head"
    and j: "p_seen s \<le> j" "j < length (tail_order s)"
    and s': "s' = s\<lparr>p_seen := j, producer := (if head - tail_order s ! j = n then P_idle else P_ready x head)\<rparr>"
    using assms(2) by (auto simp: Let_def split: producer.splits if_splits)
  have head: "head = of_nat (pushes s)" using inv(2) pc by (simp add: producer_inv_def)
  have j': "j \<le> pops s" "tail_order s ! j = of_nat j"
    using inv(1) j counter_nth by (auto simp: counters_inv_def simp del: upt_Suc)
  have full: "head - tail_order s ! j = n \<longleftrightarrow> pushes s = j + unat n"
    unfolding head j'(2) using inv(1) j j' by (intro full_iff) (auto simp: counters_inv_def)
  have "slots_inv n s'"
    by (rule window_unchanged [of n s])
      (use inv(4) pc in \<open>simp_all add: s' busy_def expected_def\<close>)
  moreover have "counters_inv n s'" "producer_inv n s'"
    using inv(1) j j' full head by (auto simp: s' counters_inv_def producer_inv_def)
  ultimately show ?thesis
    using inv consumer_frame [of s' s] by (simp add: mt_inv_def s')
qed

lemma PConstruct_inv:
  assumes "mt_inv n s" and "emplace_step n PConstruct s = Some s'"
  shows "mt_inv n s'"
proof -
  let ?h = "pushes s" and ?n = "unat n"
  have inv: "counters_inv n s" "producer_inv n s" "consumer_inv s" "slots_inv n s" "ok s"
    using assms(1) by (auto simp: mt_inv_def)
  obtain x where pc: "producer s = P_ready x (of_nat ?h)" and h: "?h < p_seen s + ?n"
    and s': "s' = s\<lparr>ok := (ok s \<and> slot_ptr n (of_nat ?h) < length (slots s) \<and>
          slots s ! slot_ptr n (of_nat ?h) = Raw \<and> c_access s (slot_ptr n (of_nat ?h)) \<le> p_seen s),
        slots := (slots s)[slot_ptr n (of_nat ?h) := Live x],
        p_access := (p_access s)(slot_ptr n (of_nat ?h) := length (head_order s)),
        producer := P_constructed x (of_nat ?h)\<rparr>"
    using assms(2) inv(2) by (auto simp: producer_inv_def Let_def split: producer.splits)
  have bounds: "pops s \<le> ?h" "?h < pops s + ?n" "0 < ?n" "length (head_order s) = Suc ?h"
    using inv(1) h by (auto simp: counters_inv_def)
  have slot: "slot_ptr n (of_nat ?h) = ?h mod ?n"
    using inv(1) bounds by (intro slot_of_nat) (auto simp: counters_inv_def)
  have free: "?h = pops s \<Longrightarrow> \<not> busy s"
    using inv(1,3) by (auto simp: counters_inv_def consumer_inv_def busy_def split: consumer.splits)
  have "expected s ?h = Raw"
    using free pc by (auto simp: expected_def busy_def)
  then have at: "slots s ! (?h mod ?n) = Raw" "c_access s (?h mod ?n) \<le> Suc ?h - ?n"
    using inv(4) bounds free by (auto simp: slots_inv_def split: if_splits)
  have len: "length (slots s) = ?n" using inv(4) by (simp add: slots_inv_def)
  have exp: "expected s' k = (if k = ?h then Live x else expected s k)" for k
    using free pc by (auto simp: s' expected_def busy_def)
  have other: "slots s' ! (k mod ?n) = (if k = ?h then Live x else slots s ! (k mod ?n))"
    "p_access s' (k mod ?n) = (if k = ?h then Suc ?h else p_access s (k mod ?n))"
    if "pops s \<le> k" "k < pops s + ?n" for k
    using window_inj [OF that bounds(1,2)] len bounds by (auto simp: s' slot)
  have "slots_inv n s'"
    using inv(4) other exp unfolding slots_inv_def by (simp add: s' busy_def)
  moreover have "ok s'" using inv(5) at len bounds(3) h by (simp add: s' slot)
  ultimately show ?thesis
    using inv counters_frame [of s' s] consumer_frame [of s' s] h
    by (simp add: mt_inv_def s' producer_inv_def)
qed

lemma PPublish_inv:
  assumes "mt_inv n s" and "emplace_step n PPublish s = Some s'"
  shows "mt_inv n s'"
proof -
  let ?h = "pushes s" and ?n = "unat n"
  have inv: "counters_inv n s" "producer_inv n s" "consumer_inv s" "slots_inv n s" "ok s"
    using assms(1) by (auto simp: mt_inv_def)
  obtain x where pc: "producer s = P_constructed x (of_nat ?h)" and h: "?h < p_seen s + ?n"
    and s': "s' = s\<lparr>head_order := head_order s @ [of_nat ?h + 1], pushed := pushed s @ [x], producer := P_idle\<rparr>"
    using assms(2) inv(2) by (auto simp: producer_inv_def split: producer.splits)
  have "head_order s' = map of_nat [0..<Suc (pushes s')]"
    using inv(1) by (simp add: s' counters_inv_def add.commute)
  then have "counters_inv n s'"
    using inv(1) h by (auto simp: counters_inv_def s')
  moreover have "expected s' k = expected s k" for k
    using pc by (auto simp: expected_def s' nth_append)
  then have "slots_inv n s'"
    using inv(4) by (intro window_unchanged [of n s s']) (simp_all add: s' busy_def)
  moreover have "consumer_inv s'"
    using inv(1,3) by (auto simp: s' consumer_inv_def counters_inv_def nth_append split: consumer.splits)
  ultimately show ?thesis using inv(5) by (simp add: mt_inv_def s' producer_inv_def)
qed

lemma CLoadTail_inv:
  assumes "mt_inv n s" and "pop_step n CLoadTail s = Some s'"
  shows "mt_inv n s'"
proof -
  have pc: "consumer s = C_idle"
    and s': "s' = s\<lparr>consumer := C_loaded_tail (last (tail_order s))\<rparr>"
    using assms(2) by (auto split: consumer.splits)
  have "last (tail_order s) = of_nat (pops s)"
    using assms(1) by (simp add: mt_inv_def counters_inv_def)
  moreover have "slots_inv n s'"
    by (rule window_unchanged [of n s])
      (use assms(1) pc in \<open>auto simp: s' mt_inv_def busy_def expected_def split: producer.splits\<close>)
  ultimately show ?thesis
    using assms(1) producer_frame [of s' s] counters_frame [of s' s]
    by (simp add: mt_inv_def s' consumer_inv_def)
qed

lemma CLoadHead_inv:
  assumes "mt_inv n s" and "pop_step n (CLoadHead j) s = Some s'"
  shows "mt_inv n s'"
proof -
  have inv: "counters_inv n s" "producer_inv n s" "consumer_inv s" "slots_inv n s" "ok s"
    using assms(1) by (auto simp: mt_inv_def)
  obtain tail where pc: "consumer s = C_loaded_tail tail"
    and j: "c_seen s \<le> j" "j < length (head_order s)"
    and s': "s' = s\<lparr>c_seen := j, consumer := (if head_order s ! j = tail then C_idle else C_ready tail)\<rparr>"
    using assms(2) by (auto simp: Let_def split: consumer.splits if_splits)
  have tail: "tail = of_nat (pops s)" using inv(3) pc by (simp add: consumer_inv_def)
  have j': "j \<le> pushes s" "head_order s ! j = of_nat j"
    using inv(1) j counter_nth by (auto simp: counters_inv_def simp del: upt_Suc)
  have empty: "head_order s ! j = tail \<longleftrightarrow> j = pops s"
    unfolding tail j'(2) using inv(1) j j' by (intro empty_iff [where n = n]) (auto simp: counters_inv_def)
  have "slots_inv n s'"
    by (rule window_unchanged [of n s])
      (use inv(4) pc in \<open>auto simp: s' busy_def expected_def split: producer.splits\<close>)
  moreover have "counters_inv n s'" "consumer_inv s'"
    using inv(1) j j' empty tail by (auto simp: s' counters_inv_def consumer_inv_def)
  ultimately show ?thesis
    using inv producer_frame [of s' s] by (simp add: mt_inv_def s')
qed

lemma CMove_inv:
  assumes "mt_inv n s" and "pop_step n CMove s = Some s'"
  shows "mt_inv n s'"
proof -
  let ?t = "pops s" and ?n = "unat n"
  have inv: "counters_inv n s" "producer_inv n s" "consumer_inv s" "slots_inv n s" "ok s"
    using assms(1) by (auto simp: mt_inv_def)
  have pc: "consumer s = C_ready (of_nat ?t)" and t: "?t < c_seen s"
    using assms(2) inv(3) by (auto simp: consumer_inv_def split: consumer.splits)
  have bounds: "?t < pushes s" "0 < ?n" "length (tail_order s) = Suc ?t"
    using inv(1) t by (auto simp: counters_inv_def)
  have slot: "slot_ptr n (of_nat ?t) = ?t mod ?n"
    using inv(1) bounds by (intro slot_of_nat) (auto simp: counters_inv_def)
  have len: "length (slots s) = ?n" using inv(4) by (simp add: slots_inv_def)
  have "expected s ?t = Live (pushed s ! ?t)" using pc bounds by (simp add: expected_def)
  then have at: "slots s ! (?t mod ?n) = Live (pushed s ! ?t)" "p_access s (?t mod ?n) \<le> Suc ?t"
    using inv(4) bounds by (auto simp: slots_inv_def)
  have s': "s' = s\<lparr>ok := (ok s \<and> p_access s (?t mod ?n) \<le> c_seen s),
        slots := (slots s)[?t mod ?n := MovedFrom], c_access := (c_access s)(?t mod ?n := Suc ?t),
        consumer := C_moved (of_nat ?t) (pushed s ! ?t)\<rparr>"
    using assms(2) pc at len bounds by (simp add: slot Let_def)
  have exp: "expected s' k = (if k = ?t then MovedFrom else expected s k)" for k
    using pc by (simp add: s' expected_def split: producer.splits)
  have other: "slots s' ! (k mod ?n) = (if k = ?t then MovedFrom else slots s ! (k mod ?n))"
    "c_access s' (k mod ?n) = (if k = ?t then Suc ?t else c_access s (k mod ?n))"
    if "?t \<le> k" "k < ?t + ?n" for k
    using window_inj [OF that, of ?t] len bounds by (auto simp: s')
  have "slots_inv n s'"
    using inv(4) other exp pc unfolding slots_inv_def by (auto simp: s' busy_def)
  moreover have "ok s'" using inv(5) at t by (simp add: s')
  ultimately show ?thesis
    using inv counters_frame [of s' s] producer_frame [of s' s] t
    by (simp add: mt_inv_def s' consumer_inv_def)
qed

lemma CDestroy_inv:
  assumes "mt_inv n s" and "pop_step n CDestroy s = Some s'"
  shows "mt_inv n s'"
proof -
  let ?t = "pops s" and ?n = "unat n"
  have inv: "counters_inv n s" "producer_inv n s" "consumer_inv s" "slots_inv n s" "ok s"
    using assms(1) by (auto simp: mt_inv_def)
  obtain v where pc: "consumer s = C_moved (of_nat ?t) v" and t: "?t < c_seen s" and v: "v = pushed s ! ?t"
    and s'': "s' = s\<lparr>ok := (ok s \<and> slot_ptr n (of_nat ?t) < length (slots s) \<and> slots s ! slot_ptr n (of_nat ?t) = MovedFrom),
        slots := (slots s)[slot_ptr n (of_nat ?t) := Raw], consumer := C_destroyed (of_nat ?t) v\<rparr>"
    using assms(2) inv(3) by (auto simp: consumer_inv_def Let_def split: consumer.splits)
  have bounds: "?t < pushes s" "0 < ?n"
    using inv(1) t by (auto simp: counters_inv_def)
  have slot: "slot_ptr n (of_nat ?t) = ?t mod ?n"
    using inv(1) bounds by (intro slot_of_nat) (auto simp: counters_inv_def)
  note s' = s'' [unfolded slot]
  have len: "length (slots s) = ?n" using inv(4) by (simp add: slots_inv_def)
  have "expected s ?t = MovedFrom" using pc by (simp add: expected_def)
  then have at: "slots s ! (?t mod ?n) = MovedFrom"
    using inv(4) bounds by (auto simp: slots_inv_def)
  have exp: "expected s' k = (if k = ?t then Raw else expected s k)" for k
    using pc by (simp add: s' expected_def split: producer.splits)
  have other: "slots s' ! (k mod ?n) = (if k = ?t then Raw else slots s ! (k mod ?n))"
    if "?t \<le> k" "k < ?t + ?n" for k
    using window_inj [OF that, of ?t] len bounds by (auto simp: s')
  have "slots_inv n s'"
    using inv(4) other exp pc unfolding slots_inv_def by (auto simp: s' busy_def)
  moreover have "ok s'" using inv(5) at len bounds by (simp add: s')
  ultimately show ?thesis
    using inv counters_frame [of s' s] producer_frame [of s' s] t v
    by (simp add: mt_inv_def s' consumer_inv_def)
qed

lemma CPublish_inv:
  assumes "mt_inv n s" and "pop_step n CPublish s = Some s'"
  shows "mt_inv n s'"
proof -
  let ?t = "pops s" and ?n = "unat n"
  have inv: "counters_inv n s" "producer_inv n s" "consumer_inv s" "slots_inv n s" "ok s"
    using assms(1) by (auto simp: mt_inv_def)
  obtain v where pc: "consumer s = C_destroyed (of_nat ?t) v" and t: "?t < c_seen s" and v: "v = pushed s ! ?t"
    and s': "s' = s\<lparr>tail_order := tail_order s @ [of_nat ?t + 1], popped_out := popped_out s @ [v], consumer := C_idle\<rparr>"
    using assms(2) inv(3) by (auto simp: consumer_inv_def split: consumer.splits)
  have bounds: "?t < pushes s" "pushes s \<le> ?t + ?n" "0 < ?n" "c_seen s \<le> pushes s"
    using inv(1) t by (auto simp: counters_inv_def)
  have "tail_order s' = map of_nat [0..<Suc (pops s')]"
    using inv(1) by (simp add: s' counters_inv_def add.commute)
  moreover have "popped_out s' = take (pops s') (pushed s')"
    using inv(1) bounds v by (simp add: s' counters_inv_def take_Suc_conv_app_nth)
  ultimately have "counters_inv n s'"
    using inv(1) t by (auto simp: counters_inv_def s')
  moreover have "slots_inv n s'"
    unfolding slots_inv_def
  proof (intro conjI allI impI)
    show "length (slots s') = ?n" using inv(4) by (simp add: slots_inv_def s')
    fix k assume k: "pops s' \<le> k \<and> k < pops s' + ?n"
    then have k': "Suc ?t \<le> k" "k < Suc ?t + ?n" by (auto simp: s')
    have old: "slots s ! (k mod ?n) = expected s' k \<and> p_access s (k mod ?n) \<le> Suc k \<and>
        c_access s (k mod ?n) \<le> Suc k - ?n"
    proof (cases "k = ?t + ?n")
      case True
      have "expected s' k = Raw"
        using True bounds inv(1,2) by (auto simp: s' expected_def producer_inv_def counters_inv_def split: producer.splits)
      moreover have "slots s ! (?t mod ?n) = Raw" "p_access s (?t mod ?n) \<le> Suc ?t" "c_access s (?t mod ?n) \<le> Suc ?t"
        using inv(4) bounds pc by (auto simp: slots_inv_def expected_def busy_def split: if_splits)
      ultimately show ?thesis using True by simp
    next
      case False
      moreover have "expected s' k = expected s k" using k' pc by (simp add: s' expected_def split: producer.splits)
      moreover have "c_access s (k mod ?n) \<le> (if k = ?t \<and> busy s then Suc k else Suc k - ?n)"
      proof -
        have "?t \<le> k \<and> k < ?t + ?n" using False k' by linarith
        then show ?thesis using inv(4) unfolding slots_inv_def by blast
      qed
      moreover have "k \<noteq> ?t" using k' by simp
      ultimately show ?thesis using inv(4) k' by (auto simp: slots_inv_def)
    qed
    show "slots s' ! (k mod ?n) = expected s' k" "p_access s' (k mod ?n) \<le> Suc k"
      "c_access s' (k mod ?n) \<le> (if k = pops s' \<and> busy s' then Suc k else Suc k - ?n)"
      using old by (auto simp: s' busy_def)
  qed
  ultimately show ?thesis
    using inv producer_frame [of s' s] by (simp add: mt_inv_def s' consumer_inv_def)
qed

lemma emplace_step_inv: "mt_inv n s \<Longrightarrow> emplace_step n l s = Some s' \<Longrightarrow> mt_inv n s'"
  by (cases l) (auto simp del: emplace_step.simps(1-4) intro: PLoadHead_inv PLoadTail_inv PConstruct_inv PPublish_inv)

lemma pop_step_inv: "mt_inv n s \<Longrightarrow> pop_step n l s = Some s' \<Longrightarrow> mt_inv n s'"
  by (cases l) (auto simp del: pop_step.simps(1-5) intro: CLoadTail_inv CLoadHead_inv CMove_inv CDestroy_inv CPublish_inv)

interpretation spsc_threads: machine "mt_init n" "mt_step n" "\<lambda>s. capacity_assert n \<longrightarrow> mt_inv n s" for n
proof
  show "capacity_assert n \<longrightarrow> mt_inv n s'" if "capacity_assert n \<longrightarrow> mt_inv n s" "mt_step n l s = Some s'" for l s s'
    using mt_step_cases [OF that(2)] that(1) emplace_step_inv pop_step_inv by blast
qed (simp add: mt_init_inv)

lemma spsc_reach_inv: "capacity_assert n \<Longrightarrow> spsc_reach n s \<Longrightarrow> mt_inv n s"
  using spsc_threads.reachable_inv by blast

section \<open>An execution\<close>

text \<open>
  Two elements through a ring of two slots, a third push refused on a stale view of the tail
  and accepted when tried again.
\<close>

definition demo_labels :: "nat spsc_label list" where
  "demo_labels =
     [PLoadHead 7, PLoadTail 0, CLoadTail, PConstruct, PPublish, CLoadHead 1, PLoadHead 8, CMove,
      PLoadTail 0, CDestroy, PConstruct, CPublish, PPublish, PLoadHead 9, PLoadTail 0,
      PLoadHead 9, PLoadTail 1, PConstruct, PPublish, CLoadTail, CLoadHead 2]"

definition demo_state :: "nat spsc_mt" where
  "demo_state = the (mt_exec 2 demo_labels (mt_init 2))"

lemma demo_values:
  "map_option (\<lambda>s. (pushed s, popped_out s, producer s, consumer s)) (mt_exec 2 demo_labels (mt_init 2)) =
     Some ([7, 8, 9], [7], P_idle, C_ready 1)"
  by code_simp

lemma demo_reach: "spsc_reach 2 demo_state"
proof -
  have "mt_exec 2 demo_labels (mt_init 2) = Some demo_state"
    using demo_values by (auto simp: demo_state_def)
  then show ?thesis using reach_start by (rule run_reachable)
qed

section \<open>Properties\<close>

definition emplace_left :: "'a producer \<Rightarrow> nat" where
  "emplace_left p = (case p of P_idle \<Rightarrow> 0 | P_loaded_head x h \<Rightarrow> 3 | P_ready x h \<Rightarrow> 2 | P_constructed x h \<Rightarrow> 1)"

definition pop_left :: "'a consumer \<Rightarrow> nat" where
  "pop_left c = (case c of C_idle \<Rightarrow> 0 | C_loaded_tail t \<Rightarrow> 4 | C_ready t \<Rightarrow> 3 | C_moved t v \<Rightarrow> 2 | C_destroyed t v \<Rightarrow> 1)"

lemma emplace_step_left:
  "emplace_step n l s = Some s' \<Longrightarrow> producer s \<noteq> P_idle \<Longrightarrow> emplace_left (producer s') < emplace_left (producer s)"
  by (cases l) (auto simp: emplace_left_def Let_def split: producer.splits if_splits)

lemma pop_step_left:
  "pop_step n l s = Some s' \<Longrightarrow> ok s' \<Longrightarrow> consumer s \<noteq> C_idle \<Longrightarrow> pop_left (consumer s') < pop_left (consumer s)"
  by (cases l) (auto simp: pop_left_def Let_def split: consumer.splits slot.splits if_splits)

lemma steps_disjoint:
  "emplace_step n l s = Some s' \<Longrightarrow> consumer s' = consumer s"
  "pop_step n l s = Some s' \<Longrightarrow> producer s' = producer s"
  by (cases l; auto simp: Let_def split: producer.splits consumer.splits slot.splits if_splits)+

lemma emplace_enabled:
  assumes "mt_inv n s" and "producer s \<noteq> P_idle"
  shows "\<exists>l s'. emplace_step n l s = Some s'"
proof (cases "producer s")
  case (P_loaded_head x head)
  have "p_seen s < length (tail_order s)"
    using assms(1) by (auto simp: mt_inv_def counters_inv_def)
  with P_loaded_head have "emplace_step n (PLoadTail (p_seen s)) s \<noteq> None" by (simp add: Let_def)
  then show ?thesis by blast
next
  case (P_ready x head)
  then have "emplace_step n PConstruct s \<noteq> None" by (simp add: Let_def)
  then show ?thesis by blast
next
  case (P_constructed x head)
  then have "emplace_step n PPublish s \<noteq> None" by simp
  then show ?thesis by blast
qed (use assms(2) in simp)

lemma pop_enabled:
  assumes "mt_inv n s" and "consumer s \<noteq> C_idle"
  shows "\<exists>l s'. pop_step n l s = Some s'"
proof (cases "consumer s")
  case (C_loaded_tail tail)
  have "c_seen s < length (head_order s)"
    using assms(1) by (auto simp: mt_inv_def counters_inv_def)
  with C_loaded_tail have "pop_step n (CLoadHead (c_seen s)) s \<noteq> None" by (simp add: Let_def)
  then show ?thesis by blast
next
  case (C_ready tail)
  then have "pop_step n CMove s \<noteq> None" by (simp add: Let_def split: slot.splits)
  then show ?thesis by blast
next
  case (C_moved tail v)
  then have "pop_step n CDestroy s \<noteq> None" by (simp add: Let_def)
  then show ?thesis by blast
next
  case (C_destroyed tail v)
  then have "pop_step n CPublish s \<noteq> None" by simp
  then show ?thesis by blast
qed (use assms(2) in simp)

text \<open>
  C8: with one producer and one consumer thread, under any interleaving and any stale view the
  acquire/release model allows, no access to a slot races with the other thread's, leaves the
  storage or meets a slot in the wrong state; the values popped are those pushed, in order and
  without loss or repetition, and never more than the capacity are under way.
\<close>

theorem spsc_threads_safe:
  assumes "capacity_assert n" and "spsc_reach n s"
  shows "ok s \<and> (\<exists>inside. pushed s = popped_out s @ inside \<and> length inside \<le> unat n)"
proof -
  have inv: "mt_inv n s" using assms by (rule spsc_reach_inv)
  then have "pushed s = popped_out s @ drop (pops s) (pushed s)"
    by (metis append_take_drop_id counters_inv_def mt_inv_def)
  moreover have "length (drop (pops s) (pushed s)) \<le> unat n" "ok s"
    using inv by (auto simp: mt_inv_def counters_inv_def)
  ultimately show ?thesis by blast
qed

theorem spsc_threads_safe_witness:
  "ok demo_state \<and> (\<exists>inside. pushed demo_state = popped_out demo_state @ inside \<and> length inside \<le> unat (2::u64))"
  by (rule spsc_threads_safe [OF _ demo_reach]) (simp add: capacity_assert_def)

text \<open>
  C9: both operations are wait-free. A thread inside emplace or pop always has a next step, its
  every step brings it closer to the end of the operation (which takes four or five), and no
  step of the other thread moves it back.
\<close>

theorem spsc_wait_free:
  assumes "capacity_assert n" and "spsc_reach n s"
  shows "(producer s = P_idle \<or> (\<exists>l s'. emplace_step n l s = Some s')) \<and>
    (consumer s = C_idle \<or> (\<exists>l s'. pop_step n l s = Some s')) \<and>
    (\<forall>l s'. emplace_step n l s = Some s' \<longrightarrow> consumer s' = consumer s \<and>
       (producer s = P_idle \<or> emplace_left (producer s') < emplace_left (producer s))) \<and>
    (\<forall>l s'. pop_step n l s = Some s' \<longrightarrow> producer s' = producer s \<and>
       (consumer s = C_idle \<or> pop_left (consumer s') < pop_left (consumer s)))"
proof -
  have inv: "mt_inv n s" using assms by (rule spsc_reach_inv)
  have "ok s'" if "pop_step n l s = Some s'" for l s'
    using pop_step_inv [OF inv that] by (simp add: mt_inv_def)
  then show ?thesis
    using emplace_enabled [OF inv] pop_enabled [OF inv] emplace_step_left pop_step_left steps_disjoint
    by meson
qed

theorem spsc_wait_free_witness:
  "\<exists>l s'. pop_step 2 l demo_state = Some s'"
proof -
  have "consumer demo_state = C_ready 1"
    using demo_values by (auto simp: demo_state_def)
  then show ?thesis
    using spsc_wait_free [OF _ demo_reach] by (simp add: capacity_assert_def)
qed

end
