(* ===== verification/SPSCExample.thy ===== *)
theory SPSCExample
  imports SPSCThreads Decimal
begin

text \<open>
  The program of examples/spsc_queue_example.cc: a producer thread that emplaces the numbers below
  100000, each again until the ring has taken it, and a consumer thread that pops until it has had
  as many and prints how many it got. The threads are those of SPSCThreads, with the loops around
  emplace and pop; main joins both.
\<close>

section \<open>State and steps\<close>

text \<open>sizeof(double) is 8.\<close>

definition example_N :: u64 where
  "example_N = push_bit 10 1 div 8"

definition example_items :: nat where
  "example_items = 100000"

record 'a example =
  ring :: "'a spsc_mt"
  loop_i :: nat
  cnt :: u64
  printed :: "string option"

definition example_init :: "'a example" where
  "example_init = \<lparr>ring = mt_init example_N, loop_i = 0, cnt = 0, printed = None\<rparr>"

datatype 'a example_label = Queue "'a spsc_label" | Print

definition got_line :: "u64 \<Rightarrow> string" where
  "got_line n = ''Got: '' @ decimal (uint n) @ '' items'' @ [CHR 0x0a]"

text \<open>
  A step of emplace or pop where the loops call them: the loop variable of the producer moves on
  when emplace has published and returns true, the count of the consumer when pop does. cast is
  the conversion of an int to the type of the elements.
\<close>

fun example_step :: "(int \<Rightarrow> 'a) \<Rightarrow> 'a example_label \<Rightarrow> 'a example \<Rightarrow> 'a example option" where
  "example_step cast (Queue l) s =
     (case mt_step example_N l (ring s) of
        None \<Rightarrow> None
      | Some r \<Rightarrow>
          (case l of
             PLoadHead x \<Rightarrow> if loop_i s < example_items \<and> x = cast (int (loop_i s)) then Some (s\<lparr>ring := r\<rparr>) else None
           | PPublish \<Rightarrow> Some (s\<lparr>ring := r, loop_i := loop_i s + 1\<rparr>)
           | CLoadTail \<Rightarrow> if cnt s < of_nat example_items then Some (s\<lparr>ring := r\<rparr>) else None
           | CPublish \<Rightarrow> Some (s\<lparr>ring := r, cnt := cnt s + 1\<rparr>)
           | _ \<Rightarrow> Some (s\<lparr>ring := r\<rparr>)))"
| "example_step cast Print s =
     (if consumer (ring s) = C_idle \<and> \<not> cnt s < of_nat example_items \<and> printed s = None
      then Some (s\<lparr>printed := Some (got_line (cnt s))\<rparr>) else None)"

text \<open>Both threads have returned, so that main returns from the joins.\<close>

definition example_done :: "'a example \<Rightarrow> bool" where
  "example_done s \<longleftrightarrow> producer (ring s) = P_idle \<and> \<not> loop_i s < example_items \<and> printed s \<noteq> None"

section \<open>The invariant\<close>

text \<open>What a thread inside emplace is putting into the ring.\<close>

fun in_hand :: "'a producer \<Rightarrow> 'a option" where
  "in_hand P_idle = None"
| "in_hand (P_loaded_head x h) = Some x"
| "in_hand (P_ready x h) = Some x"
| "in_hand (P_constructed x h) = Some x"

definition example_inv :: "(int \<Rightarrow> 'a) \<Rightarrow> 'a example \<Rightarrow> bool" where
  "example_inv cast s \<longleftrightarrow> mt_inv example_N (ring s) \<and> loop_i s \<le> example_items \<and>
     pushed (ring s) = map (\<lambda>k. cast (int k)) [0..<loop_i s] \<and>
     (\<forall>x. in_hand (producer (ring s)) = Some x \<longrightarrow> loop_i s < example_items \<and> x = cast (int (loop_i s))) \<and>
     cnt s = of_nat (pops (ring s)) \<and> (consumer (ring s) \<noteq> C_idle \<longrightarrow> pops (ring s) < example_items) \<and>
     (printed s \<noteq> None \<longrightarrow> pops (ring s) = example_items \<and> printed s = Some (got_line (of_nat example_items)))"

lemma emplace_step_trace:
  assumes "emplace_step n l r = Some r'"
  shows "consumer r' = consumer r \<and> popped_out r' = popped_out r \<and>
    (case l of
       PLoadHead x \<Rightarrow> in_hand (producer r') = Some x \<and> pushed r' = pushed r
     | PPublish \<Rightarrow> in_hand (producer r') = None \<and> (\<exists>x. in_hand (producer r) = Some x \<and> pushed r' = pushed r @ [x])
     | _ \<Rightarrow> (in_hand (producer r') = None \<or> in_hand (producer r') = in_hand (producer r)) \<and> pushed r' = pushed r)"
  using assms by (cases l) (auto simp: Let_def split: producer.splits if_splits)

lemma pop_step_trace:
  assumes "pop_step n l r = Some r'"
  shows "producer r' = producer r \<and> pushed r' = pushed r \<and>
    (case l of
       CPublish \<Rightarrow> consumer r \<noteq> C_idle \<and> consumer r' = C_idle \<and> pops r' = pops r + 1
     | CLoadTail \<Rightarrow> pops r' = pops r
     | _ \<Rightarrow> consumer r \<noteq> C_idle \<and> pops r' = pops r)"
  using assms by (cases l) (auto simp: Let_def split: consumer.splits if_splits slot.splits)

lemma mt_step_emplace: "emplace_step n l r \<noteq> None \<Longrightarrow> mt_step n l r = emplace_step n l r"
  by (auto simp: mt_step_def)

lemma mt_step_pop: "pop_step n l r \<noteq> None \<Longrightarrow> mt_step n l r = pop_step n l r"
  by (cases l) (auto simp: mt_step_def)

lemma pops_le_pushes: "mt_inv n r \<Longrightarrow> pops r \<le> pushes r"
  by (auto simp: mt_inv_def counters_inv_def)

lemma cnt_less: "k \<le> example_items \<Longrightarrow> (of_nat k :: u64) < of_nat example_items \<longleftrightarrow> k < example_items"
  by (simp add: word_less_nat_alt unat_of_nat example_items_def)

lemma example_pops: "example_inv cast s \<Longrightarrow> pops (ring s) \<le> loop_i s \<and> loop_i s \<le> example_items"
  using pops_le_pushes [of example_N "ring s"] by (simp add: example_inv_def)

lemma example_producer_inv:
  assumes inv: "example_inv cast s" and step: "emplace_step example_N l (ring s) = Some r"
    and run: "example_step cast (Queue l) s = Some s'"
  shows "example_inv cast s'"
proof -
  note trace = emplace_step_trace [OF step]
  have mt: "mt_step example_N l (ring s) = Some r" using step by (simp add: mt_step_def)
  have "mt_inv example_N r" using emplace_step_inv [OF _ step] inv by (simp add: example_inv_def)
  then show ?thesis using inv trace run mt step
    by (cases l) (auto simp: example_inv_def simp del: emplace_step.simps(1-4) split: if_splits)
qed

lemma example_consumer_inv:
  assumes inv: "example_inv cast s" and step: "pop_step example_N l (ring s) = Some r"
    and run: "example_step cast (Queue l) s = Some s'"
  shows "example_inv cast s'"
proof -
  note trace = pop_step_trace [OF step]
  have mt: "mt_step example_N l (ring s) = Some r" using step mt_step_pop [of example_N l "ring s"] by simp
  have "mt_inv example_N r" using pop_step_inv [OF _ step] inv by (simp add: example_inv_def)
  moreover have "cnt s < of_nat example_items \<longleftrightarrow> pops (ring s) < example_items"
    using example_pops [OF inv] inv cnt_less [of "pops (ring s)"] by (simp add: example_inv_def)
  ultimately show ?thesis using inv trace run mt step
    by (cases l) (auto simp: example_inv_def simp del: pop_step.simps(1-5) split: if_splits)
qed

lemma example_inv_step:
  assumes "example_inv cast s" and "example_step cast l s = Some s'"
  shows "example_inv cast s'"
proof (cases l)
  case (Queue l')
  then obtain r where "mt_step example_N l' (ring s) = Some r" using assms(2) by (auto split: option.splits)
  then show ?thesis
    using mt_step_cases example_producer_inv [OF assms(1)] example_consumer_inv [OF assms(1)] assms(2) Queue by metis
next
  case Print
  have "cnt s < of_nat example_items \<longleftrightarrow> pops (ring s) < example_items"
    using example_pops [OF assms(1)] assms(1) cnt_less [of "pops (ring s)"] by (simp add: example_inv_def)
  moreover have "pops (ring s) = example_items" if "\<not> pops (ring s) < example_items"
    using that example_pops [OF assms(1)] by simp
  ultimately show ?thesis using assms Print by (auto simp: example_inv_def split: if_splits)
qed


section \<open>Progress\<close>

text \<open>
  What is left to do. A thread that spins goes round: idle, load, idle again; one that gets past
  the load is closer to its end than an idle one.
\<close>

fun producer_work :: "'a producer \<Rightarrow> nat" where
  "producer_work P_idle = 3"
| "producer_work (P_loaded_head x h) = 4"
| "producer_work (P_ready x h) = 2"
| "producer_work (P_constructed x h) = 1"

fun consumer_work :: "'a consumer \<Rightarrow> nat" where
  "consumer_work C_idle = 4"
| "consumer_work (C_loaded_tail t) = 5"
| "consumer_work (C_ready t) = 3"
| "consumer_work (C_moved t v) = 2"
| "consumer_work (C_destroyed t v) = 1"

definition example_work :: "'a example \<Rightarrow> nat" where
  "example_work s = 10 * (example_items - loop_i s) + 10 * (example_items - pops (ring s)) +
     producer_work (producer (ring s)) + consumer_work (consumer (ring s)) + (if printed s = None then 1 else 0)"

lemma ring_emplace_work:
  "emplace_step n l r = Some r' \<Longrightarrow> producer r \<noteq> P_idle \<Longrightarrow>
   if l = PPublish then producer_work (producer r') < producer_work (producer r) + 10
   else producer_work (producer r') < producer_work (producer r)"
  by (cases l) (auto simp: Let_def split: producer.splits if_splits)

lemma ring_pop_work:
  "pop_step n l r = Some r' \<Longrightarrow> ok r' \<Longrightarrow> consumer r \<noteq> C_idle \<Longrightarrow>
   if l = CPublish then consumer_work (consumer r') < consumer_work (consumer r) + 10
   else consumer_work (consumer r') < consumer_work (consumer r)"
  by (cases l) (auto simp: Let_def split: consumer.splits slot.splits if_splits)

text \<open>A thread inside its operation goes on.\<close>

lemma producer_goes_on:
  assumes inv: "example_inv cast s" and busy: "producer (ring s) \<noteq> P_idle"
  shows "\<exists>l s'. example_step cast (Queue l) s = Some s' \<and> example_work s' < example_work s"
proof -
  have mt: "mt_inv example_N (ring s)" using inv by (simp add: example_inv_def)
  obtain l r where step: "emplace_step example_N l (ring s) = Some r" using emplace_enabled [OF mt busy] by blast
  have i: "loop_i s < example_items" using inv busy by (cases "producer (ring s)") (auto simp: example_inv_def)
  have "mt_step example_N l (ring s) = Some r" using step by (simp add: mt_step_def)
  then show ?thesis
    using ring_emplace_work [OF step busy] emplace_step_trace [OF step] i step busy
    by (cases l) (auto simp: example_work_def simp del: emplace_step.simps(2-4) split: if_splits producer.splits intro!: exI [of _ l])
qed

lemma consumer_goes_on:
  assumes inv: "example_inv cast s" and busy: "consumer (ring s) \<noteq> C_idle"
  shows "\<exists>l s'. example_step cast (Queue l) s = Some s' \<and> example_work s' < example_work s"
proof -
  have mt: "mt_inv example_N (ring s)" using inv by (simp add: example_inv_def)
  obtain l r where step: "pop_step example_N l (ring s) = Some r" using pop_enabled [OF mt busy] by blast
  have "ok r" using pop_step_inv [OF mt step] by (simp add: mt_inv_def)
  have k: "pops (ring s) < example_items" using inv busy by (simp add: example_inv_def)
  have "mt_step example_N l (ring s) = Some r" using step mt_step_pop [of example_N l "ring s"] by simp
  then show ?thesis
    using ring_pop_work [OF step \<open>ok r\<close> busy] pop_step_trace [OF step] k step busy
    by (cases l) (auto simp: example_work_def simp del: pop_step.simps(2-5) split: if_splits consumer.splits intro!: exI [of _ l])
qed


text \<open>An idle consumer that reads the newest head of a ring that is not empty gets past the load.\<close>

lemma consumer_starts:
  assumes inv: "example_inv cast s" and idle: "consumer (ring s) = C_idle" and some: "pops (ring s) < pushes (ring s)"
  shows "\<exists>ls s'. run_steps (example_step cast) ls s = Some s' \<and> example_work s' < example_work s"
proof -
  let ?r = "ring s" and ?tail = "of_nat (pops (ring s)) :: u64"
  have mt: "mt_inv example_N ?r" using inv by (simp add: example_inv_def)
  then have c: "head_order ?r = map of_nat [0..<Suc (pushes ?r)]" "tail_order ?r = map of_nat [0..<Suc (pops ?r)]"
    "c_seen ?r \<le> pushes ?r" "pushes ?r \<le> pops ?r + unat example_N" by (auto simp: mt_inv_def counters_inv_def)
  have "pushes ?r = loop_i s" using inv by (simp add: example_inv_def)
  then have "pops ?r < example_items" using some example_pops [OF inv] by simp
  then have cnt: "cnt s < of_nat example_items" using inv cnt_less [of "pops ?r"] by (simp add: example_inv_def)
  let ?r1 = "?r\<lparr>consumer := C_loaded_tail ?tail\<rparr>"
  let ?r2 = "?r1\<lparr>c_seen := pushes ?r, consumer := C_ready ?tail\<rparr>"
  have "mt_step example_N CLoadTail ?r = Some ?r1" using idle c counter_last by (simp add: mt_step_def del: upt_Suc)
  then have s1: "example_step cast (Queue CLoadTail) s = Some (s\<lparr>ring := ?r1\<rparr>)" using cnt by simp
  have "(of_nat (pushes ?r) :: u64) \<noteq> ?tail" using empty_iff [of "pops ?r" "pushes ?r" example_N] c(4) some by simp
  then have "mt_step example_N (CLoadHead (pushes ?r)) ?r1 = Some ?r2"
    using c counter_nth [of "pushes ?r" "pushes ?r"] by (simp add: mt_step_def Let_def del: upt_Suc)
  then have s2: "example_step cast (Queue (CLoadHead (pushes ?r))) (s\<lparr>ring := ?r1\<rparr>) = Some (s\<lparr>ring := ?r2\<rparr>)" by simp
  have "run_steps (example_step cast) [Queue CLoadTail, Queue (CLoadHead (pushes ?r))] s = Some (s\<lparr>ring := ?r2\<rparr>)"
    by (simp only: run_steps.simps s1 s2 option.case)
  moreover have "example_work (s\<lparr>ring := ?r2\<rparr>) < example_work s" using idle by (simp add: example_work_def)
  ultimately show ?thesis by blast
qed

lemma producer_starts:
  assumes inv: "example_inv cast s" and idle: "producer (ring s) = P_idle" and empty: "pops (ring s) = pushes (ring s)"
    and more: "loop_i s < example_items"
  shows "\<exists>ls s'. run_steps (example_step cast) ls s = Some s' \<and> example_work s' < example_work s"
proof -
  let ?r = "ring s" and ?head = "of_nat (pushes (ring s)) :: u64" and ?x = "cast (int (loop_i s))"
  have mt: "mt_inv example_N ?r" using inv by (simp add: example_inv_def)
  then have c: "head_order ?r = map of_nat [0..<Suc (pushes ?r)]" "tail_order ?r = map of_nat [0..<Suc (pops ?r)]"
    "p_seen ?r \<le> pops ?r" by (auto simp: mt_inv_def counters_inv_def)
  let ?r1 = "?r\<lparr>producer := P_loaded_head ?x ?head\<rparr>"
  let ?r2 = "?r1\<lparr>p_seen := pops ?r, producer := P_ready ?x ?head\<rparr>"
  have "mt_step example_N (PLoadHead ?x) ?r = Some ?r1" using idle c counter_last by (simp add: mt_step_def del: upt_Suc)
  then have s1: "example_step cast (Queue (PLoadHead ?x)) s = Some (s\<lparr>ring := ?r1\<rparr>)" using more by simp
  have "mt_step example_N (PLoadTail (pops ?r)) ?r1 = Some ?r2"
    using c counter_nth [of "pops ?r" "pops ?r"] empty
    by (simp add: mt_step_def Let_def example_N_def del: upt_Suc)
  then have s2: "example_step cast (Queue (PLoadTail (pops ?r))) (s\<lparr>ring := ?r1\<rparr>) = Some (s\<lparr>ring := ?r2\<rparr>)" by simp
  have "run_steps (example_step cast) [Queue (PLoadHead ?x), Queue (PLoadTail (pops ?r))] s = Some (s\<lparr>ring := ?r2\<rparr>)"
    by (simp only: run_steps.simps s1 s2 option.case)
  moreover have "example_work (s\<lparr>ring := ?r2\<rparr>) < example_work s" using idle by (simp add: example_work_def)
  ultimately show ?thesis by blast
qed

lemma example_progress:
  assumes inv: "example_inv cast s" and "\<not> example_done s"
  shows "\<exists>ls s'. run_steps (example_step cast) ls s = Some s' \<and> example_work s' < example_work s"
proof -
  have one: ?thesis if "example_step cast l s = Some s'" "example_work s' < example_work s" for l s'
    using that by (intro exI [of _ "[l]"] exI [of _ s']) simp
  have le: "pops (ring s) \<le> pushes (ring s)" and i: "pushes (ring s) = loop_i s" "loop_i s \<le> example_items"
    using inv pops_le_pushes [of example_N "ring s"] by (simp_all add: example_inv_def)
  consider "consumer (ring s) \<noteq> C_idle" | "producer (ring s) \<noteq> P_idle"
    | "consumer (ring s) = C_idle" "pops (ring s) < pushes (ring s)"
    | "producer (ring s) = P_idle" "pops (ring s) = pushes (ring s)" "loop_i s < example_items"
    | "consumer (ring s) = C_idle" "producer (ring s) = P_idle" "pops (ring s) = example_items" "loop_i s = example_items"
    using le i by linarith
  then show ?thesis
  proof cases
    case 1 then show ?thesis using consumer_goes_on [OF inv] one by blast
  next
    case 2 then show ?thesis using producer_goes_on [OF inv] one by blast
  next
    case 3 then show ?thesis using consumer_starts [OF inv] by blast
  next
    case 4 then show ?thesis using producer_starts [OF inv] by blast
  next
    case 5
    then have "printed s = None" using assms(2) by (auto simp: example_done_def)
    moreover have "cnt s = of_nat example_items" using inv 5(3) by (simp add: example_inv_def)
    ultimately show ?thesis
      using 5 by (intro one [of Print "s\<lparr>printed := Some (got_line (cnt s))\<rparr>"]) (simp_all add: example_work_def)
  qed
qed

interpretation example_program: progressing_machine example_init "example_step cast" "example_inv cast" example_done example_work
  for cast
proof
  show "example_inv cast example_init"
  proof -
    have "mt_inv example_N (mt_init example_N)" by (rule mt_init_inv) (simp add: capacity_assert_def example_N_def)
    then show ?thesis by (simp add: example_inv_def example_init_def mt_init_def)
  qed
qed (use example_inv_step example_progress in blast)+

interpretation example_ring: layered_machine example_init "example_step cast" ring "mt_init example_N" "mt_step example_N" for cast
proof
  show "ring s' = ring s \<or> (\<exists>m. mt_step example_N m (ring s) = Some (ring s'))" if "example_step cast l s = Some s'" for l s s'
    using that by (cases l) (auto split: option.splits if_splits spsc_label.splits)
qed (simp add: example_init_def)

text \<open>The two threads of the program use the ring as the queue demands, so that they never race in it.\<close>

lemma example_uses_ring:
  assumes "reachable example_init (example_step cast) s"
  shows "mt_inv example_N (ring s)"
  using spsc_threads.reachable_inv [OF example_ring.reachable_below [OF assms]]
  by (simp add: capacity_assert_def example_N_def)

section \<open>Properties\<close>

text \<open>
  C40: The example comes to its end with everything delivered: when both threads have returned, the
  consumer has had the numbers from 0 to 99999, each once and in this order, and the program has
  printed that it got 100000 items. And however the threads have been interleaved and spun so far,
  the end can still be reached: the ring never locks the two threads up.
\<close>

theorem example_delivers:
  assumes "reachable example_init (example_step cast) s"
  shows "(example_done s \<longrightarrow> popped_out (ring s) = map (\<lambda>k. cast (int k)) [0..<100000] \<and>
       printed s = Some (''Got: 100000 items'' @ [CHR 0x0a])) \<and>
    (\<exists>ls s'. run_steps (example_step cast) ls s = Some s' \<and> example_done s')"
proof -
  note inv = example_program.reachable_inv [OF assms]
  have "popped_out (ring s) = map (\<lambda>k. cast (int k)) [0..<100000] \<and> printed s = Some (''Got: 100000 items'' @ [CHR 0x0a])"
    if "example_done s"
  proof -
    have all: "pops (ring s) = example_items" "printed s = Some (got_line (of_nat example_items))" "loop_i s = example_items"
      using inv that by (auto simp: example_inv_def example_done_def)
    have "popped_out (ring s) = take (pops (ring s)) (pushed (ring s))"
      using inv unfolding example_inv_def mt_inv_def counters_inv_def by blast
    moreover have "pushed (ring s) = map (\<lambda>k. cast (int k)) [0..<example_items]" using inv all(3) by (simp add: example_inv_def)
    ultimately have "popped_out (ring s) = map (\<lambda>k. cast (int k)) [0..<example_items]" using all(1) by simp
    moreover have "printed s = Some (''Got: 100000 items'' @ [CHR 0x0a])"
      unfolding all(2) by (simp add: example_items_def got_line_def decimal_def decimal_nat.simps digit_def char_of_def)
    ultimately show ?thesis unfolding example_items_def by (rule conjI)
  qed
  then show ?thesis using example_program.completes [OF inv] by blast
qed

theorem example_delivers_witness:
  "\<exists>ls s'. run_steps (example_step (\<lambda>n. n)) ls example_init = Some s' \<and> example_done s'"
  using example_delivers [OF reach_start, of "\<lambda>n. n"] by blast

end
