(* ===== verification/SPSCObservers.thy ===== *)
theory SPSCObservers
  imports SPSCThreads
begin

text \<open>
  empty, full and size of include/quick/structs/SPSCQueue.hh while the ring is in use. Each makes
  two loads, one of each counter, and the other threads go on between them. The producer and the
  consumer may ask when they are in no other operation; a thread that is neither may ask at any
  time. A load of a thread's own counter gives the last value, one of another's counter any value
  that is not older than the view the thread has got in emplace or pop; that the calls here also
  move that view forward is left out, so that the model allows more than the machine does.
\<close>

section \<open>State and steps\<close>

datatype asker = Producer | Consumer | Other

datatype query = Empty | Full | Size

datatype answer = Bool bool | Num u64

text \<open>The first load of a call is made and found the value at a position of its counter.\<close>

datatype asking = Quiet | Loaded query nat

record 'a observed =
  ring :: "'a spsc_mt"
  asking_of :: "asker \<Rightarrow> asking"
  answers :: "(asker \<times> query \<times> answer \<times> nat) list"

text \<open>The answers only record what was answered to whom, and how many elements there were then.\<close>

definition observed_init :: "u64 \<Rightarrow> 'a observed" where
  "observed_init n = \<lparr>ring = mt_init n, asking_of = (\<lambda>_. Quiet), answers = []\<rparr>"

text \<open>What the methods compute from the two values they have loaded.\<close>

fun observe :: "u64 \<Rightarrow> query \<Rightarrow> u64 \<Rightarrow> u64 \<Rightarrow> answer" where
  "observe kCapacity Empty head tail = Bool (head = tail)"
| "observe kCapacity Full head tail = Bool (head - tail = kCapacity)"
| "observe kCapacity Size head tail = Num (head - tail)"

text \<open>The positions of the values that a thread can load.\<close>

fun sees_head :: "asker \<Rightarrow> nat \<Rightarrow> 'a spsc_mt \<Rightarrow> bool" where
  "sees_head Producer j r \<longleftrightarrow> Suc j = length (head_order r)"
| "sees_head Consumer j r \<longleftrightarrow> c_seen r \<le> j \<and> j < length (head_order r)"
| "sees_head Other j r \<longleftrightarrow> j < length (head_order r)"

fun sees_tail :: "asker \<Rightarrow> nat \<Rightarrow> 'a spsc_mt \<Rightarrow> bool" where
  "sees_tail Producer j r \<longleftrightarrow> p_seen r \<le> j \<and> j < length (tail_order r)"
| "sees_tail Consumer j r \<longleftrightarrow> Suc j = length (tail_order r)"
| "sees_tail Other j r \<longleftrightarrow> j < length (tail_order r)"

fun may_ask :: "asker \<Rightarrow> 'a spsc_mt \<Rightarrow> bool" where
  "may_ask Producer r \<longleftrightarrow> producer r = P_idle"
| "may_ask Consumer r \<longleftrightarrow> consumer r = C_idle"
| "may_ask Other r \<longleftrightarrow> True"

text \<open>A thread that asks does not begin an emplace or a pop.\<close>

fun begins :: "asker \<Rightarrow> 'a spsc_label \<Rightarrow> bool" where
  "begins Producer (PLoadHead x) = True"
| "begins Consumer CLoadTail = True"
| "begins _ _ = False"

definition elements :: "'a spsc_mt \<Rightarrow> nat" where
  "elements r = pushes r - pops r"

text \<open>empty loads the tail first, full and size load the head first.\<close>

datatype 'a observed_label = In_ring "'a spsc_label" | First_load asker query nat | Second_load asker nat

fun observed_step :: "u64 \<Rightarrow> 'a observed_label \<Rightarrow> 'a observed \<Rightarrow> 'a observed option" where
  "observed_step n (In_ring l) s =
     (if (begins Producer l \<longrightarrow> asking_of s Producer = Quiet) \<and> (begins Consumer l \<longrightarrow> asking_of s Consumer = Quiet)
      then map_option (\<lambda>r. s\<lparr>ring := r\<rparr>) (mt_step n l (ring s)) else None)"
| "observed_step n (First_load t q j) s =
     (if asking_of s t = Quiet \<and> may_ask t (ring s) \<and> (if q = Empty then sees_tail t j (ring s) else sees_head t j (ring s))
      then Some (s\<lparr>asking_of := (asking_of s)(t := Loaded q j)\<rparr>) else None)"
| "observed_step n (Second_load t k) s =
     (case asking_of s t of
        Quiet \<Rightarrow> None
      | Loaded Empty j \<Rightarrow>
          if sees_head t k (ring s)
          then Some (s\<lparr>asking_of := (asking_of s)(t := Quiet),
                 answers := answers s @ [(t, Empty, observe n Empty (head_order (ring s) ! k) (tail_order (ring s) ! j), elements (ring s))]\<rparr>)
          else None
      | Loaded q j \<Rightarrow>
          if sees_tail t k (ring s)
          then Some (s\<lparr>asking_of := (asking_of s)(t := Quiet),
                 answers := answers s @ [(t, q, observe n q (head_order (ring s) ! j) (tail_order (ring s) ! k), elements (ring s))]\<rparr>)
          else None)"

abbreviation observed_reach :: "u64 \<Rightarrow> 'a observed \<Rightarrow> bool" where
  "observed_reach n \<equiv> reachable (observed_init n) (observed_step n)"

interpretation observed_ring: layered_machine "observed_init n" "observed_step n" ring "mt_init n" "mt_step n" for n
proof
  show "ring s' = ring s \<or> (\<exists>m. mt_step n m (ring s) = Some (ring s'))" if "observed_step n l s = Some s'" for l s s'
    using that by (cases l) (auto split: if_splits asking.splits query.splits)
qed (simp add: observed_init_def)

section \<open>What the answers are worth\<close>

text \<open>The producer is never told of too few elements, the consumer never of too many.\<close>

fun honest :: "nat \<Rightarrow> asker \<times> query \<times> answer \<times> nat \<Rightarrow> bool" where
  "honest cap (Producer, Size, Num m, len) \<longleftrightarrow> len \<le> unat m \<and> unat m \<le> cap"
| "honest cap (Producer, Empty, Bool b, len) \<longleftrightarrow> (b \<longrightarrow> len = 0)"
| "honest cap (Producer, Full, Bool b, len) \<longleftrightarrow> (\<not> b \<longrightarrow> len < cap)"
| "honest cap (Consumer, Size, Num m, len) \<longleftrightarrow> unat m \<le> len"
| "honest cap (Consumer, Empty, Bool b, len) \<longleftrightarrow> (\<not> b \<longrightarrow> 0 < len)"
| "honest cap (Consumer, Full, Bool b, len) \<longleftrightarrow> (b \<longrightarrow> len = cap)"
| "honest cap (Other, q, a, len) \<longleftrightarrow> True"
| "honest cap _ \<longleftrightarrow> False"

text \<open>On counters that wrap the methods compute what they would on the positions.\<close>

lemma observe_positions:
  assumes "b \<le> a" and "a \<le> b + unat n"
  shows "observe n q (of_nat a) (of_nat b) =
    (case q of Empty \<Rightarrow> Bool (a = b) | Full \<Rightarrow> Bool (a = b + unat n) | Size \<Rightarrow> Num (of_nat (a - b)))"
    and "unat (of_nat (a - b) :: u64) = a - b"
proof -
  have small: "a - b < 2 ^ 64" using assms unat_lt64 [of n] by linarith
  then show "unat (of_nat (a - b) :: u64) = a - b" by (simp add: unat_of_nat)
  show "observe n q (of_nat a) (of_nat b) =
    (case q of Empty \<Rightarrow> Bool (a = b) | Full \<Rightarrow> Bool (a = b + unat n) | Size \<Rightarrow> Num (of_nat (a - b)))"
    using full_iff [OF assms] empty_iff [OF assms] assms(1) by (cases q) (simp_all add: of_nat_diff)
qed

text \<open>What the first load of a call tells until the second.\<close>

fun asking_ok :: "asker \<Rightarrow> asking \<Rightarrow> 'a spsc_mt \<Rightarrow> bool" where
  "asking_ok Producer (Loaded q a) r \<longleftrightarrow> producer r = P_idle \<and>
     (if q = Empty then p_seen r \<le> a \<and> a \<le> pops r else a = pushes r)"
| "asking_ok Consumer (Loaded q a) r \<longleftrightarrow> consumer r = C_idle \<and>
     (if q = Empty then a = pops r else c_seen r \<le> a \<and> a \<le> pushes r)"
| "asking_ok _ _ r \<longleftrightarrow> True"

definition asking_inv :: "'a observed \<Rightarrow> bool" where
  "asking_inv s \<longleftrightarrow> (\<forall>t. asking_ok t (asking_of s t) (ring s))"

definition observed_inv :: "u64 \<Rightarrow> 'a observed \<Rightarrow> bool" where
  "observed_inv n s \<longleftrightarrow> mt_inv n (ring s) \<and> asking_inv s \<and> list_all (honest (unat n)) (answers s)"

lemma idle_producer_frame:
  assumes "mt_step n l r = Some r'" and "producer r = P_idle" and "\<not> begins Producer l"
  shows "producer r' = P_idle \<and> pushed r' = pushed r \<and> p_seen r' = p_seen r \<and> pops r \<le> pops r'"
  using assms by (cases l) (auto simp: mt_step_def Let_def split: consumer.splits slot.splits if_splits)

lemma idle_consumer_frame:
  assumes "mt_step n l r = Some r'" and "consumer r = C_idle" and "\<not> begins Consumer l"
  shows "consumer r' = C_idle \<and> popped_out r' = popped_out r \<and> c_seen r' = c_seen r \<and> pushes r \<le> pushes r'"
  using assms by (cases l) (auto simp: mt_step_def Let_def split: producer.splits option.splits if_splits)

lemma counter_values:
  assumes "mt_inv n r"
  shows "j < length (head_order r) \<longleftrightarrow> j \<le> pushes r" "j < length (tail_order r) \<longleftrightarrow> j \<le> pops r"
    "j \<le> pushes r \<Longrightarrow> head_order r ! j = of_nat j" "j \<le> pops r \<Longrightarrow> tail_order r ! j = of_nat j"
    "Suc j = length (head_order r) \<longleftrightarrow> j = pushes r" "Suc j = length (tail_order r) \<longleftrightarrow> j = pops r"
  using assms counter_nth [of j "pushes r"] counter_nth [of j "pops r"]
  by (auto simp: mt_inv_def counters_inv_def simp del: upt_Suc)

text \<open>An answer from positions that the asking thread can see.\<close>

lemma answer_honest:
  assumes "mt_inv n r" and "t = Producer \<Longrightarrow> h = pushes r \<and> p_seen r \<le> k \<and> k \<le> pops r"
    and "t = Consumer \<Longrightarrow> c_seen r \<le> h \<and> h \<le> pushes r \<and> k = pops r"
  shows "honest (unat n) (t, q, observe n q (of_nat h) (of_nat k), elements r)"
proof (cases "t = Other")
  case False
  have c: "p_seen r \<le> pops r" "pops r \<le> c_seen r" "c_seen r \<le> pushes r" "pushes r \<le> p_seen r + unat n"
    using assms(1) by (auto simp: mt_inv_def counters_inv_def)
  have le: "k \<le> h" "h \<le> k + unat n" using False assms(2,3) c by (cases t; auto)+
  then show ?thesis
    using False assms(2,3) c observe_positions(2) [of k h n] unfolding observe_positions(1) [OF le]
    by (cases t; cases q) (auto simp: elements_def)
qed simp

lemma ring_step_asking:
  assumes "asking_inv s" and "observed_step n (In_ring l) s = Some s'"
  shows "asking_inv s'"
proof -
  obtain r where r: "mt_step n l (ring s) = Some r" and s': "s' = s\<lparr>ring := r\<rparr>"
    and quiet: "begins Producer l \<Longrightarrow> asking_of s Producer = Quiet" "begins Consumer l \<Longrightarrow> asking_of s Consumer = Quiet"
    using assms(2) by (auto split: if_split_asm)
  have "asking_ok t (asking_of s t) r" for t
  proof (cases "asking_of s t")
    case (Loaded q a)
    have "asking_ok t (Loaded q a) (ring s)" using assms(1) Loaded by (metis asking_inv_def)
    then show ?thesis
    proof (cases t)
      case Producer
      then have "\<not> begins Producer l" using quiet(1) Loaded by auto
      then show ?thesis using \<open>asking_ok t (Loaded q a) (ring s)\<close> Producer Loaded idle_producer_frame [OF r] by (auto split: if_split_asm)
    next
      case Consumer
      then have "\<not> begins Consumer l" using quiet(2) Loaded by auto
      then show ?thesis using \<open>asking_ok t (Loaded q a) (ring s)\<close> Consumer Loaded idle_consumer_frame [OF r] by (auto split: if_split_asm)
    qed simp
  qed (cases t; simp)
  then show ?thesis by (simp add: asking_inv_def s')
qed

lemma first_load_asking:
  assumes "asking_inv s" and "mt_inv n (ring s)" and "observed_step n (First_load t q j) s = Some s'"
  shows "asking_inv s'"
proof -
  have "asking_ok t (Loaded q j) (ring s)"
    using assms(3) counter_values [OF assms(2)] by (cases t) (auto split: if_split_asm)
  then show ?thesis using assms(1,3) by (auto simp: asking_inv_def split: if_split_asm)
qed

lemma second_load_inv:
  assumes "observed_inv n s" and "observed_step n (Second_load t k) s = Some s'"
  shows "observed_inv n s'"
proof -
  have inv: "mt_inv n (ring s)" "asking_inv s" using assms(1) by (simp_all add: observed_inv_def)
  note cv = counter_values [OF inv(1)]
  obtain q j where a: "asking_of s t = Loaded q j" using assms(2) by (auto split: asking.splits)
  have loaded: "asking_ok t (Loaded q j) (ring s)" using inv(2) a by (metis asking_inv_def)
  define h where "h = (if q = Empty then k else j)"
  define e where "e = (if q = Empty then j else k)"
  have sees: "if q = Empty then sees_head t k (ring s) else sees_tail t k (ring s)"
    and s': "s' = s\<lparr>asking_of := (asking_of s)(t := Quiet),
      answers := answers s @ [(t, q, observe n q (head_order (ring s) ! h) (tail_order (ring s) ! e), elements (ring s))]\<rparr>"
    using assms(2) a by (cases q; simp add: h_def e_def split: if_split_asm)+
  have "honest (unat n) (t, q, observe n q (head_order (ring s) ! h) (tail_order (ring s) ! e), elements (ring s))"
  proof (cases "t = Other")
    case False
    have p: "t = Producer \<Longrightarrow> h = pushes (ring s) \<and> p_seen (ring s) \<le> e \<and> e \<le> pops (ring s)"
      using loaded sees cv by (auto simp: h_def e_def split: if_splits)
    have c: "t = Consumer \<Longrightarrow> c_seen (ring s) \<le> h \<and> h \<le> pushes (ring s) \<and> e = pops (ring s)"
      using loaded sees cv by (auto simp: h_def e_def split: if_splits)
    have "h \<le> pushes (ring s)" "e \<le> pops (ring s)" using False p c by (cases t; simp)+
    then show ?thesis using answer_honest [OF inv(1) p c] cv by simp
  qed simp
  moreover have "asking_inv s'" using inv(2) by (simp add: asking_inv_def s')
  ultimately show ?thesis using assms(1) by (simp add: observed_inv_def s')
qed

lemma observed_inv_step:
  assumes "observed_inv n s" and "observed_step n l s = Some s'"
  shows "observed_inv n s'"
proof (cases l)
  case (In_ring m)
  then obtain r where r: "mt_step n m (ring s) = Some r" "s' = s\<lparr>ring := r\<rparr>" using assms(2) by (auto split: if_split_asm)
  have "mt_inv n r" using mt_step_cases [OF r(1)] emplace_step_inv pop_step_inv assms(1) by (auto simp: observed_inv_def)
  then show ?thesis using assms In_ring r(2) ring_step_asking [of s n m s'] by (simp add: observed_inv_def)
next
  case (First_load t q j)
  then have "ring s' = ring s" "answers s' = answers s" using assms(2) by (auto split: if_split_asm)
  then show ?thesis using assms First_load first_load_asking [of s n t q j s'] by (simp add: observed_inv_def)
next
  case (Second_load t k)
  then show ?thesis using assms second_load_inv by blast
qed

interpretation observers: machine "observed_init n" "observed_step n" "\<lambda>s. capacity_assert n \<longrightarrow> observed_inv n s" for n
proof
  show "capacity_assert n \<longrightarrow> observed_inv n (observed_init n)"
    by (simp add: observed_inv_def observed_init_def asking_inv_def mt_init_inv)
qed (use observed_inv_step in blast)

section \<open>Properties\<close>

text \<open>
  C10: What the two threads of the ring are told while the other one works can be relied upon. The
  producer gets a size that is at least the number of elements and at most the capacity, is told
  that the ring is empty only when it is, and that it is not full only when there is room. The
  consumer gets a size that is at most the number of elements, is told that the ring is not empty
  only when there is one, and that it is full only when it is.
\<close>

theorem observers_reliable:
  assumes "capacity_assert n" and "observed_reach n s" and "answer \<in> set (answers s)"
  shows "honest (unat n) answer"
  using observers.reachable_inv [OF assms(2)] assms(1,3) by (auto simp: observed_inv_def list_all_iff)

text \<open>One element passes; the producer asks for the size before and after its pop, with the same old view.\<close>

definition demo_asks :: "nat observed_label list" where
  "demo_asks = map In_ring [PLoadHead 7, PLoadTail 0, PConstruct, PPublish, CLoadTail, CLoadHead 1] @
     [First_load Producer Size 1] @ map In_ring [CMove, CDestroy, CPublish] @ [Second_load Producer 0,
      First_load Consumer Empty 1, Second_load Consumer 1]"

definition demo_observed :: "nat observed" where
  "demo_observed = the (run_steps (observed_step 2) demo_asks (observed_init 2))"

lemma demo_observed_reach: "observed_reach 2 demo_observed"
proof -
  have "\<not> Option.is_none (run_steps (observed_step 2) demo_asks (observed_init 2))" by code_simp
  then show ?thesis unfolding demo_observed_def by (rule the_run_reachable)
qed

theorem observers_reliable_witness:
  "answers demo_observed = [(Producer, Size, Num 1, 0), (Consumer, Empty, Bool True, 0)] \<and>
   honest 2 (Producer, Size, Num 1, 0)"
proof -
  have a: "answers demo_observed = [(Producer, Size, Num 1, 0), (Consumer, Empty, Bool True, 0)]" by code_simp
  have "honest (unat (2 :: u64)) (Producer, Size, Num 1, 0)"
    by (rule observers_reliable [OF _ demo_observed_reach]) (simp_all add: a capacity_assert_def)
  with a show ?thesis by simp
qed

text \<open>
  A third thread can be told anything: between its loads an element can pass through, and the
  size it computes is then 2^64 - 1.
\<close>

lemma other_size_wraps:
  "\<exists>s :: nat observed. observed_reach 2 s \<and> answers s = [(Other, Size, Num (- 1), 0)]"
proof -
  let ?ls = "First_load Other Size 0 # map In_ring [PLoadHead 7, PLoadTail 0, PConstruct, PPublish, CLoadTail,
     CLoadHead 1, CMove, CDestroy, CPublish] @ [Second_load Other 1]"
  let ?s = "the (run_steps (observed_step 2) ?ls (observed_init 2)) :: nat observed"
  have "\<not> Option.is_none (run_steps (observed_step 2) ?ls (observed_init 2) :: nat observed option)" by code_simp
  then have "observed_reach 2 ?s" by (rule the_run_reachable)
  moreover have "answers ?s = [(Other, Size, Num (- 1), 0)]" by code_simp
  ultimately show ?thesis by blast
qed

end
