(* ===== verification/SpinMutex.thy ===== *)
theory SpinMutex
  imports Machine
begin

text \<open>
  The spin lock of include/quick/thread/SpinMutex.hpp. The atomic flag is the list of the values
  it has held; test_and_set reads the last one, a relaxed test may read any value not older than
  what its thread has seen. Any number of threads call lock, try_lock and unlock; a step is one
  access to the flag (or the yield). What a caller takes try_lock's answer to mean is a parameter of the
  steps: enter tells for which answer it goes on as the owner.
\<close>

section \<open>The flag and its operations\<close>

record flag_view =
  flag_order :: "bool list"
  seen :: "nat \<Rightarrow> nat"

definition test_and_set :: "nat \<Rightarrow> flag_view \<Rightarrow> bool \<times> flag_view" where
  [run_simps]: "test_and_set t f =
     (last (flag_order f),
      \<lparr>flag_order = flag_order f @ [True], seen = (seen f)(t := length (flag_order f))\<rparr>)"

definition clear :: "nat \<Rightarrow> flag_view \<Rightarrow> flag_view" where
  [run_simps]: "clear t f =
     \<lparr>flag_order = flag_order f @ [False], seen = (seen f)(t := length (flag_order f))\<rparr>"

definition test_relaxed :: "nat \<Rightarrow> nat \<Rightarrow> flag_view \<Rightarrow> (bool \<times> flag_view) option" where
  [run_simps]: "test_relaxed t j f =
     (if seen f t \<le> j \<and> j < length (flag_order f)
      then Some (flag_order f ! j, f\<lparr>seen := (seen f)(t := j)\<rparr>) else None)"

section \<open>Threads\<close>

text \<open>Outside; before the fast path; in turn i of the short spin, before its test or its test_and_set; before the yield; owner.\<close>

datatype mutex_pc = Outside | FastPath | SpinTest nat | SpinSet nat | Yielding | Held

record mutex_state =
  view :: flag_view
  pc :: "nat \<Rightarrow> mutex_pc"

definition mutex_init :: mutex_state where
  "mutex_init = \<lparr>view = \<lparr>flag_order = [False], seen = (\<lambda>_. 0)\<rparr>, pc = (\<lambda>_. Outside)\<rparr>"

definition next_spin :: "nat \<Rightarrow> mutex_pc" where
  [run_simps]: "next_spin i = (if Suc i < 64 then SpinTest (Suc i) else Yielding)"

datatype mutex_label =
    CallLock nat | FastSet nat | TestFlag nat nat | SetFlag nat | Yield nat | TryLock nat | Unlock nat

fun mutex_step :: "(bool \<Rightarrow> bool) \<Rightarrow> mutex_label \<Rightarrow> mutex_state \<Rightarrow> mutex_state option" where
  "mutex_step enter (CallLock t) s =
     (if pc s t = Outside then Some (s\<lparr>pc := (pc s)(t := FastPath)\<rparr>) else None)"
| "mutex_step enter (FastSet t) s =
     (if pc s t = FastPath then
        (case test_and_set t (view s) of
           (old, f) \<Rightarrow> Some \<lparr>view = f, pc = (pc s)(t := if \<not> old then Held else SpinTest 0)\<rparr>)
      else None)"
| "mutex_step enter (TestFlag t j) s =
     (case pc s t of
        SpinTest i \<Rightarrow>
          (case test_relaxed t j (view s) of
             None \<Rightarrow> None
           | Some (b, f) \<Rightarrow> Some \<lparr>view = f, pc = (pc s)(t := if \<not> b then SpinSet i else next_spin i)\<rparr>)
      | _ \<Rightarrow> None)"
| "mutex_step enter (SetFlag t) s =
     (case pc s t of
        SpinSet i \<Rightarrow>
          (case test_and_set t (view s) of
             (old, f) \<Rightarrow> Some \<lparr>view = f, pc = (pc s)(t := if \<not> old then Held else next_spin i)\<rparr>)
      | _ \<Rightarrow> None)"
| "mutex_step enter (Yield t) s =
     (if pc s t = Yielding then Some (s\<lparr>pc := (pc s)(t := SpinTest 0)\<rparr>) else None)"
| "mutex_step enter (TryLock t) s =
     (if pc s t = Outside then
        (case test_and_set t (view s) of
           (answer, f) \<Rightarrow> Some \<lparr>view = f, pc = (pc s)(t := if enter answer then Held else Outside)\<rparr>)
      else None)"
| "mutex_step enter (Unlock t) s =
     (if pc s t = Held then Some \<lparr>view = clear t (view s), pc = (pc s)(t := Outside)\<rparr> else None)"

abbreviation mutex_reach :: "(bool \<Rightarrow> bool) \<Rightarrow> mutex_state \<Rightarrow> bool" where
  "mutex_reach enter \<equiv> reachable mutex_init (mutex_step enter)"

abbreviation mutex_exec :: "(bool \<Rightarrow> bool) \<Rightarrow> mutex_label list \<Rightarrow> mutex_state \<Rightarrow> mutex_state option" where
  "mutex_exec enter \<equiv> run_steps (mutex_step enter)"

section \<open>The invariant\<close>

definition owned :: "mutex_state \<Rightarrow> bool" where
  "owned s \<longleftrightarrow> last (flag_order (view s))"

definition holders :: "mutex_state \<Rightarrow> nat set" where
  "holders s = {t. pc s t = Held}"

text \<open>The flag is set exactly while a thread owns the lock, and no two threads do.\<close>

definition mutex_inv :: "mutex_state \<Rightarrow> bool" where
  "mutex_inv s \<longleftrightarrow> (owned s \<longleftrightarrow> holders s \<noteq> {}) \<and> (\<exists>t. holders s \<subseteq> {t})"

lemma next_spin_not_held [simp]: "next_spin i \<noteq> Held" "next_spin i \<noteq> Outside"
  by (simp_all add: next_spin_def)

lemma holders_upd:
  "holders (s\<lparr>pc := (pc s)(t := p)\<rparr>) = (if p = Held then insert t (holders s) else holders s - {t})"
  "holders \<lparr>view = f, pc = (pc s)(t := p)\<rparr> = (if p = Held then insert t (holders s) else holders s - {t})"
  by (auto simp: holders_def)

lemma owned_upd:
  "owned (s\<lparr>pc := p\<rparr>) = owned s"
  "owned \<lparr>view = f, pc = p\<rparr> = last (flag_order f)"
  by (simp_all add: owned_def)

lemma not_holder: "pc s t \<noteq> Held \<Longrightarrow> holders s - {t} = holders s"
  by (auto simp: holders_def)

text \<open>
  What a step does to the owners: nothing, or it takes a flag that was clear, or an owner
  clears it.
\<close>

lemma mutex_step_owners:
  assumes "mutex_step Not l s = Some s'"
  shows "(holders s' = holders s \<and> owned s' = owned s) \<or>
    (\<not> owned s \<and> owned s' \<and> (\<exists>t. holders s' = insert t (holders s))) \<or>
    (\<not> owned s' \<and> (\<exists>t. t \<in> holders s \<and> holders s' = holders s - {t}))"
proof (cases l)
  case (CallLock t)
  then show ?thesis using assms by (auto simp: holders_upd owned_upd not_holder split: if_splits)
next
  case (FastSet t)
  then show ?thesis
    using assms by (cases "owned s") (auto simp: test_and_set_def owned_def holders_upd not_holder split: if_splits)
next
  case (TestFlag t j)
  then show ?thesis
    using assms by (auto simp: test_relaxed_def owned_def holders_upd not_holder split: if_splits mutex_pc.splits)
next
  case (SetFlag t)
  then show ?thesis
    using assms by (cases "owned s")
      (auto simp: test_and_set_def owned_def holders_upd not_holder split: if_splits mutex_pc.splits)
next
  case (Yield t)
  then show ?thesis using assms by (auto simp: holders_upd owned_upd not_holder split: if_splits)
next
  case (TryLock t)
  then show ?thesis
    using assms by (cases "owned s") (auto simp: test_and_set_def owned_def holders_upd not_holder split: if_splits)
next
  case (Unlock t)
  then show ?thesis
    using assms by (auto simp: clear_def owned_def holders_upd holders_def split: if_splits)
qed

lemma mutex_step_inv:
  assumes "mutex_inv s" and "mutex_step Not l s = Some s'"
  shows "mutex_inv s'"
  using mutex_step_owners [OF assms(2)] assms(1)
  by (elim disjE) (auto simp: mutex_inv_def)

lemma mutex_init_inv: "mutex_inv mutex_init"
  by (simp add: mutex_inv_def mutex_init_def owned_def holders_def)

interpretation lock: machine mutex_init "mutex_step Not" mutex_inv
  by unfold_locales (auto intro: mutex_init_inv mutex_step_inv)

section \<open>Progress\<close>

text \<open>
  What a thread inside lock does when it runs alone: it reads the newest value of the flag, and
  after the last turn of a spin it yields and starts over.
\<close>

fun solo :: "nat \<Rightarrow> mutex_state \<Rightarrow> mutex_label" where
  "solo t s = (case pc s t of
     FastPath \<Rightarrow> FastSet t
   | SpinTest i \<Rightarrow> TestFlag t (length (flag_order (view s)) - 1)
   | SpinSet i \<Rightarrow> SetFlag t
   | Yielding \<Rightarrow> Yield t
   | Outside \<Rightarrow> CallLock t
   | Held \<Rightarrow> Unlock t)"

fun solo_run :: "nat \<Rightarrow> nat \<Rightarrow> mutex_state \<Rightarrow> mutex_state option" where
  "solo_run t 0 s = Some s"
| "solo_run t (Suc k) s = (case mutex_step Not (solo t s) s of None \<Rightarrow> None | Some s' \<Rightarrow> solo_run t k s')"

definition views_ok :: "mutex_state \<Rightarrow> bool" where
  "views_ok s \<longleftrightarrow> (\<forall>t. seen (view s) t < length (flag_order (view s)))"

lemma mutex_step_views: "views_ok s \<Longrightarrow> mutex_step enter l s = Some s' \<Longrightarrow> views_ok s'"
  by (cases l) (auto simp: views_ok_def run_simps less_Suc_eq split: mutex_pc.splits if_splits)

interpretation lock_views: machine mutex_init "mutex_step enter" views_ok for enter
proof
  show "views_ok mutex_init" by (simp add: views_ok_def mutex_init_def)
qed (rule mutex_step_views)

lemma last_flag: "views_ok s \<Longrightarrow> flag_order (view s) ! (length (flag_order (view s)) - 1) = owned s"
  by (metis gr_implies_not0 last_conv_nth length_0_conv owned_def views_ok_def)

lemma solo_set:
  "\<not> owned s \<Longrightarrow> pc s t = FastPath \<or> pc s t = SpinSet i \<Longrightarrow>
   \<exists>s'. mutex_step Not (solo t s) s = Some s' \<and> pc s' t = Held"
  by (auto simp: test_and_set_def owned_def)

lemma solo_test:
  assumes "\<not> owned s" and "views_ok s" and "pc s t = SpinTest i"
  shows "\<exists>s'. mutex_step Not (solo t s) s = Some s' \<and> pc s' t = SpinSet i \<and> \<not> owned s'"
proof -
  have "seen (view s) t < length (flag_order (view s))"
    using assms(2) by (simp add: views_ok_def)
  then have "seen (view s) t \<le> length (flag_order (view s)) - 1" "0 < length (flag_order (view s))"
    by linarith+
  then show ?thesis
    using assms(1,3) last_flag [OF assms(2)] by (auto simp: test_relaxed_def owned_def)
qed

section \<open>Properties\<close>

text \<open>
  C11: mutual exclusion. However many threads call lock, unlock and try_lock, in any
  interleaving and with any stale relaxed reads in the spin phase, at most one of them owns the
  mutex, and the flag is set exactly while one does: a lock that nobody owns can be taken. A caller
  of try_lock owns the mutex when the answer is false.
\<close>

theorem mutex_exclusive:
  assumes "mutex_reach Not s"
  shows "(owned s \<longleftrightarrow> (\<exists>t. pc s t = Held)) \<and> (\<forall>t u. pc s t = Held \<and> pc s u = Held \<longrightarrow> t = u)"
proof -
  have "mutex_inv s" using assms by (rule lock.reachable_inv)
  then show ?thesis by (auto simp: mutex_inv_def holders_def)
qed

definition demo_mutex :: "mutex_label list" where
  "demo_mutex = [CallLock 0, CallLock 1, FastSet 0, FastSet 1, TestFlag 1 2, Unlock 0, TestFlag 1 2,
     TestFlag 1 3, SetFlag 1]"

lemma demo_mutex_pc:
  "map_option (\<lambda>s. (pc s 0, pc s 1, flag_order (view s))) (mutex_exec Not demo_mutex mutex_init) =
     Some (Outside, Held, [False, True, True, False, True])"
  by code_simp

theorem mutex_exclusive_witness:
  "owned (the (mutex_exec Not demo_mutex mutex_init)) \<and> \<not> owned (the (mutex_exec Not (take 6 demo_mutex) mutex_init))"
proof -
  obtain s where s: "mutex_exec Not demo_mutex mutex_init = Some s" "pc s 1 = Held"
    using demo_mutex_pc by auto
  have "mutex_reach Not s" using s(1) reach_start by (rule run_reachable)
  then have "owned s" using mutex_exclusive [of s] s(2) by blast
  moreover have "\<not> Option.is_none (mutex_exec Not (take 6 demo_mutex) mutex_init)"
    "\<not> owned (the (mutex_exec Not (take 6 demo_mutex) mutex_init))"
    by code_simp+
  ultimately show ?thesis using s(1) by simp
qed

lemma free_lock_taken:
  assumes "mutex_reach Not s" and "\<not> owned s" and "pc s t \<noteq> Outside" and "pc s t \<noteq> Held"
  shows "\<exists>k\<le>3. \<exists>s'. solo_run t k s = Some s' \<and> pc s' t = Held"
proof -
  have views: "views_ok s" using assms(1) by (rule lock_views.reachable_inv)
  have test: "\<exists>s'. solo_run t 2 r = Some s' \<and> pc s' t = Held"
    if r: "\<not> owned r" "views_ok r" "pc r t = SpinTest i" for r i
  proof -
    obtain r' where "mutex_step Not (solo t r) r = Some r'" "pc r' t = SpinSet i" "\<not> owned r'"
      using solo_test [OF r] by blast
    then show ?thesis using solo_set [of r' t i] by (auto simp: numeral_2_eq_2 simp del: solo.simps)
  qed
  show ?thesis
  proof (cases "pc s t")
    case FastPath
    then have "\<exists>s'. solo_run t 1 s = Some s' \<and> pc s' t = Held"
      using solo_set [OF assms(2), of t] by (auto simp del: solo.simps)
    then show ?thesis by (intro exI [of _ 1]) simp
  next
    case (SpinTest i)
    then show ?thesis using test [OF assms(2) views] by (intro exI [of _ 2]) simp
  next
    case (SpinSet i)
    then have "\<exists>s'. solo_run t 1 s = Some s' \<and> pc s' t = Held"
      using solo_set [OF assms(2), of t] by (auto simp del: solo.simps)
    then show ?thesis by (intro exI [of _ 1]) simp
  next
    case Yielding
    let ?r = "s\<lparr>pc := (pc s)(t := SpinTest 0)\<rparr>"
    have "mutex_step Not (solo t s) s = Some ?r" using Yielding by simp
    moreover have "\<exists>s'. solo_run t 2 ?r = Some s' \<and> pc s' t = Held"
      using assms(2) views by (intro test [of _ 0]) (simp_all add: owned_upd views_ok_def)
    ultimately have "\<exists>s'. solo_run t (Suc 2) s = Some s' \<and> pc s' t = Held"
      by (simp only: solo_run.simps option.case)
    then show ?thesis by (intro exI [of _ 3]) (simp add: eval_nat_numeral)
  qed (use assms in simp_all)
qed

lemma solo_exec: "solo_run t k s = Some s' \<Longrightarrow> \<exists>ls. mutex_exec Not ls s = Some s'"
proof (induction k arbitrary: s)
  case 0
  then show ?case by (intro exI [of _ "[]"]) simp
next
  case (Suc k)
  then obtain r where r: "mutex_step Not (solo t s) s = Some r" "solo_run t k r = Some s'"
    by (auto simp del: solo.simps split: option.splits)
  obtain ls where "mutex_exec Not ls r = Some s'" using Suc.IH [OF r(2)] by blast
  then show ?case using r(1) by (intro exI [of _ "solo t s # ls"]) (simp del: solo.simps)
qed



text \<open>
  try_lock answers the opposite of what its name and the standard Lockable requirements
  say: it returns true exactly when the mutex was already taken. Two callers that go on when
  it answers true, as callers of a standard mutex do, are inside together.
\<close>

theorem try_lock_inverted:
  "\<exists>s. mutex_reach (\<lambda>answer. answer) s \<and> pc s 1 = Held \<and> pc s 2 = Held"
proof -
  have "map_option (\<lambda>s. (pc s 1, pc s 2))
      (mutex_exec (\<lambda>answer. answer) [TryLock 0, TryLock 1, TryLock 2] mutex_init) = Some (Held, Held)"
    by code_simp
  then obtain s where s: "mutex_exec (\<lambda>answer. answer) [TryLock 0, TryLock 1, TryLock 2] mutex_init = Some s"
    "pc s 1 = Held" "pc s 2 = Held"
    by auto
  have "mutex_reach (\<lambda>answer. answer) s" using s(1) reach_start by (rule run_reachable)
  with s show ?thesis by blast
qed

end
