(* ===== verification/MutexData.thy ===== *)
theory MutexData
  imports SpinMutex
begin

text \<open>
  What the memory orders of include/quick/thread/SpinMutex.hpp are for: the data that the lock
  guards. Threads that own the lock access the data; every access has a number. A thread knows the
  accesses that happen before its next step. A release of the flag publishes what its thread knows,
  and a test_and_set that acquires takes over what is published; a test_and_set continues the
  release sequence of the store it reads from, so that it hides nothing, and a relaxed test takes
  nothing over. An access races when its thread does not know all the accesses before it.
\<close>

section \<open>State and steps\<close>

datatype memory_order = Relaxed | Acquire | Release

record guarded =
  flag :: mutex_state
  known :: "nat \<Rightarrow> nat set"
  published :: "nat set"
  accesses :: nat
  raced :: bool

definition guarded_init :: guarded where
  "guarded_init = \<lparr>flag = mutex_init, known = (\<lambda>_. {}), published = {}, accesses = 0, raced = False\<rparr>"

datatype guarded_label = Lock_step mutex_label | Access_data nat

text \<open>The order of each access to the flag, with the thread that makes it; the other steps make none.\<close>

fun order_of :: "mutex_label \<Rightarrow> (nat \<times> memory_order) option" where
  "order_of (CallLock t) = None"
| "order_of (FastSet t) = Some (t, Acquire)"
| "order_of (TestFlag t j) = Some (t, Relaxed)"
| "order_of (SetFlag t) = Some (t, Acquire)"
| "order_of (Yield t) = None"
| "order_of (TryLock t) = Some (t, Acquire)"
| "order_of (Unlock t) = Some (t, Release)"

fun pass_on :: "(nat \<times> memory_order) option \<Rightarrow> guarded \<Rightarrow> guarded" where
  "pass_on (Some (t, Acquire)) g = g\<lparr>known := (known g)(t := known g t \<union> published g)\<rparr>"
| "pass_on (Some (t, Release)) g = g\<lparr>published := known g t\<rparr>"
| "pass_on _ g = g"

fun guarded_step :: "(bool \<Rightarrow> bool) \<Rightarrow> guarded_label \<Rightarrow> guarded \<Rightarrow> guarded option" where
  "guarded_step enter (Lock_step l) g =
     (case mutex_step enter l (flag g) of
        None \<Rightarrow> None
      | Some s \<Rightarrow> Some ((pass_on (order_of l) g)\<lparr>flag := s\<rparr>))"
| "guarded_step enter (Access_data t) g =
     (if pc (flag g) t = Held
      then Some (g\<lparr>accesses := accesses g + 1, known := (known g)(t := insert (accesses g) (known g t)),
             raced := (raced g \<or> \<not> {..<accesses g} \<subseteq> known g t)\<rparr>)
      else None)"

section \<open>The invariant\<close>

text \<open>All the accesses are known to whoever owns the lock, or published while nobody does.\<close>

definition guarded_inv :: "guarded \<Rightarrow> bool" where
  "guarded_inv g \<longleftrightarrow> mutex_inv (flag g) \<and> \<not> raced g \<and>
     (\<forall>t. pc (flag g) t = Held \<longrightarrow> {..<accesses g} \<subseteq> known g t) \<and>
     (\<not> owned (flag g) \<longrightarrow> {..<accesses g} \<subseteq> published g)"

lemma pass_on_frame [simp]:
  "flag (pass_on x g) = flag g" "accesses (pass_on x g) = accesses g" "raced (pass_on x g) = raced g"
  by (induction x g rule: pass_on.induct) simp_all

lemma pass_on_known: "known g t \<subseteq> known (pass_on x g) t"
  by (induction x g rule: pass_on.induct) auto

text \<open>A thread that becomes an owner has just acquired a flag that was clear; one that was stays one or releases it.\<close>

lemma mutex_step_enters:
  assumes "mutex_step Not l s = Some s'" and "pc s' t = Held" and "pc s t \<noteq> Held"
  shows "\<not> owned s \<and> order_of l = Some (t, Acquire)"
  using assms by (cases l) (auto simp: run_simps owned_def split: if_splits mutex_pc.splits)

lemma mutex_step_keeps:
  assumes "mutex_step Not l s = Some s'" and "owned s" and "\<And>t. l \<noteq> Unlock t"
  shows "owned s'"
proof (cases l)
  case (CallLock t) then show ?thesis using assms by (auto simp: owned_def split: if_splits)
next
  case (FastSet t) then show ?thesis using assms by (auto simp: run_simps owned_def split: if_splits)
next
  case (TestFlag t j)
  then show ?thesis using assms by (auto simp: run_simps owned_def split: if_splits mutex_pc.splits)
next
  case (SetFlag t) then show ?thesis using assms by (auto simp: run_simps owned_def split: if_splits mutex_pc.splits)
next
  case (Yield t) then show ?thesis using assms by (auto simp: owned_def split: if_splits)
next
  case (TryLock t) then show ?thesis using assms by (auto simp: run_simps owned_def split: if_splits)
qed (use assms(3) in blast)

lemma mutex_step_clears:
  assumes "mutex_step Not l s = Some s'" and "owned s" and "\<not> owned s'"
  shows "\<exists>t. pc s t = Held \<and> order_of l = Some (t, Release)"
proof -
  obtain t where "l = Unlock t" using mutex_step_keeps [OF assms(1,2)] assms(3) by blast
  then show ?thesis using assms(1) by (auto split: if_splits)
qed

lemma mutex_step_published:
  assumes "mutex_step Not l s = Some s'" and "order_of l = Some (t, Release)"
  shows "pc s t = Held"
  using assms by (cases l) (auto split: if_splits)

lemma one_owner:
  assumes "mutex_inv s" and "pc s t = Held"
  shows "owned s" "pc s u = Held \<Longrightarrow> u = t"
proof -
  have t: "t \<in> holders s" using assms(2) by (simp add: holders_def)
  then show "owned s" using assms(1) by (auto simp: mutex_inv_def)
  show "u = t" if "pc s u = Held"
  proof -
    have "u \<in> holders s" using that by (simp add: holders_def)
    with t show ?thesis using assms(1) by (auto simp: mutex_inv_def)
  qed
qed

lemma guarded_step_inv:
  assumes inv: "guarded_inv g" and step: "guarded_step Not l g = Some g'"
  shows "guarded_inv g'"
proof (cases l)
  case (Access_data t)
  then have "pc (flag g) t = Held" and g': "g' = g\<lparr>accesses := accesses g + 1, known := (known g)(t := insert (accesses g) (known g t)),
      raced := (raced g \<or> \<not> {..<accesses g} \<subseteq> known g t)\<rparr>"
    using step by (simp_all split: if_split_asm)
  moreover have "known g' u = insert (accesses g) (known g t)" if "pc (flag g) u = Held" for u
    using one_owner(2) [of "flag g" t u] inv that \<open>pc (flag g) t = Held\<close> by (simp add: guarded_inv_def g')
  moreover have "owned (flag g)" "{..<accesses g} \<subseteq> known g t"
    using one_owner(1) [of "flag g" t] inv \<open>pc (flag g) t = Held\<close> by (simp_all add: guarded_inv_def)
  moreover have same: "flag g' = flag g" "accesses g' = Suc (accesses g)" "raced g' = (raced g \<or> \<not> {..<accesses g} \<subseteq> known g t)"
    by (simp_all add: g')
  ultimately show ?thesis using inv unfolding guarded_inv_def same lessThan_Suc by blast
next
  case (Lock_step m)
  then obtain s where s: "mutex_step Not m (flag g) = Some s" and g': "g' = (pass_on (order_of m) g)\<lparr>flag := s\<rparr>"
    using step by (auto split: option.splits)
  have "mutex_inv s" using mutex_step_inv [OF _ s] inv by (simp add: guarded_inv_def)
  moreover have "{..<accesses g} \<subseteq> known g' t" if "pc s t = Held" for t
  proof (cases "pc (flag g) t = Held")
    case True
    then have "{..<accesses g} \<subseteq> known g t" using inv by (simp add: guarded_inv_def)
    then show ?thesis using pass_on_known [of g t "order_of m"] by (simp add: g')
  next
    case False
    then show ?thesis using mutex_step_enters [OF s that] inv by (auto simp: g' guarded_inv_def)
  qed
  moreover have "{..<accesses g} \<subseteq> published g'" if free: "\<not> owned s"
  proof (cases "owned (flag g)")
    case True
    then obtain t where "pc (flag g) t = Held" "order_of m = Some (t, Release)" using mutex_step_clears [OF s _ free] by blast
    then show ?thesis using inv by (simp add: g' guarded_inv_def)
  next
    case False
    have "published g' = published g"
    proof (cases m)
      case (Unlock t)
      then have "pc (flag g) t = Held" using mutex_step_published [OF s] by simp
      then show ?thesis using one_owner(1) [of "flag g" t] inv False by (simp add: guarded_inv_def)
    qed (simp_all add: g')
    then show ?thesis using False inv by (simp add: guarded_inv_def)
  qed
  ultimately show ?thesis using inv by (simp add: guarded_inv_def g')
qed

interpretation guarded_data: machine guarded_init "guarded_step Not" guarded_inv
proof
  show "guarded_inv guarded_init" using mutex_init_inv by (simp add: guarded_inv_def guarded_init_def)
qed (rule guarded_step_inv)

interpretation guarded_lock: layered_machine guarded_init "guarded_step Not" flag mutex_init "mutex_step Not"
proof
  show "flag g' = flag g \<or> (\<exists>m. mutex_step Not m (flag g) = Some (flag g'))" if "guarded_step Not l g = Some g'" for l g g'
    using that by (cases l) (auto split: option.splits if_splits)
qed (simp add: guarded_init_def)

text \<open>What the lock promises by itself it promises with its data.\<close>

lemma guarded_exclusive:
  assumes "reachable guarded_init (guarded_step Not) g" and "pc (flag g) t = Held" and "pc (flag g) u = Held"
  shows "u = t"
  using one_owner(2) [OF lock.reachable_inv [OF guarded_lock.reachable_below [OF assms(1)]]] assms(2,3) .

section \<open>Properties\<close>

text \<open>
  C12: the lock publishes what it guards: whatever the interleaving and however stale the relaxed
  reads, every access to the guarded data happens after all the accesses before it, and the
  thread that owns the lock knows them all. The acquire and release orders are what it takes.
\<close>

theorem mutex_publishes:
  assumes "reachable guarded_init (guarded_step Not) g"
  shows "\<not> raced g \<and> (pc (flag g) t = Held \<longrightarrow> {..<accesses g} \<subseteq> known g t)"
  using guarded_data.reachable_inv [OF assms] by (simp add: guarded_inv_def)

text \<open>The owner writes and leaves; a thread that spun on the lock writes after it.\<close>

definition demo_guarded :: "guarded_label list" where
  "demo_guarded = map Lock_step [CallLock 0, FastSet 0] @ Access_data 0 # map Lock_step [CallLock 1, FastSet 1, TestFlag 1 2, Unlock 0,
     TestFlag 1 3, SetFlag 1] @ [Access_data 1]"

theorem mutex_publishes_witness:
  "map_option (\<lambda>g. accesses g) (run_steps (guarded_step Not) demo_guarded guarded_init) = Some 2 \<and>
   \<not> raced (the (run_steps (guarded_step Not) demo_guarded guarded_init))"
proof -
  have "map_option (\<lambda>g. accesses g) (run_steps (guarded_step Not) demo_guarded guarded_init) = Some 2"
    by (simp add: demo_guarded_def guarded_init_def mutex_init_def run_simps)
  moreover from this obtain g where "run_steps (guarded_step Not) demo_guarded guarded_init = Some g" by auto
  ultimately show ?thesis using mutex_publishes [OF run_reachable [OF _ reach_start]] by simp
qed

end
