(* ===== verification/XorBitant.thy ===== *)
theory XorBitant
  imports Prelude
begin

text \<open>
  The xorshift generator of include/quick/utils/XorBitant.hh, on 64-bit words: the constructor,
  the bounds and the call operator with its three xor-shifts and its multiplication. The
  interface is the one the standard library asks of a uniform random bit generator.
\<close>

section \<open>The generator\<close>

record xor_bitant =
  m_state :: u64

definition MAGIC_MULTIPLIER :: u64 where
  [run_simps]: "MAGIC_MULTIPLIER = 0x9E3779B97F4A7C15"

definition MAGIC_SEED :: u64 where
  [run_simps]: "MAGIC_SEED = 0xDEADBEEFBABECAFE"

text \<open>The constructor; its default argument is MAGIC_SEED.\<close>

definition XorBitant_ctor :: "u64 option \<Rightarrow> xor_bitant" where
  [run_simps]: "XorBitant_ctor seed = \<lparr>m_state = (case seed of None \<Rightarrow> MAGIC_SEED | Some s \<Rightarrow> s)\<rparr>"

definition min_result :: "32 word" where
  [run_simps]: "min_result = 0"

definition max_result :: "32 word" where
  [run_simps]: "max_result = 0xFFFFFFFF"

definition xor_shifts :: "u64 \<Rightarrow> u64" where
  [run_simps]: "xor_shifts x0 =
     (let x1 = x0 XOR push_bit 13 x0;
          x2 = x1 XOR drop_bit 7 x1;
          x3 = x2 XOR push_bit 5 x2
      in x3)"

definition next_number :: "xor_bitant \<Rightarrow> 32 word \<times> xor_bitant" where
  [run_simps]: "next_number g =
     (let x = xor_shifts (m_state g)
      in (ucast (x * MAGIC_MULTIPLIER), g\<lparr>m_state := x\<rparr>))"

section \<open>A xor with a shift of itself loses nothing\<close>

lemma xor_push_inj:
  fixes x y :: "'a::len word"
  assumes "0 < k" and "x XOR push_bit k x = y XOR push_bit k y"
  shows "x = y"
proof (rule bit_word_eqI)
  fix n assume "n < LENGTH('a)"
  then show "bit x n \<longleftrightarrow> bit y n"
  proof (induction n rule: less_induct)
    case (less n)
    have eq: "bit (x XOR push_bit k x) n = bit (y XOR push_bit k y) n"
      by (simp add: assms(2))
    have "k \<le> n \<Longrightarrow> bit x (n - k) = bit y (n - k)"
      using less assms(1) by simp
    with eq less.prems show ?case
      by (cases "k \<le> n") (auto simp: bit_xor_iff bit_push_bit_iff)
  qed
qed

lemma xor_drop_inj:
  fixes x y :: "'a::len word"
  assumes "0 < k" and "x XOR drop_bit k x = y XOR drop_bit k y"
  shows "x = y"
proof (rule bit_word_eqI)
  fix n assume "n < LENGTH('a)"
  then show "bit x n \<longleftrightarrow> bit y n"
  proof (induction "LENGTH('a) - n" arbitrary: n rule: less_induct)
    case (less n)
    have eq: "bit (x XOR drop_bit k x) n = bit (y XOR drop_bit k y) n"
      by (simp add: assms(2))
    have "bit x (k + n) = bit y (k + n)"
    proof (cases "k + n < LENGTH('a)")
      case True
      then show ?thesis using less assms(1) by simp
    next
      case False
      then show ?thesis by (metis bit_imp_le_length not_less)
    qed
    with eq show ?case by (auto simp: bit_xor_iff bit_drop_bit_eq)
  qed
qed

lemma xor_shifts_inj: "inj xor_shifts"
proof (rule injI)
  fix x y assume eq: "xor_shifts x = xor_shifts y"
  let ?f = "\<lambda>x :: u64. x XOR push_bit 13 x" and ?g = "\<lambda>x :: u64. x XOR drop_bit 7 x"
  have "?g (?f x) = ?g (?f y)"
    using eq unfolding xor_shifts_def Let_def by (rule xor_push_inj [rotated]) simp
  then have "?f x = ?f y" by (rule xor_drop_inj [rotated]) simp
  then show "x = y" by (rule xor_push_inj [rotated]) simp
qed

lemma xor_shifts_zero [simp]: "xor_shifts 0 = 0"
  by (simp add: xor_shifts_def)

lemma xor_shifts_eq_zero [simp]: "xor_shifts x = 0 \<longleftrightarrow> x = 0"
  using xor_shifts_inj by (metis injD xor_shifts_zero)

section \<open>Sequences of draws\<close>

fun draws :: "nat \<Rightarrow> xor_bitant \<Rightarrow> 32 word list \<times> xor_bitant" where
  "draws 0 g = ([], g)"
| "draws (Suc k) g = (case next_number g of (r, g') \<Rightarrow> case draws k g' of (rs, g'') \<Rightarrow> (r # rs, g''))"

lemma draws_state: "m_state (snd (draws k g)) = (xor_shifts ^^ k) (m_state g)"
proof (induction k arbitrary: g)
  case (Suc k)
  show ?case
    using Suc [of "g\<lparr>m_state := xor_shifts (m_state g)\<rparr>"]
    by (simp add: next_number_def Let_def funpow_swap1 case_prod_beta)
qed simp

lemma funpow_zero_iff: "(xor_shifts ^^ k) x = 0 \<longleftrightarrow> x = 0"
  by (induction k) simp_all

lemma funpow_inj: "(xor_shifts ^^ k) x = (xor_shifts ^^ k) y \<longleftrightarrow> x = y"
  using inj_fn [OF xor_shifts_inj, of k] by (auto dest: injD)

lemma funpow_cycle: "\<exists>p>0. (xor_shifts ^^ p) x = x"
proof -
  have "finite {y. \<exists>n. y = (xor_shifts ^^ n) x}" by simp
  then show ?thesis by (rule funpow_inj_finite [OF xor_shifts_inj]) blast
qed

text \<open>
  C23: the generator never loses state. After any number of draws two generators are in the same
  state only when they started in the same state, the state is zero only when the seed was, and
  every seed comes back: each sequence is a pure cycle, without a tail that runs into another.
\<close>

theorem draws_permute:
  "(snd (draws k g) = snd (draws k h) \<longleftrightarrow> g = h) \<and>
   (m_state (snd (draws k g)) = 0 \<longleftrightarrow> m_state g = 0) \<and>
   (\<exists>p>0. snd (draws p g) = g)"
proof -
  have eq: "g = h \<longleftrightarrow> m_state g = m_state h" for g h :: xor_bitant by (cases g; cases h) simp
  show ?thesis
    unfolding eq [of "snd _"] by (simp add: draws_state funpow_zero_iff funpow_inj funpow_cycle eq)
qed

text \<open>
  the constructor takes any seed, and the seed 0 makes a generator that draws nothing but
  zeros; from any other seed the state is never zero again.
\<close>

theorem zero_seed_stuck:
  "fst (draws k (XorBitant_ctor (Some 0))) = replicate k 0 \<and>
   (m_state (snd (draws k (XorBitant_ctor seed))) = 0 \<longleftrightarrow> seed = Some 0)"
proof -
  have "draws k (XorBitant_ctor (Some 0)) = (replicate k 0, XorBitant_ctor (Some 0))"
    by (induction k) (simp_all add: next_number_def XorBitant_ctor_def)
  then show ?thesis
    by (cases seed) (simp_all add: draws_state funpow_zero_iff XorBitant_ctor_def MAGIC_SEED_def)
qed

end
