(* ===== verification/Memory.thy ===== *)
theory Memory
  imports Prelude "HOL-Library.Monad_Syntax"
begin

text \<open>
  The byte copying routines of include/quick/memory: Memcpy with its loop unrolled eight times,
  Memmove with its two directions, and Strcpy. Memory maps an address to a byte, or to nothing
  where nothing is allocated; a load or store there is undefined behaviour and the value None.
  Addresses are unbounded and 0 is the null pointer.
\<close>

section \<open>Byte memory\<close>

type_synonym mem = "nat \<Rightarrow> 8 word option"

definition store :: "nat \<Rightarrow> 8 word \<Rightarrow> mem \<Rightarrow> mem option" where
  "store a b m = (if m a = None then None else Some (m(a \<mapsto> b)))"

definition copy_byte :: "nat \<Rightarrow> nat \<Rightarrow> mem \<Rightarrow> mem option" where
  "copy_byte to from m = do { b \<leftarrow> m from; store to b m }"

section \<open>The routines\<close>

text \<open>The loop while (n--) *to++ = *from++, and the one that runs downwards from the ends.\<close>

fun copy_up :: "nat \<Rightarrow> nat \<Rightarrow> nat \<Rightarrow> mem \<Rightarrow> mem option" where
  "copy_up to from 0 m = Some m"
| "copy_up to from (Suc n) m = do { m' \<leftarrow> copy_byte to from m; copy_up (to + 1) (from + 1) n m' }"

fun copy_down :: "nat \<Rightarrow> nat \<Rightarrow> nat \<Rightarrow> mem \<Rightarrow> mem option" where
  "copy_down to from 0 m = Some m"
| "copy_down to from (Suc n) m = do { m' \<leftarrow> copy_byte (to - 1) (from - 1) m; copy_down (to - 1) (from - 1) n m' }"

function copy_blocks :: "nat \<Rightarrow> nat \<Rightarrow> nat \<Rightarrow> mem \<Rightarrow> (nat \<times> nat \<times> nat \<times> mem) option" where
  "copy_blocks to from n m =
     (if n \<ge> 8 then do {
        m \<leftarrow> copy_byte (to + 0) (from + 0) m;
        m \<leftarrow> copy_byte (to + 1) (from + 1) m;
        m \<leftarrow> copy_byte (to + 2) (from + 2) m;
        m \<leftarrow> copy_byte (to + 3) (from + 3) m;
        m \<leftarrow> copy_byte (to + 4) (from + 4) m;
        m \<leftarrow> copy_byte (to + 5) (from + 5) m;
        m \<leftarrow> copy_byte (to + 6) (from + 6) m;
        m \<leftarrow> copy_byte (to + 7) (from + 7) m;
        copy_blocks (to + 8) (from + 8) (n - 8) m }
      else Some (to, from, n, m))"
  by pat_completeness auto
termination by (relation "measure (\<lambda>(to, from, n, m). n)") auto

declare copy_blocks.simps [simp del]

definition Memcpy :: "nat \<Rightarrow> nat \<Rightarrow> nat \<Rightarrow> mem \<Rightarrow> (nat \<times> mem) option" where
  "Memcpy dst src n m = do {
     (to, from, n, m) \<leftarrow> copy_blocks dst src n m;
     m \<leftarrow> copy_up to from n m;
     Some (dst, m) }"

definition Memmove :: "nat \<Rightarrow> nat \<Rightarrow> nat \<Rightarrow> mem \<Rightarrow> (nat \<times> mem) option" where
  "Memmove dst src n m =
     (if src = 0 \<or> dst = 0 \<or> n = 0 then Some (dst, m)
      else if dst < src then do { m \<leftarrow> copy_up dst src n m; Some (dst, m) }
      else if src < dst then do { m \<leftarrow> copy_down (dst + n) (src + n) n m; Some (dst, m) }
      else Some (dst, m))"

text \<open>The loop of Strcpy has no bound: None also stands for not returning.\<close>

partial_function (option) copy_string :: "nat \<Rightarrow> nat \<Rightarrow> mem \<Rightarrow> mem option" where
  "copy_string dst src m =
     Option.bind (m src) (\<lambda>b. Option.bind (store dst b m) (\<lambda>m'.
       if b \<noteq> 0 then copy_string (dst + 1) (src + 1) m' else Some m'))"

definition Strcpy :: "nat \<Rightarrow> nat \<Rightarrow> mem \<Rightarrow> (nat \<times> mem) option" where
  "Strcpy dst src m = do { m \<leftarrow> copy_string dst src m; Some (dst, m) }"

section \<open>What a copy means\<close>

text \<open>
  The bytes of a range all at once: the destination gets what the source held before, whether
  or not the two overlap.
\<close>

definition copied :: "nat \<Rightarrow> nat \<Rightarrow> nat \<Rightarrow> mem \<Rightarrow> mem" where
  "copied dst src n m = (\<lambda>a. if dst \<le> a \<and> a < dst + n then m (src + (a - dst)) else m a)"

definition allocated :: "nat \<Rightarrow> nat \<Rightarrow> mem \<Rightarrow> bool" where
  "allocated a n m \<longleftrightarrow> {a..<a + n} \<subseteq> dom m"

definition disjoint :: "nat \<Rightarrow> nat \<Rightarrow> nat \<Rightarrow> bool" where
  "disjoint a b n \<longleftrightarrow> a + n \<le> b \<or> b + n \<le> a"

lemma copied_0 [simp]: "copied dst src 0 m = m"
  by (rule ext) (auto simp: copied_def)

lemma copied_self [simp]: "copied a a n m = m"
  by (auto simp: copied_def)

lemma allocated_0 [simp]: "allocated a 0 m"
  by (simp add: allocated_def)

lemma allocated_Suc: "allocated a (Suc n) m \<longleftrightarrow> m a \<noteq> None \<and> allocated (a + 1) n m"
proof -
  have "{a..<a + Suc n} = insert a {a + 1..<a + 1 + n}" by auto
  then show ?thesis by (auto simp: allocated_def)
qed

lemma allocated_Suc_end: "allocated a (Suc n) m \<longleftrightarrow> m (a + n) \<noteq> None \<and> allocated a n m"
proof -
  have "{a..<a + Suc n} = insert (a + n) {a..<a + n}" by auto
  then show ?thesis by (auto simp: allocated_def)
qed

lemma allocated_dom: "dom m' = dom m \<Longrightarrow> allocated a n m' = allocated a n m"
  by (simp add: allocated_def)

lemma allocatedD: "allocated a n m \<Longrightarrow> a \<le> k \<Longrightarrow> k < a + n \<Longrightarrow> m k \<noteq> None"
  by (auto simp: allocated_def subset_iff)

lemma copy_byte_Some: "m to \<noteq> None \<Longrightarrow> m from = Some b \<Longrightarrow> copy_byte to from m = Some (m(to \<mapsto> b))"
  by (simp add: copy_byte_def store_def)

lemma copy_byte_dom: "copy_byte to from m = Some m' \<Longrightarrow> dom m' = dom m"
  by (auto simp: copy_byte_def store_def bind_eq_Some_conv split: if_splits)

lemma copied_dom: "allocated dst n m \<Longrightarrow> allocated src n m \<Longrightarrow> dom (copied dst src n m) = dom m"
proof -
  assume a: "allocated dst n m" "allocated src n m"
  have "copied dst src n m k \<noteq> None \<longleftrightarrow> m k \<noteq> None" for k
    using allocatedD [OF a(1), of k] allocatedD [OF a(2), of "src + (k - dst)"]
    by (auto simp: copied_def)
  then show ?thesis by blast
qed

lemma copied_Suc:
  assumes "m src = Some b" and "dst \<le> src \<or> src + n < dst"
  shows "copied (dst + 1) (src + 1) n (m(dst \<mapsto> b)) = copied dst src (Suc n) m"
proof (rule ext)
  fix a
  have "src + 1 + (a - (dst + 1)) = src + (a - dst)" "src + (a - dst) \<noteq> dst" if "dst < a" "a < dst + Suc n"
    using that assms(2) by auto
  then show "copied (dst + 1) (src + 1) n (m(dst \<mapsto> b)) a = copied dst src (Suc n) m a"
    using assms(1) by (cases a dst rule: linorder_cases) (auto simp: copied_def)
qed

section \<open>The loops\<close>

lemma copy_up_correct:
  assumes "allocated dst n m" and "allocated src n m" and "dst \<le> src \<or> src + n \<le> dst"
  shows "copy_up dst src n m = Some (copied dst src n m)"
  using assms
proof (induction n arbitrary: dst src m)
  case (Suc n)
  obtain b where b: "m src = Some b" using Suc.prems(2) by (auto simp: allocated_Suc)
  let ?m = "m(dst \<mapsto> b)"
  have dom: "dom ?m = dom m" using Suc.prems(1) by (auto simp: allocated_Suc)
  have "copy_up (dst + 1) (src + 1) n ?m = Some (copied (dst + 1) (src + 1) n ?m)"
    using Suc.prems by (intro Suc.IH; (unfold allocated_dom [OF dom])?) (auto simp: allocated_Suc)
  moreover have "copied (dst + 1) (src + 1) n ?m = copied dst src (Suc n) m"
    using b Suc.prems(3) by (subst copied_Suc) auto
  ultimately show ?case
    using Suc.prems(1) b by (simp add: copy_byte_Some allocated_Suc)
qed simp

lemma copy_down_correct:
  assumes "allocated dst n m" and "allocated src n m" and "src \<le> dst"
  shows "copy_down (dst + n) (src + n) n m = Some (copied dst src n m)"
  using assms
proof (induction n arbitrary: m)
  case (Suc n)
  obtain b where b: "m (src + n) = Some b" using Suc.prems(2) by (auto simp: allocated_Suc_end)
  let ?m = "m(dst + n \<mapsto> b)"
  have dom: "dom ?m = dom m" using Suc.prems(1) by (auto simp: allocated_Suc_end)
  have "copy_down (dst + n) (src + n) n ?m = Some (copied dst src n ?m)"
    using Suc.prems by (intro Suc.IH; (unfold allocated_dom [OF dom])?) (auto simp: allocated_Suc_end)
  moreover have "copied dst src n ?m = copied dst src (Suc n) m"
    using Suc.prems(3) b by (auto simp: copied_def fun_eq_iff less_Suc_eq)
  ultimately show ?case
    using Suc.prems(1) b by (simp add: copy_byte_Some allocated_Suc_end)
qed simp

text \<open>Unrolling eight turns of the loop changes nothing, whatever the memory and the ranges.\<close>

lemma copy_up_Suc:
  "copy_up to from (Suc n) = (\<lambda>m. do { m' \<leftarrow> copy_byte to from m; copy_up (to + 1) (from + 1) n m' })"
  by (rule ext) simp

lemma copy_up_unroll:
  assumes "8 \<le> n"
  shows "copy_up to from n m = do {
    m \<leftarrow> copy_byte (to + 0) (from + 0) m;
    m \<leftarrow> copy_byte (to + 1) (from + 1) m;
    m \<leftarrow> copy_byte (to + 2) (from + 2) m;
    m \<leftarrow> copy_byte (to + 3) (from + 3) m;
    m \<leftarrow> copy_byte (to + 4) (from + 4) m;
    m \<leftarrow> copy_byte (to + 5) (from + 5) m;
    m \<leftarrow> copy_byte (to + 6) (from + 6) m;
    m \<leftarrow> copy_byte (to + 7) (from + 7) m;
    copy_up (to + 8) (from + 8) (n - 8) m }"
proof -
  obtain k where "n = Suc (Suc (Suc (Suc (Suc (Suc (Suc (Suc k)))))))"
    using assms by (auto dest!: le_Suc_ex simp: eval_nat_numeral)
  then show ?thesis by (simp add: numeral_eq_Suc copy_up_Suc)
qed

lemma copy_blocks_up:
  "do { (to, from, n, m) \<leftarrow> copy_blocks to from n m; copy_up to from n m } = copy_up to from n m"
proof (induction to "from" n m rule: copy_blocks.induct)
  case (1 to "from" n m)
  show ?case
  proof (cases "8 \<le> n")
    case True
    note IH = 1 [OF True]
    show ?thesis
      unfolding copy_blocks.simps [of to "from" n m] copy_up_unroll [OF True]
      using True by (auto simp: IH intro!: Option.bind_cong)
  next
    case False
    then show ?thesis by (simp add: copy_blocks.simps)
  qed
qed

lemma Memcpy_loop: "Memcpy dst src n m = do { m' \<leftarrow> copy_up dst src n m; Some (dst, m') }"
  unfolding Memcpy_def copy_blocks_up [symmetric, of dst src n m]
  by (cases "copy_blocks dst src n m") (auto split: prod.splits)

lemma Memcpy_copied:
  "allocated dst n m \<Longrightarrow> allocated src n m \<Longrightarrow> dst \<le> src \<or> src + n \<le> dst \<Longrightarrow>
   Memcpy dst src n m = Some (dst, copied dst src n m)"
  by (simp add: Memcpy_loop copy_up_correct)

lemma Memmove_copied:
  assumes "allocated dst n m" and "allocated src n m" and "dst \<noteq> 0" and "src \<noteq> 0"
  shows "Memmove dst src n m = Some (dst, copied dst src n m)"
  using assms copy_up_correct [of dst n m src] copy_down_correct [of dst n m src]
  by (cases dst src rule: linorder_cases) (auto simp: Memmove_def)

section \<open>Strings\<close>

text \<open>A string of len bytes and its terminating null byte.\<close>

definition c_string :: "nat \<Rightarrow> nat \<Rightarrow> mem \<Rightarrow> bool" where
  "c_string a len m \<longleftrightarrow> allocated a (len + 1) m \<and> m (a + len) = Some 0 \<and> (\<forall>i<len. m (a + i) \<noteq> Some 0)"

lemma c_string_0: "c_string a 0 m \<longleftrightarrow> m a = Some 0"
  by (auto simp: c_string_def allocated_def)

lemma c_string_Suc: "c_string a (Suc len) m \<longleftrightarrow> m a \<noteq> None \<and> m a \<noteq> Some 0 \<and> c_string (a + 1) len m"
  by (auto simp: c_string_def allocated_Suc All_less_Suc2)

lemma c_string_cong:
  assumes "c_string a len m" and "\<And>i. i \<le> len \<Longrightarrow> m' (a + i) = m (a + i)"
  shows "c_string a len m'"
  using assms by (induction len arbitrary: a) (force simp: c_string_0 c_string_Suc)+

lemma copy_string_unfold:
  "m src = Some b \<Longrightarrow> m dst \<noteq> None \<Longrightarrow>
   copy_string dst src m =
     (if b \<noteq> 0 then copy_string (dst + 1) (src + 1) (m(dst \<mapsto> b)) else Some (m(dst \<mapsto> b)))"
  by (subst copy_string.simps) (auto simp: store_def)

lemma copy_string_correct:
  assumes "c_string src len m" and "allocated dst (len + 1) m" and "dst \<le> src \<or> src + len < dst"
  shows "copy_string dst src m = Some (copied dst src (len + 1) m)"
  using assms
proof (induction len arbitrary: dst src m)
  case 0
  then have "m src = Some 0" "m dst \<noteq> None" by (simp_all add: c_string_0 allocated_Suc)
  then show ?case by (auto simp: copy_string_unfold copied_def fun_eq_iff)
next
  case (Suc len)
  obtain b where b: "m src = Some b" "b \<noteq> 0" using Suc.prems(1) by (auto simp: c_string_Suc)
  let ?m = "m(dst \<mapsto> b)"
  have dst: "m dst \<noteq> None" using Suc.prems(2) by (simp add: allocated_Suc)
  then have dom: "dom ?m = dom m" by auto
  have "copy_string (dst + 1) (src + 1) ?m = Some (copied (dst + 1) (src + 1) (len + 1) ?m)"
  proof (rule Suc.IH)
    have "c_string (src + 1) len m" using Suc.prems(1) by (simp add: c_string_Suc)
    then show "c_string (src + 1) len ?m" by (rule c_string_cong) (use Suc.prems(3) in auto)
    show "allocated (dst + 1) (len + 1) ?m"
      using Suc.prems(2) unfolding allocated_dom [OF dom] by (simp add: allocated_Suc)
  qed (use Suc.prems(3) in auto)
  moreover have "copied (dst + 1) (src + 1) (len + 1) ?m = copied dst src (Suc len + 1) m"
    using b Suc.prems(3) by (subst copied_Suc) auto
  ultimately show ?case using b dst by (simp add: copy_string_unfold)
qed

text \<open>
  A destination inside the source, after its first byte, overwrites the null byte before the
  loop reads it: the loop runs until it leaves the allocated memory.
\<close>

lemma copy_string_runaway:
  assumes "finite (dom m)" and "0 < d" and "\<forall>i<d. m (src + i) \<noteq> Some 0"
  shows "copy_string (src + d) src m = None"
  using assms
proof (induction "card (dom m \<inter> {src..})" arbitrary: src m rule: less_induct)
  case less
  show ?case
  proof (cases "m src")
    case None
    then show ?thesis by (simp add: copy_string.simps)
  next
    case b: (Some b)
    show ?thesis
    proof (cases "m (src + d)")
      case None
      then show ?thesis by (subst copy_string.simps) (simp add: b store_def)
    next
      case (Some c)
      let ?m = "m(src + d \<mapsto> b)"
      have dom: "dom ?m = dom m" using Some by auto
      have "b \<noteq> 0" using less.prems b by force
      have "src \<in> dom m \<inter> {src..}" "src \<notin> dom m \<inter> {src + 1..}" "dom m \<inter> {src + 1..} \<subseteq> dom m \<inter> {src..}"
        using b by auto
      then have "dom m \<inter> {src + 1..} \<subset> dom m \<inter> {src..}" by blast
      then have "card (dom ?m \<inter> {src + 1..}) < card (dom m \<inter> {src..})"
        unfolding dom using less.prems(1) by (intro psubset_card_mono) auto
      moreover have "?m (src + 1 + i) \<noteq> Some 0" if "i < d" for i
        using less.prems(3) \<open>b \<noteq> 0\<close> that by (cases "Suc i = d") (auto dest: spec [of _ "Suc i"])
      ultimately have "copy_string (src + 1 + d) (src + 1) ?m = None"
        using less.prems(1,2) by (intro less.hyps allI impI) (simp_all only: dom not_False_eq_True)
      then show ?thesis using b Some \<open>b \<noteq> 0\<close> by (simp add: copy_string_unfold)
    qed
  qed
qed

section \<open>The contract of a block copy\<close>

text \<open>
  A routine that copies a block, on ranges for which ok holds. What it leaves: the bytes of the
  source in the destination, everything else as it was, the same addresses allocated.
\<close>

locale block_copy =
  fixes copy :: "nat \<Rightarrow> nat \<Rightarrow> nat \<Rightarrow> mem \<Rightarrow> (nat \<times> mem) option"
    and ok :: "nat \<Rightarrow> nat \<Rightarrow> nat \<Rightarrow> bool"
  assumes copy_copied: "allocated dst n m \<Longrightarrow> allocated src n m \<Longrightarrow> ok dst src n \<Longrightarrow>
      copy dst src n m = Some (dst, copied dst src n m)"
    and ok_disjoint: "0 < dst \<Longrightarrow> 0 < src \<Longrightarrow> disjoint dst src n \<Longrightarrow> ok dst src n"
begin

lemma copy_dom:
  "allocated dst n m \<Longrightarrow> allocated src n m \<Longrightarrow> ok dst src n \<Longrightarrow> copy dst src n m = Some (r, m') \<Longrightarrow>
   r = dst \<and> dom m' = dom m \<and> (\<forall>i<n. m' (dst + i) = m (src + i)) \<and>
   (\<forall>a. a < dst \<or> dst + n \<le> a \<longrightarrow> m' a = m a)"
  using copied_dom [of dst n m src] by (auto simp: copy_copied) (auto simp: copied_def)

text \<open>
  Saving a block to a disjoint buffer and copying it back restores it, whatever happened to the
  block in between.
\<close>

lemma save_restore:
  assumes "allocated a n m" and "allocated buf n m" and "0 < a" and "0 < buf" and "disjoint a buf n"
    and "copy buf a n m = Some (r, m1)"
    and "dom m2 = dom m1" and "\<forall>k. k < a \<or> a + n \<le> k \<longrightarrow> m2 k = m1 k"
  shows "\<exists>m3. copy a buf n m2 = Some (a, m3) \<and> (\<forall>k. k < buf \<or> buf + n \<le> k \<longrightarrow> m3 k = m k)"
proof -
  have dis: "disjoint buf a n" using assms(5) by (auto simp: disjoint_def)
  have m1: "m1 = copied buf a n m"
    using copy_copied [OF assms(2,1) ok_disjoint [OF assms(4,3) dis]] assms(6) by simp
  have dom: "dom m2 = dom m" using assms(1,2,7) m1 by (simp add: copied_dom)
  have "copy a buf n m2 = Some (a, copied a buf n m2)"
    using assms(1-5) by (intro copy_copied ok_disjoint) (simp_all add: allocated_dom [OF dom])
  moreover have "copied a buf n m2 k = m k" if "k < buf \<or> buf + n \<le> k" for k
    using that assms(5,8) by (auto simp: copied_def m1 disjoint_def)
  ultimately show ?thesis by blast
qed

end

interpretation memcpy: block_copy Memcpy "\<lambda>dst src n. dst \<le> src \<or> src + n \<le> dst"
  by unfold_locales (auto simp: disjoint_def intro: Memcpy_copied)

interpretation memmove: block_copy Memmove "\<lambda>dst src n. dst \<noteq> 0 \<and> src \<noteq> 0"
  by unfold_locales (auto intro: Memmove_copied)

section \<open>Properties\<close>

text \<open>
  C20: Memcpy, unrolled, is the byte loop on every input, faults and overlaps included, and on
  allocated ranges whose destination does not start inside the source it copies the block.
\<close>

theorem Memcpy_correct:
  "Memcpy dst src n m = map_option (Pair dst) (copy_up dst src n m) \<and>
   (allocated dst n m \<and> allocated src n m \<and> (dst \<le> src \<or> src + n \<le> dst) \<longrightarrow>
     Memcpy dst src n m = Some (dst, copied dst src n m))"
  by (auto simp: Memcpy_loop copy_up_correct map_option_case split: option.splits)

text \<open>Nineteen bytes: two turns of the unrolled loop and three of the other.\<close>

definition demo_mem :: mem where
  "demo_mem = (\<lambda>a. if 100 \<le> a \<and> a < 140 then Some (of_nat (a - 99)) else if a = 140 then Some 0 else None)"

lemma demo_allocated: "100 \<le> a \<Longrightarrow> a + n \<le> 141 \<Longrightarrow> allocated a n demo_mem"
  by (auto simp: allocated_def demo_mem_def subset_iff)

theorem Memcpy_correct_witness:
  "Memcpy 120 100 19 demo_mem = Some (120, copied 120 100 19 demo_mem)"
  by (rule Memcpy_correct [of 120 100 19 demo_mem, THEN conjunct2, rule_format]) (simp add: demo_allocated)

text \<open>
  C21: Memmove copies the block whatever the overlap: the destination ends with what the source
  held before the call, and nothing else changes. With a null pointer or no byte to copy it
  changes nothing.
\<close>

theorem Memmove_correct:
  "(allocated dst n m \<and> allocated src n m \<and> dst \<noteq> 0 \<and> src \<noteq> 0 \<longrightarrow>
     Memmove dst src n m = Some (dst, copied dst src n m)) \<and>
   (dst = 0 \<or> src = 0 \<or> n = 0 \<longrightarrow> Memmove dst src n m = Some (dst, m))"
  using memmove.copy_copied [of dst n m src] by (auto simp: Memmove_def)

theorem Memmove_correct_witness:
  "Memmove 105 100 20 demo_mem = Some (105, copied 105 100 20 demo_mem)"
  using Memmove_correct [of 105 20 demo_mem 100] by (simp add: demo_allocated)

text \<open>
  C22: Strcpy returns, and copies the string with its null byte, when the destination has room
  and does not start inside the source after its first byte. When it does, no null byte is ever
  read and the loop runs off the allocated memory.
\<close>

theorem Strcpy_correct:
  assumes "c_string src len m"
  shows "(allocated dst (len + 1) m \<and> (dst \<le> src \<or> src + len < dst) \<longrightarrow>
      Strcpy dst src m = Some (dst, copied dst src (len + 1) m)) \<and>
    (finite (dom m) \<and> src < dst \<and> dst \<le> src + len \<longrightarrow> Strcpy dst src m = None)"
proof (intro conjI impI)
  assume "allocated dst (len + 1) m \<and> (dst \<le> src \<or> src + len < dst)"
  then show "Strcpy dst src m = Some (dst, copied dst src (len + 1) m)"
    using assms by (simp add: Strcpy_def copy_string_correct)
next
  assume *: "finite (dom m) \<and> src < dst \<and> dst \<le> src + len"
  then have "copy_string (src + (dst - src)) src m = None"
    using assms by (intro copy_string_runaway) (auto simp: c_string_def)
  then show "Strcpy dst src m = None" using * by (simp add: Strcpy_def)
qed

lemma demo_string: "c_string 130 10 demo_mem"
proof -
  have "list_all (\<lambda>i. demo_mem (130 + i) \<noteq> Some 0) [0..<10]" by code_simp
  then have "\<forall>i<10. demo_mem (130 + i) \<noteq> Some 0" by (simp only: list_all_iff set_upt) simp
  then show ?thesis by (simp add: c_string_def demo_allocated) (simp add: demo_mem_def)
qed

theorem Strcpy_correct_witness:
  "Strcpy 100 130 demo_mem = Some (100, copied 100 130 11 demo_mem) \<and> Strcpy 133 130 demo_mem = None"
proof -
  have "dom demo_mem \<subseteq> {100..140}" by (auto simp: demo_mem_def split: if_splits)
  then have "finite (dom demo_mem)" by (rule finite_subset) simp
  then show ?thesis
    using Strcpy_correct [OF demo_string, of 100] Strcpy_correct [OF demo_string, of 133]
    by (simp add: demo_allocated)
qed

end
