(* ===== verification/ObjectHeap.thy ===== *)
theory ObjectHeap
  imports Prelude "HOL-Library.Monad_Syntax"
begin

text \<open>
  Raw storage and the objects that live in it, for the components that call operator new and
  operator delete, std::construct_at and std::destroy_at themselves. A block is a list of slots;
  address 0 is the null pointer and a block's address is never used again. None is undefined
  behaviour: an access outside a block or to a freed one, a second free, the destruction of raw
  memory. Freeing a block that still holds an object, or constructing over one, is defined but
  loses the object: lost counts such objects.
\<close>

record 'a heap =
  blocks :: "nat \<Rightarrow> 'a slot list option"
  fresh :: nat
  lost :: nat

definition empty_heap :: "'a heap" where
  [run_simps]: "empty_heap = \<lparr>blocks = (\<lambda>_. None), fresh = 1, lost = 0\<rparr>"

section \<open>Operations\<close>

definition new_block :: "nat \<Rightarrow> 'a heap \<Rightarrow> nat \<times> 'a heap" where
  [run_simps]: "new_block n h =
     (fresh h, h\<lparr>blocks := (blocks h)(fresh h \<mapsto> replicate n Raw), fresh := fresh h + 1\<rparr>)"

definition constructed :: "'a slot list \<Rightarrow> nat" where
  "constructed cells = length (filter (\<lambda>c. c \<noteq> Raw) cells)"

definition delete_block :: "nat \<Rightarrow> 'a heap \<Rightarrow> 'a heap option" where
  [run_simps]: "delete_block p h =
     (if p = 0 then Some h
      else case blocks h p of
          None \<Rightarrow> None
        | Some cells \<Rightarrow> Some (h\<lparr>blocks := (blocks h)(p := None), lost := lost h + constructed cells\<rparr>))"

definition slot_at :: "nat \<Rightarrow> nat \<Rightarrow> 'a heap \<Rightarrow> 'a slot option" where
  [run_simps]: "slot_at p i h =
     (case blocks h p of None \<Rightarrow> None | Some cells \<Rightarrow> if i < length cells then Some (cells ! i) else None)"

definition set_slot :: "nat \<Rightarrow> nat \<Rightarrow> 'a slot \<Rightarrow> 'a heap \<Rightarrow> 'a heap" where
  [run_simps]: "set_slot p i c h = h\<lparr>blocks := (blocks h)(p := map_option (\<lambda>cells. cells[i := c]) (blocks h p))\<rparr>"

definition construct_at :: "nat \<Rightarrow> nat \<Rightarrow> 'a \<Rightarrow> 'a heap \<Rightarrow> 'a heap option" where
  [run_simps]: "construct_at p i x h =
     (case slot_at p i h of None \<Rightarrow> None
      | Some c \<Rightarrow> Some ((set_slot p i (Live x) h)\<lparr>lost := lost h + (if c = Raw then 0 else 1)\<rparr>))"

definition destroy_at :: "nat \<Rightarrow> nat \<Rightarrow> 'a heap \<Rightarrow> 'a heap option" where
  [run_simps]: "destroy_at p i h =
     (case slot_at p i h of None \<Rightarrow> None | Some c \<Rightarrow> if c = Raw then None else Some (set_slot p i Raw h))"

text \<open>The value of an object; a moved-from one has none the model could tell.\<close>

definition read_at :: "nat \<Rightarrow> nat \<Rightarrow> 'a heap \<Rightarrow> 'a option" where
  [run_simps]: "read_at p i h = (case slot_at p i h of Some (Live x) \<Rightarrow> Some x | _ \<Rightarrow> None)"

fun destroy_from :: "nat \<Rightarrow> nat \<Rightarrow> nat \<Rightarrow> 'a heap \<Rightarrow> 'a heap option" where
  "destroy_from p i 0 h = Some h"
| "destroy_from p i (Suc n) h = do { h \<leftarrow> destroy_at p i h; destroy_from p (i + 1) n h }"

definition destroy_n :: "nat \<Rightarrow> nat \<Rightarrow> 'a heap \<Rightarrow> 'a heap option" where
  [run_simps]: "destroy_n p n h = destroy_from p 0 n h"

section \<open>A block seen as a list\<close>

text \<open>The heap with the contents of one block replaced.\<close>

abbreviation with_block :: "nat \<Rightarrow> 'a slot list \<Rightarrow> 'a heap \<Rightarrow> 'a heap" where
  "with_block p cells h \<equiv> h\<lparr>blocks := (blocks h)(p \<mapsto> cells)\<rparr>"

definition heap_ok :: "'a heap \<Rightarrow> bool" where
  "heap_ok h \<longleftrightarrow> 0 < fresh h \<and> (\<forall>p. blocks h p \<noteq> None \<longrightarrow> 0 < p \<and> p < fresh h)"

lemma heap_ok_fresh: "heap_ok h \<Longrightarrow> blocks h (fresh h) = None"
  by (auto simp: heap_ok_def)

lemma heap_ok_empty [simp]: "heap_ok empty_heap"
  by (simp add: heap_ok_def empty_heap_def)

lemma constructed_raw [simp]: "constructed (replicate n Raw) = 0"
  by (simp add: constructed_def)

lemma construct_raw:
  "blocks h p = Some cells \<Longrightarrow> i < length cells \<Longrightarrow> cells ! i = Raw \<Longrightarrow>
   construct_at p i x h = Some (with_block p (cells[i := Live x]) h)"
  by (simp add: construct_at_def slot_at_def set_slot_def)

lemma destroy_constructed:
  "blocks h p = Some cells \<Longrightarrow> i < length cells \<Longrightarrow> cells ! i \<noteq> Raw \<Longrightarrow>
   destroy_at p i h = Some (with_block p (cells[i := Raw]) h)"
  by (simp add: destroy_at_def slot_at_def set_slot_def)

lemma destroy_from_block:
  assumes "blocks h p = Some (pre @ cells @ post)" and "Raw \<notin> set cells"
  shows "destroy_from p (length pre) (length cells) h =
    Some (with_block p (pre @ replicate (length cells) Raw @ post) h)"
  using assms
proof (induction cells arbitrary: pre h)
  case Nil
  then have "(blocks h)(p \<mapsto> pre @ post) = blocks h" by (simp add: map_upd_triv)
  then show ?case by simp
next
  case (Cons c cells)
  let ?h = "with_block p ((pre @ [Raw]) @ cells @ post) h"
  have "destroy_at p (length pre) h = Some ?h"
    using Cons.prems by (subst destroy_constructed) (auto simp: nth_append)
  then have "destroy_from p (length pre) (length (c # cells)) h =
      destroy_from p (length (pre @ [Raw])) (length cells) ?h"
    by simp
  also have "\<dots> = Some (with_block p ((pre @ [Raw]) @ replicate (length cells) Raw @ post) ?h)"
    using Cons.prems(2) by (intro Cons.IH) auto
  also have "with_block p ((pre @ [Raw]) @ replicate (length cells) Raw @ post) ?h =
      with_block p (pre @ replicate (length (c # cells)) Raw @ post) h"
    by simp
  finally show ?case .
qed

lemma destroy_n_block:
  assumes "blocks h p = Some (cells @ post)" and "Raw \<notin> set cells" and "n = length cells"
  shows "destroy_n p n h = Some (with_block p (replicate n Raw @ post) h)"
  using destroy_from_block [of h p "[]" cells post] assms by (simp add: destroy_n_def)

lemma destroy_n_0 [simp]: "destroy_n p 0 h = Some h"
  by (simp add: destroy_n_def)

lemma delete_raw:
  "blocks h p = Some cells \<Longrightarrow> p \<noteq> 0 \<Longrightarrow> constructed cells = 0 \<Longrightarrow>
   delete_block p h = Some (h\<lparr>blocks := (blocks h)(p := None)\<rparr>)"
  by (simp add: delete_block_def)

lemma slot_set_slot:
  "slot_at p i (set_slot q j c h) = (if p = q \<and> i = j then map_option (\<lambda>_. c) (slot_at p i h) else slot_at p i h)"
  by (auto simp: slot_at_def set_slot_def nth_list_update split: option.splits)

lemma construct_defined: "(\<exists>h'. construct_at p i x h = Some h') \<longleftrightarrow> slot_at p i h \<noteq> None"
  by (auto simp: construct_at_def split: option.splits)

lemma construct_other_slot:
  "construct_at p i x h = Some h' \<Longrightarrow> q \<noteq> p \<Longrightarrow> slot_at q j h' = slot_at q j h"
  by (auto simp: construct_at_def set_slot_def slot_at_def split: option.splits if_splits)

end
