(* ===== verification/Owner.thy ===== *)
theory Owner
  imports Prelude
begin

text \<open>
  The contract of a component that owns a resource: every operation keeps the link between its
  state and the abstract value it stands for and leaves the rest of the world alone, and the
  destructor gives the world back without the resource. None is undefined behaviour. The lemmas
  follow a whole life, from construction to destruction.
\<close>

fun owner_run :: "('op \<Rightarrow> 's \<Rightarrow> ('r \<times> 's) option) \<Rightarrow> 'op list \<Rightarrow> 's \<Rightarrow> ('r list \<times> 's) option" where
  "owner_run step [] s = Some ([], s)"
| "owner_run step (a # as) s =
     (case step a s of None \<Rightarrow> None
      | Some (r, s') \<Rightarrow> map_option (\<lambda>(rs, s''). (r # rs, s'')) (owner_run step as s'))"

text \<open>The abstract value after a run, from the operations and the answers they gave.\<close>

fun replay :: "('op \<Rightarrow> 'r \<Rightarrow> 'v \<Rightarrow> 'v) \<Rightarrow> 'op list \<Rightarrow> 'r list \<Rightarrow> 'v \<Rightarrow> 'v" where
  "replay upd (a # as) (r # rs) x = replay upd as rs (upd a r x)"
| "replay upd _ _ x = x"

text \<open>Every answer of a run is one the abstract value allows.\<close>

fun allowed_run :: "('op \<Rightarrow> 'r \<Rightarrow> 'v \<Rightarrow> bool) \<Rightarrow> ('op \<Rightarrow> 'r \<Rightarrow> 'v \<Rightarrow> 'v) \<Rightarrow> 'op list \<Rightarrow> 'r list \<Rightarrow> 'v \<Rightarrow> bool" where
  "allowed_run ok upd [] [] x = True"
| "allowed_run ok upd (a # as) (r # rs) x = (ok a r x \<and> allowed_run ok upd as rs (upd a r x))"
| "allowed_run ok upd _ _ x = False"

locale owner =
  fixes rep :: "'v \<Rightarrow> 's \<Rightarrow> bool"
    and outside :: "'s \<Rightarrow> 'w"
    and step :: "'op \<Rightarrow> 's \<Rightarrow> ('r \<times> 's) option"
    and upd :: "'op \<Rightarrow> 'r \<Rightarrow> 'v \<Rightarrow> 'v"
    and answer :: "'op \<Rightarrow> 'r \<Rightarrow> 'v \<Rightarrow> bool"
    and finish :: "'s \<Rightarrow> 'w option"
  assumes step_owns: "rep x s \<Longrightarrow> \<exists>r s'. step a s = Some (r, s') \<and> rep (upd a r x) s' \<and>
      answer a r x \<and> outside s' = outside s"
    and finish_owns: "rep x s \<Longrightarrow> finish s = Some (outside s)"
begin

lemma run_owns:
  "rep x s \<Longrightarrow> \<exists>rs s'. owner_run step as s = Some (rs, s') \<and> rep (replay upd as rs x) s' \<and>
     allowed_run answer upd as rs x \<and> outside s' = outside s"
proof (induction as arbitrary: x s)
  case (Cons a as)
  obtain r s' where step: "step a s = Some (r, s')" "rep (upd a r x) s'" "answer a r x" "outside s' = outside s"
    using step_owns [OF Cons.prems, of a] by blast
  then show ?case using Cons.IH [OF step(2)] by force
qed simp

lemma life_owns:
  assumes "rep x s"
  shows "\<exists>rs s'. owner_run step as s = Some (rs, s') \<and> rep (replay upd as rs x) s' \<and>
    allowed_run answer upd as rs x \<and> finish s' = Some (outside s)"
  using run_owns [OF assms, of as] finish_owns by metis

end

end
