(* ===== verification/Vector.thy ===== *)
theory Vector
  imports ObjectHeap Owner
begin

text \<open>
  The growing array of include/quick/structs/Vector.hh over the raw storage of ObjectHeap: the
  three members, the reallocation with its exception path, and every operation. What depends on
  the element type and on the allocator is a parameter: the size of an element, whether
  std::move_if_noexcept moves or copies it, on which values its copy and its move constructor
  throw, what its default constructor makes (None when it throws), and which requests operator
  new grants.
\<close>

section \<open>State\<close>

record 'a elem_env =
  sizeof_elem :: u64
  by_move :: bool
  copy_throws :: "'a \<Rightarrow> bool"
  move_throws :: "'a \<Rightarrow> bool"
  dflt :: "nat \<Rightarrow> 'a option"
  granted :: "u64 \<Rightarrow> bool"

record vec =
  m_size :: u64
  m_cap :: u64
  p_arr :: nat

datatype vec_error = Bad_alloc | Element_threw | Out_of_range

text \<open>An operation's result: its value or the exception that leaves it, the vector and the heap.\<close>

type_synonym ('a, 'r) vec_result = "((vec_error + 'r) \<times> vec \<times> 'a heap) option"

section \<open>Storage\<close>

text \<open>The number of bytes is computed in 64 bits; the block has the elements that fit in it.\<close>

definition allocate :: "'a elem_env \<Rightarrow> u64 \<Rightarrow> 'a heap \<Rightarrow> (vec_error + nat) \<times> 'a heap" where
  [run_simps]: "allocate E alloc_size h =
     (if alloc_size = 0 then (Inr 0, h)
      else
        (let bytes = sizeof_elem E * alloc_size
         in if granted E bytes
            then (case new_block (unat bytes div unat (sizeof_elem E)) h of (p, h) \<Rightarrow> (Inr p, h))
            else (Inl Bad_alloc, h)))"

definition reloc_throws :: "'a elem_env \<Rightarrow> 'a \<Rightarrow> bool" where
  [run_simps]: "reloc_throws E x = (if by_move E then move_throws E x else copy_throws E x)"

text \<open>
  The loop that fills the new array, from element i on with k to go. It stops at the element
  whose construction throws; a moved source is left moved-from, also when the move threw.
\<close>

fun move_elements :: "'a elem_env \<Rightarrow> nat \<Rightarrow> nat \<Rightarrow> nat \<Rightarrow> nat \<Rightarrow> 'a heap \<Rightarrow> (nat option \<times> 'a heap) option" where
  "move_elements E new_arr old_arr i 0 h = Some (None, h)"
| "move_elements E new_arr old_arr i (Suc k) h = do {
     x \<leftarrow> read_at old_arr i h;
     let h = (if by_move E then set_slot old_arr i MovedFrom h else h);
     if reloc_throws E x then Some (Some i, h)
     else do { h \<leftarrow> construct_at new_arr i x h; move_elements E new_arr old_arr (i + 1) k h } }"

definition grow_capacity :: "'a elem_env \<Rightarrow> u64 \<Rightarrow> vec \<Rightarrow> 'a heap \<Rightarrow> ('a, unit) vec_result" where
  [run_simps]: "grow_capacity E new_cap v h =
     (case allocate E new_cap h of
        (Inl e, h) \<Rightarrow> Some (Inl e, v, h)
      | (Inr new_arr, h) \<Rightarrow> do {
          (threw, h) \<leftarrow> move_elements E new_arr (p_arr v) 0 (unat (m_size v)) h;
          case threw of
            Some i \<Rightarrow> do {
              h \<leftarrow> destroy_n new_arr i h;
              h \<leftarrow> delete_block new_arr h;
              Some (Inl Element_threw, v, h) }
          | None \<Rightarrow> do {
              h \<leftarrow> destroy_n (p_arr v) (unat (m_size v)) h;
              h \<leftarrow> delete_block (p_arr v) h;
              Some (Inr (), v\<lparr>p_arr := new_arr, m_cap := new_cap\<rparr>, h) } })"

section \<open>Construction and destruction\<close>

text \<open>The constructors leave no vector when they throw.\<close>

definition Vector_ctor :: "'a elem_env \<Rightarrow> 'a heap \<Rightarrow> ((vec_error + vec) \<times> 'a heap) option" where
  [run_simps]: "Vector_ctor E h =
     (if granted E (sizeof_elem E)
      then (case new_block 1 h of (p, h) \<Rightarrow> Some (Inr \<lparr>m_size = 0, m_cap = 1, p_arr = p\<rparr>, h))
      else Some (Inl Bad_alloc, h))"

fun default_elements :: "'a elem_env \<Rightarrow> nat \<Rightarrow> nat \<Rightarrow> nat \<Rightarrow> 'a heap \<Rightarrow> (bool \<times> 'a heap) option" where
  "default_elements E arr i 0 h = Some (True, h)"
| "default_elements E arr i (Suc k) h =
     (case dflt E i of None \<Rightarrow> Some (False, h)
      | Some x \<Rightarrow> do { h \<leftarrow> construct_at arr i x h; default_elements E arr (i + 1) k h })"

definition Vector_sized :: "'a elem_env \<Rightarrow> u64 \<Rightarrow> 'a heap \<Rightarrow> ((vec_error + vec) \<times> 'a heap) option" where
  [run_simps]: "Vector_sized E n h =
     (let cap = max 1 n
      in case allocate E cap h of
           (Inl e, h) \<Rightarrow> Some (Inl e, h)
         | (Inr arr, h) \<Rightarrow> do {
             (done, h) \<leftarrow> default_elements E arr 0 (unat n) h;
             Some (if done then Inr \<lparr>m_size = n, m_cap = cap, p_arr = arr\<rparr> else Inl Element_threw, h) })"

definition Vector_dtor :: "vec \<Rightarrow> 'a heap \<Rightarrow> 'a heap option" where
  [run_simps]: "Vector_dtor v h = do { h \<leftarrow> destroy_n (p_arr v) (unat (m_size v)) h; delete_block (p_arr v) h }"

definition destroy_and_free :: "vec \<Rightarrow> 'a heap \<Rightarrow> 'a heap option" where
  [run_simps]: "destroy_and_free v h =
     (if p_arr v \<noteq> 0 then do { h \<leftarrow> destroy_n (p_arr v) (unat (m_size v)) h; delete_block (p_arr v) h } else Some h)"

text \<open>No copy constructor is declared, so the compiler's copies the members.\<close>

definition Vector_copy :: "vec \<Rightarrow> vec" where
  [run_simps]: "Vector_copy v = \<lparr>m_size = m_size v, m_cap = m_cap v, p_arr = p_arr v\<rparr>"

section \<open>Operations\<close>

text \<open>
  The argument push_back binds by reference: a temporary, or an object in a block of the heap.
  The element is forwarded as an rvalue whatever the argument was (std::forward<Element>, not
  std::forward<T>), so the source is moved from.
\<close>

datatype 'a arg = Outside 'a | InBlock nat nat

fun read_arg :: "'a arg \<Rightarrow> 'a heap \<Rightarrow> 'a option" where
  "read_arg (Outside x) h = Some x"
| "read_arg (InBlock p i) h = read_at p i h"

fun moved_arg :: "'a arg \<Rightarrow> 'a heap \<Rightarrow> 'a heap" where
  "moved_arg (Outside x) h = h"
| "moved_arg (InBlock p i) h = set_slot p i MovedFrom h"

text \<open>The two conditional reallocations push_back and emplace_back start with.\<close>

definition ensure_room :: "'a elem_env \<Rightarrow> vec \<Rightarrow> 'a heap \<Rightarrow> ('a, unit) vec_result" where
  [run_simps]: "ensure_room E v h = do {
     (r, v, h) \<leftarrow> (if m_cap v = 1 then grow_capacity E (m_cap v * 3) v h else Some (Inr (), v, h));
     case r of
       Inl e \<Rightarrow> Some (Inl e, v, h)
     | Inr _ \<Rightarrow> if m_size v \<ge> m_cap v then grow_capacity E (m_cap v * 3) v h else Some (Inr (), v, h) }"

definition push_back :: "'a elem_env \<Rightarrow> 'a arg \<Rightarrow> vec \<Rightarrow> 'a heap \<Rightarrow> ('a, unit) vec_result" where
  [run_simps]: "push_back E element v h = do {
     (r, v, h) \<leftarrow> ensure_room E v h;
     case r of
       Inl e \<Rightarrow> Some (Inl e, v, h)
     | Inr _ \<Rightarrow> do {
         x \<leftarrow> read_arg element h;
         let h = moved_arg element h;
         if move_throws E x then Some (Inl Element_threw, v, h)
         else do {
           h \<leftarrow> construct_at (p_arr v) (unat (m_size v)) x h;
           Some (Inr (), v\<lparr>m_size := m_size v + 1\<rparr>, h) } } }"

text \<open>
  The element that emplace_back constructs from its arguments. Those that name an element, or a part
  of one, are references with the category they are forwarded with; they are read when the element
  is constructed, after the reallocation, and an rvalue is moved from. The arguments of other types
  belong to the function mk, which is None when the construction throws.
\<close>

datatype 'a forwarded = Lvalue "'a arg" | Rvalue "'a arg"

fun source :: "'a forwarded \<Rightarrow> 'a arg" where
  "source (Lvalue a) = a"
| "source (Rvalue a) = a"

fun read_args :: "'a forwarded list \<Rightarrow> 'a heap \<Rightarrow> 'a list option" where
  "read_args [] h = Some []"
| "read_args (a # args) h = do { x \<leftarrow> read_arg (source a) h; xs \<leftarrow> read_args args h; Some (x # xs) }"

fun moved_args :: "'a forwarded list \<Rightarrow> 'a heap \<Rightarrow> 'a heap" where
  "moved_args [] h = h"
| "moved_args (Lvalue a # args) h = moved_args args h"
| "moved_args (Rvalue a # args) h = moved_args args (moved_arg a h)"

definition emplace_back :: "'a elem_env \<Rightarrow> ('a list \<Rightarrow> 'a option) \<Rightarrow> 'a forwarded list \<Rightarrow> vec \<Rightarrow> 'a heap \<Rightarrow> ('a, unit) vec_result" where
  [run_simps]: "emplace_back E mk args v h = do {
     (r, v, h) \<leftarrow> ensure_room E v h;
     case r of
       Inl e \<Rightarrow> Some (Inl e, v, h)
     | Inr _ \<Rightarrow> do {
         xs \<leftarrow> read_args args h;
         let h = moved_args args h;
         case mk xs of
           None \<Rightarrow> Some (Inl Element_threw, v, h)
         | Some x \<Rightarrow> do {
             h \<leftarrow> construct_at (p_arr v) (unat (m_size v)) x h;
             Some (Inr (), v\<lparr>m_size := m_size v + 1\<rparr>, h) } } }"

definition at_index :: "u64 \<Rightarrow> vec \<Rightarrow> 'a heap \<Rightarrow> ('a, 'a) vec_result" where
  [run_simps]: "at_index index v h =
     (if index \<ge> m_size v then Some (Inl Out_of_range, v, h)
      else do { x \<leftarrow> read_at (p_arr v) (unat index) h; Some (Inr x, v, h) })"

definition subscript :: "u64 \<Rightarrow> vec \<Rightarrow> 'a heap \<Rightarrow> 'a option" where
  [run_simps]: "subscript pos v h = read_at (p_arr v) (unat pos) h"

definition size_of :: "vec \<Rightarrow> u64" where
  [run_simps]: "size_of v = m_size v"

definition capacity :: "vec \<Rightarrow> u64" where
  [run_simps]: "capacity v = m_cap v"

definition shrink_to_fit :: "'a elem_env \<Rightarrow> vec \<Rightarrow> 'a heap \<Rightarrow> ('a, unit) vec_result" where
  [run_simps]: "shrink_to_fit E v h =
     (if m_cap v > m_size v then grow_capacity E (m_size v) v h else Some (Inr (), v, h))"

definition resize :: "u64 \<Rightarrow> vec \<Rightarrow> vec" where
  [run_simps]: "resize new_cap v = v\<lparr>m_cap := new_cap\<rparr>"

definition pop_back :: "vec \<Rightarrow> 'a heap \<Rightarrow> (vec \<times> 'a heap) option" where
  [run_simps]: "pop_back v h =
     (if m_size v = 0 then Some (v, h)
      else
        (let v = v\<lparr>m_size := m_size v - 1\<rparr>
         in do { h \<leftarrow> destroy_at (p_arr v) (unat (m_size v)) h; Some (v, h) }))"

section \<open>What a vector holds\<close>

text \<open>
  The allocator grants no request above 2^62 bytes, and an element that is moved on reallocation
  is one whose move does not throw; std::move_if_noexcept moves a throwing type only when it
  cannot be copied.
\<close>

definition env_ok :: "'a elem_env \<Rightarrow> bool" where
  "env_ok E \<longleftrightarrow> sizeof_elem E \<noteq> 0 \<and> (\<forall>b. granted E b \<longrightarrow> unat b \<le> 2 ^ 62) \<and>
     (by_move E \<longrightarrow> (\<forall>x. \<not> move_throws E x))"

definition cells_of :: "'a list \<Rightarrow> nat \<Rightarrow> 'a slot list" where
  "cells_of xs n = map Live xs @ replicate (n - length xs) Raw"

definition holds :: "'a elem_env \<Rightarrow> 'a list \<Rightarrow> vec \<Rightarrow> 'a heap \<Rightarrow> bool" where
  "holds E xs v h \<longleftrightarrow> heap_ok h \<and> p_arr v \<noteq> 0 \<and> m_cap v \<noteq> 0 \<and>
     unat (sizeof_elem E) * unat (m_cap v) \<le> 2 ^ 62 \<and>
     length xs = unat (m_size v) \<and> unat (m_size v) \<le> unat (m_cap v) \<and>
     blocks h (p_arr v) = Some (cells_of xs (unat (m_cap v)))"

text \<open>The heap without the vector's block.\<close>

definition rest :: "vec \<Rightarrow> 'a heap \<Rightarrow> (nat \<Rightarrow> 'a slot list option) \<times> nat" where
  "rest v h = ((blocks h)(p_arr v := None), lost h)"

lemma cells_of_simps [simp]:
  "length xs \<le> n \<Longrightarrow> length (cells_of xs n) = n"
  "i < length xs \<Longrightarrow> cells_of xs n ! i = Live (xs ! i)"
  "length xs < n \<Longrightarrow> cells_of xs n ! length xs = Raw"
  by (simp_all add: cells_of_def nth_append)

lemma cells_of_snoc: "length xs < n \<Longrightarrow> (cells_of xs n)[length xs := Live x] = cells_of (xs @ [x]) n"
  by (simp add: cells_of_def list_update_append Suc_diff_Suc [symmetric])

lemma cells_of_butlast:
  assumes "xs \<noteq> []" and "length xs \<le> n"
  shows "(cells_of xs n)[length xs - 1 := Raw] = cells_of (butlast xs) n"
proof -
  obtain ys y where xs: "xs = ys @ [y]" using assms(1) by (metis rev_exhaust)
  then show ?thesis
    using assms(2) by (simp add: cells_of_def list_update_append replicate_app_Cons_same flip: replicate_Suc Suc_diff_Suc)
qed

section \<open>Reallocation\<close>

lemma unat_mult_fit: "unat x * unat y < 2 ^ 64 \<Longrightarrow> unat (x * y) = unat x * unat (y :: u64)"
  by (simp add: unat_word_ariths)

lemma allocate_fit:
  assumes "env_ok E" and "n \<noteq> 0" and "unat (sizeof_elem E) * unat n < 2 ^ 64"
  shows "allocate E n h =
    (if granted E (sizeof_elem E * n)
     then (Inr (fresh h), h\<lparr>blocks := (blocks h)(fresh h \<mapsto> replicate (unat n) Raw), fresh := fresh h + 1\<rparr>)
     else (Inl Bad_alloc, h))"
proof -
  have "0 < unat (sizeof_elem E)" using assms(1) by (simp add: env_ok_def unat_gt_0)
  then show ?thesis
    using assms(2) by (simp add: allocate_def new_block_def unat_mult_fit [OF assms(3)])
qed

text \<open>The old array while its first i elements have been taken.\<close>

definition taken :: "'a elem_env \<Rightarrow> 'a list \<Rightarrow> 'a list \<Rightarrow> 'a slot list" where
  "taken E xs ys = (if by_move E then replicate (length xs) MovedFrom else map Live xs) @ map Live ys"

lemma taken_simps:
  "length (taken E xs ys) = length xs + length ys"
  "taken E xs (y # ys) ! length xs = Live y"
  "by_move E \<Longrightarrow> (taken E xs (y # ys))[length xs := MovedFrom] = taken E (xs @ [y]) ys"
  "\<not> by_move E \<Longrightarrow> taken E xs (y # ys) = taken E (xs @ [y]) ys"
  "Raw \<notin> set (taken E xs ys)"
  by (auto simp: taken_def nth_append list_update_append replicate_append_same)

lemma move_elements_step:
  assumes "blocks h old = Some (taken E pre (x # xs) @ post)"
  shows "\<not> by_move E \<Longrightarrow> reloc_throws E x \<Longrightarrow>
      move_elements E new old (length pre) (Suc k) h = Some (Some (length pre), h)"
    and "\<not> reloc_throws E x \<Longrightarrow> move_elements E new old (length pre) (Suc k) h =
      do { h \<leftarrow> construct_at new (length pre) x (with_block old (taken E (pre @ [x]) xs @ post) h);
           move_elements E new old (length (pre @ [x])) k h }"
proof -
  have slot: "read_at old (length pre) h = Some x"
    using assms by (simp add: read_at_def slot_at_def nth_append taken_simps)
  have same: "with_block old (taken E pre (x # xs) @ post) h = h"
    using assms by (cases h) (simp add: map_upd_triv)
  show "move_elements E new old (length pre) (Suc k) h = Some (Some (length pre), h)"
    if "\<not> by_move E" "reloc_throws E x"
    using that by (simp add: slot)
  show "move_elements E new old (length pre) (Suc k) h =
      do { h \<leftarrow> construct_at new (length pre) x (with_block old (taken E (pre @ [x]) xs @ post) h);
           move_elements E new old (length (pre @ [x])) k h }" if "\<not> reloc_throws E x"
  proof (cases "by_move E")
    case True
    then show ?thesis
      using that assms by (simp add: slot set_slot_def list_update_append taken_simps)
  next
    case False
    then show ?thesis
      using that same by (simp add: slot flip: taken_simps(4))
  qed
qed

text \<open>The loop: all the elements arrive, or those before the first whose copy throws.\<close>

lemma move_elements_all:
  assumes "blocks h old = Some (taken E pre xs @ post)" and "old \<noteq> new"
    and "blocks h new = Some (cells_of pre n)" and "length pre + length xs \<le> n"
    and "\<forall>x\<in>set xs. \<not> reloc_throws E x"
  shows "move_elements E new old (length pre) (length xs) h =
    Some (None, with_block new (cells_of (pre @ xs) n) (with_block old (taken E (pre @ xs) [] @ post) h))"
  using assms
proof (induction xs arbitrary: pre h)
  case Nil
  then have "(blocks h)(old \<mapsto> taken E pre [] @ post) = blocks h" "(blocks h)(new \<mapsto> cells_of pre n) = blocks h"
    by (simp_all add: map_upd_triv)
  then show ?case by simp
next
  case (Cons x xs)
  let ?h1 = "with_block old (taken E (pre @ [x]) xs @ post) h"
  let ?h2 = "with_block new (cells_of (pre @ [x]) n) ?h1"
  have "construct_at new (length pre) x ?h1 = Some (with_block new ((cells_of pre n)[length pre := Live x]) ?h1)"
    using Cons.prems by (intro construct_raw) auto
  then have step: "move_elements E new old (length pre) (length (x # xs)) h =
      move_elements E new old (length (pre @ [x])) (length xs) ?h2"
    using Cons.prems by (subst length_Cons, subst move_elements_step(2) [OF Cons.prems(1)]) (auto simp: cells_of_snoc)
  also have "move_elements E new old (length (pre @ [x])) (length xs) ?h2 =
      Some (None, with_block new (cells_of ((pre @ [x]) @ xs) n)
        (with_block old (taken E ((pre @ [x]) @ xs) [] @ post) ?h2))"
    using Cons.prems by (intro Cons.IH) auto
  also have "with_block new (cells_of ((pre @ [x]) @ xs) n) (with_block old (taken E ((pre @ [x]) @ xs) [] @ post) ?h2) =
      with_block new (cells_of (pre @ x # xs) n) (with_block old (taken E (pre @ x # xs) [] @ post) h)"
    using \<open>old \<noteq> new\<close> by (simp add: fun_upd_twist)
  finally show ?case .
qed

lemma move_elements_throw:
  assumes "blocks h old = Some (taken E pre xs @ post)" and "old \<noteq> new" and "\<not> by_move E"
    and "blocks h new = Some (cells_of pre n)" and "length pre + length xs \<le> n"
    and "\<exists>x\<in>set xs. reloc_throws E x"
  shows "\<exists>ys. length pre + length ys \<le> n \<and> move_elements E new old (length pre) (length xs) h =
    Some (Some (length (pre @ ys)), with_block new (cells_of (pre @ ys) n) h)"
  using assms
proof (induction xs arbitrary: pre h)
  case (Cons x xs)
  show ?case
  proof (cases "reloc_throws E x")
    case True
    have same: "(blocks h)(new \<mapsto> cells_of pre n) = blocks h"
      using Cons.prems by (simp add: map_upd_triv)
    have "move_elements E new old (length pre) (length (x # xs)) h = Some (Some (length pre), h)"
      unfolding length_Cons using True Cons.prems by (intro move_elements_step(1) [OF Cons.prems(1)])
    then show ?thesis
      using Cons.prems same by (intro exI [of _ "[]"]) (simp del: move_elements.simps)
  next
    case False
    have "with_block old (taken E (pre @ [x]) xs @ post) h = h"
      using Cons.prems by (simp add: map_upd_triv flip: taken_simps(4))
    moreover have "construct_at new (length pre) x h = Some (with_block new (cells_of (pre @ [x]) n) h)"
      using Cons.prems by (subst construct_raw) (auto simp: cells_of_snoc)
    ultimately have step: "move_elements E new old (length pre) (length (x # xs)) h =
        move_elements E new old (length (pre @ [x])) (length xs) (with_block new (cells_of (pre @ [x]) n) h)"
      unfolding length_Cons move_elements_step(2) [OF Cons.prems(1) False] by simp
    have "\<exists>ys. length (pre @ [x]) + length ys \<le> n \<and>
        move_elements E new old (length (pre @ [x])) (length xs) (with_block new (cells_of (pre @ [x]) n) h) =
        Some (Some (length ((pre @ [x]) @ ys)), with_block new (cells_of ((pre @ [x]) @ ys) n) (with_block new (cells_of (pre @ [x]) n) h))"
      using Cons.prems False by (intro Cons.IH) (auto simp flip: taken_simps(4))
    then obtain ys where "length pre + length (x # ys) \<le> n"
      "move_elements E new old (length (pre @ [x])) (length xs) (with_block new (cells_of (pre @ [x]) n) h) =
        Some (Some (length (pre @ x # ys)), with_block new (cells_of (pre @ x # ys) n) h)"
      by auto
    then show ?thesis unfolding step by blast
  qed
qed simp

lemma holds_old:
  assumes "holds E xs v h"
  shows "blocks h (p_arr v) = Some (taken E [] xs @ replicate (unat (m_cap v) - length xs) Raw)"
    and "p_arr v \<noteq> fresh h" and "blocks h (fresh h) = None"
  using assms heap_ok_fresh [of h] by (auto simp: holds_def cells_of_def taken_def)

lemma holds_frame:
  assumes "holds E xs v h" and "rest v h' = rest v h" and "heap_ok h'"
    and "blocks h' (p_arr v) = blocks h (p_arr v)"
  shows "holds E xs v h'"
  using assms by (simp add: holds_def)

lemma grow_moved:
  fixes E :: "'a elem_env"
  assumes "env_ok E" and "holds E xs v h" and "new_cap \<noteq> 0" and "m_size v \<le> new_cap"
    and "unat (sizeof_elem E) * unat new_cap < 2 ^ 64"
    and "granted E (sizeof_elem E * new_cap)" and "\<forall>x\<in>set xs. \<not> reloc_throws E x"
  shows "\<exists>h'. grow_capacity E new_cap v h = Some (Inr (), v\<lparr>p_arr := fresh h, m_cap := new_cap\<rparr>, h') \<and>
    holds E xs (v\<lparr>p_arr := fresh h, m_cap := new_cap\<rparr>) h' \<and>
    rest (v\<lparr>p_arr := fresh h, m_cap := new_cap\<rparr>) h' = rest v h"
proof -
  let ?new = "fresh h" and ?old = "p_arr v" and ?n = "unat new_cap"
  let ?post = "replicate (unat (m_cap v) - length xs) Raw"
  let ?h1 = "h\<lparr>blocks := (blocks h)(?new \<mapsto> replicate ?n Raw), fresh := ?new + 1\<rparr>"
  have len: "length xs = unat (m_size v)" "length xs \<le> ?n" and old: "?old \<noteq> 0"
    using assms(2,4) by (auto simp: holds_def word_le_nat_alt)
  note ho = holds_old [OF assms(2)]
  let ?h2 = "with_block ?new (cells_of xs ?n) (with_block ?old (taken E xs [] @ ?post) ?h1)"
  have "move_elements E ?new ?old (length ([] :: 'a list)) (length xs) ?h1 =
      Some (None, with_block ?new (cells_of ([] @ xs) ?n) (with_block ?old (taken E ([] @ xs) [] @ ?post) ?h1))"
    by (rule move_elements_all [where h = ?h1 and pre = "[]"]) (use ho len assms(7) in \<open>auto simp: cells_of_def\<close>)
  then have move: "move_elements E ?new ?old 0 (unat (m_size v)) ?h1 = Some (None, ?h2)"
    using len by simp
  let ?h3 = "with_block ?old (replicate (length xs) Raw @ ?post) ?h2"
  have destroy: "destroy_n ?old (unat (m_size v)) ?h2 = Some (with_block ?old (replicate (unat (m_size v)) Raw @ ?post) ?h2)"
    by (rule destroy_n_block) (use ho len in \<open>auto simp: taken_simps\<close>)
  have delete: "delete_block ?old ?h3 = Some (?h3\<lparr>blocks := (blocks ?h3)(?old := None)\<rparr>)"
    by (rule delete_raw) (use old in \<open>auto simp: constructed_def\<close>)
  let ?h' = "?h3\<lparr>blocks := (blocks ?h3)(?old := None)\<rparr>"
  have "grow_capacity E new_cap v h = Some (Inr (), v\<lparr>p_arr := ?new, m_cap := new_cap\<rparr>, ?h')"
    using allocate_fit [OF assms(1,3,5), of h] assms(6) move destroy delete len
    by (simp add: grow_capacity_def)
  moreover have "heap_ok ?h'" using assms(2) by (auto simp: holds_def heap_ok_def)
  moreover have "unat (sizeof_elem E) * ?n \<le> 2 ^ 62"
    using assms(1,6) by (auto simp: env_ok_def simp flip: unat_mult_fit [OF assms(5)])
  ultimately show ?thesis
    using ho len assms(2,3,4) old
    by (intro exI [of _ ?h']) (auto simp: holds_def rest_def heap_ok_def word_le_nat_alt fun_eq_iff)
qed

lemma grow_refused:
  assumes "env_ok E" and "new_cap \<noteq> 0"
    and "unat (sizeof_elem E) * unat new_cap < 2 ^ 64" and "\<not> granted E (sizeof_elem E * new_cap)"
  shows "grow_capacity E new_cap v h = Some (Inl Bad_alloc, v, h)"
  using allocate_fit [OF assms(1-3)] assms(4) by (simp add: grow_capacity_def)

lemma grow_threw:
  fixes E :: "'a elem_env"
  assumes "env_ok E" and "holds E xs v h" and "new_cap \<noteq> 0" and "m_size v \<le> new_cap"
    and "unat (sizeof_elem E) * unat new_cap < 2 ^ 64"
    and "granted E (sizeof_elem E * new_cap)" and "\<exists>x\<in>set xs. reloc_throws E x"
  shows "grow_capacity E new_cap v h = Some (Inl Element_threw, v, h\<lparr>fresh := fresh h + 1\<rparr>)"
proof -
  let ?new = "fresh h" and ?old = "p_arr v" and ?n = "unat new_cap"
  let ?h1 = "h\<lparr>blocks := (blocks h)(?new \<mapsto> replicate ?n Raw), fresh := ?new + 1\<rparr>"
  have len: "length xs = unat (m_size v)" "length xs \<le> ?n" and new: "?new \<noteq> 0"
    using assms(2,4) by (auto simp: holds_def word_le_nat_alt heap_ok_def)
  note ho = holds_old [OF assms(2)]
  have "\<not> by_move E" using assms(1,7) by (auto simp: env_ok_def reloc_throws_def)
  then have "\<exists>ys. length ([] :: 'a list) + length ys \<le> ?n \<and> move_elements E ?new ?old (length ([] :: 'a list)) (length xs) ?h1 =
      Some (Some (length ([] @ ys)), with_block ?new (cells_of ([] @ ys) ?n) ?h1)"
    by (intro move_elements_throw [where h = ?h1 and pre = "[]"]) (use ho len assms(7) in \<open>auto simp: cells_of_def\<close>)
  then obtain ys where ys: "length ys \<le> ?n"
    and move: "move_elements E ?new ?old 0 (unat (m_size v)) ?h1 =
      Some (Some (length ys), with_block ?new (cells_of ys ?n) ?h1)"
    using len by auto
  let ?h2 = "with_block ?new (cells_of ys ?n) ?h1"
  let ?h3 = "with_block ?new (replicate (length ys) Raw @ replicate (?n - length ys) Raw) ?h2"
  have destroy: "destroy_n ?new (length ys) ?h2 = Some ?h3"
    by (rule destroy_n_block [where cells = "map Live ys"]) (auto simp: cells_of_def)
  have delete: "delete_block ?new ?h3 = Some (?h3\<lparr>blocks := (blocks ?h3)(?new := None)\<rparr>)"
    by (rule delete_raw) (use new in \<open>auto simp: constructed_def\<close>)
  have "(blocks h)(?new := None) = blocks h" using ho(3) by (simp add: fun_upd_idem)
  then have "?h3\<lparr>blocks := (blocks ?h3)(?new := None)\<rparr> = h\<lparr>fresh := fresh h + 1\<rparr>" by simp
  then show ?thesis
    using allocate_fit [OF assms(1,3,5), of h] assms(6) move destroy delete
    by (simp add: grow_capacity_def)
qed

text \<open>
  A reallocation answers, and keeps the elements whatever it answers: the strong guarantee of
  its try block.
\<close>

definition growth_answer :: "'a elem_env \<Rightarrow> u64 \<Rightarrow> 'a list \<Rightarrow> vec \<Rightarrow> vec_error + unit \<Rightarrow> vec \<Rightarrow> bool" where
  "growth_answer E new_cap xs v r v' \<longleftrightarrow>
     (case r of
        Inl Bad_alloc \<Rightarrow> v' = v \<and> \<not> granted E (sizeof_elem E * new_cap)
      | Inl Element_threw \<Rightarrow> v' = v \<and> (\<exists>x\<in>set xs. reloc_throws E x)
      | Inl Out_of_range \<Rightarrow> False
      | Inr _ \<Rightarrow> m_size v' = m_size v \<and> m_cap v' = new_cap \<and> p_arr v' \<noteq> p_arr v)"

lemma grow_correct:
  assumes "env_ok E" and "holds E xs v h" and "new_cap \<noteq> 0" and "m_size v \<le> new_cap"
    and "unat (sizeof_elem E) * unat new_cap < 2 ^ 64"
  shows "\<exists>r v' h'. grow_capacity E new_cap v h = Some (r, v', h') \<and> holds E xs v' h' \<and>
    rest v' h' = rest v h \<and> growth_answer E new_cap xs v r v'"
proof (cases "granted E (sizeof_elem E * new_cap)")
  case False
  then show ?thesis
    using grow_refused [OF assms(1,3,5)] assms(2) by (auto simp: growth_answer_def)
next
  case True
  show ?thesis
  proof (cases "\<exists>x\<in>set xs. reloc_throws E x")
    case threw: True
    have "holds E xs v (h\<lparr>fresh := fresh h + 1\<rparr>)"
      using assms(2) by (auto simp: holds_def heap_ok_def less_Suc_eq)
    then show ?thesis
      using grow_threw [OF assms True threw] threw by (auto simp: growth_answer_def rest_def)
  next
    case False
    then show ?thesis
      using grow_moved [OF assms True] holds_old(2) [OF assms(2)] by (fastforce simp: growth_answer_def)
  qed
qed

section \<open>Operations on what the vector holds\<close>

lemma holds_block: "holds E xs v h \<Longrightarrow> blocks h (p_arr v) = Some (cells_of xs (unat (m_cap v)))"
  by (simp add: holds_def)

lemma holds_length: "holds E xs v h \<Longrightarrow> length xs \<le> unat (m_cap v)"
  by (simp add: holds_def)

lemma holds_bound: "holds E xs v h \<Longrightarrow> sizeof_elem E \<noteq> 0 \<Longrightarrow> unat (m_cap v) \<le> 2 ^ 62"
proof -
  assume a: "holds E xs v h" "sizeof_elem E \<noteq> 0"
  then have "1 * unat (m_cap v) \<le> unat (sizeof_elem E) * unat (m_cap v)"
    by (intro mult_right_mono) (simp_all add: Suc_le_eq unat_gt_0)
  also have "\<dots> \<le> 2 ^ 62" using a(1) by (simp add: holds_def)
  finally show ?thesis by simp
qed

lemma triple:
  assumes "env_ok E" and "holds E xs v h"
  shows "unat (m_cap v * 3) = 3 * unat (m_cap v)" and "m_cap v * 3 \<noteq> 0"
    and "unat (sizeof_elem E) * unat (m_cap v * 3) < 2 ^ 64"
proof -
  have b: "unat (m_cap v) \<le> 2 ^ 62"
    using holds_bound [OF assms(2)] assms(1) by (simp add: env_ok_def)
  then have "unat (m_cap v) * unat (3 :: u64) < 2 ^ 64" by simp
  then show t: "unat (m_cap v * 3) = 3 * unat (m_cap v)" by (simp add: unat_mult_fit)
  have "0 < unat (m_cap v)" using assms(2) by (simp add: holds_def unat_gt_0)
  then show "m_cap v * 3 \<noteq> 0" using t by (metis mult_eq_0_iff nat_less_le unsigned_0 zero_neq_numeral)
  show "unat (sizeof_elem E) * unat (m_cap v * 3) < 2 ^ 64"
    using assms(2) by (simp add: t holds_def)
qed

lemma ensure_room_correct:
  assumes "env_ok E" and "holds E xs v h"
  shows "\<exists>r v' h'. ensure_room E v h = Some (r, v', h') \<and> holds E xs v' h' \<and> rest v' h' = rest v h \<and>
    (growth_answer E (m_cap v * 3) xs v r v' \<or> r = Inr () \<and> v' = v) \<and>
    (r = Inr () \<longrightarrow> m_size v' < m_cap v')"
proof -
  note t = triple [OF assms]
  have size: "m_size v \<le> m_cap v" using assms(2) by (simp add: holds_def word_le_nat_alt)
  then have le: "m_size v \<le> m_cap v * 3" by (simp add: word_le_nat_alt t(1))
  have room: "m_size v < m_cap v * 3"
  proof -
    have "0 < unat (m_cap v)" using assms(2) by (simp add: holds_def unat_gt_0)
    then show ?thesis using size t(1) by (simp add: word_le_nat_alt word_less_nat_alt)
  qed
  obtain r v' h' where g: "grow_capacity E (m_cap v * 3) v h = Some (r, v', h')" "holds E xs v' h'"
    "rest v' h' = rest v h" "growth_answer E (m_cap v * 3) xs v r v'"
    using grow_correct [OF assms t(2) le t(3)] by blast
  have after: "r = Inr () \<longrightarrow> m_size v' = m_size v \<and> m_cap v' = m_cap v * 3"
    using g(4) by (auto simp: growth_answer_def)
  show ?thesis
  proof (cases "m_cap v = 1")
    case True
    have "ensure_room E v h = Some (r, v', h')"
      using True g(1) after room by (cases r) (auto simp: ensure_room_def not_le)
    then show ?thesis using g after room by auto
  next
    case False
    show ?thesis
    proof (cases "m_cap v \<le> m_size v")
      case True
      then have "ensure_room E v h = Some (r, v', h')" using False g(1) by (simp add: ensure_room_def)
      then show ?thesis using g after room by auto
    next
      case room: False
      then have "ensure_room E v h = Some (Inr (), v, h)" using False by (simp add: ensure_room_def)
      then show ?thesis using assms(2) room by (auto simp: not_le)
    qed
  qed
qed

lemma ensure_room_full:
  "m_cap v \<le> m_size v \<Longrightarrow> grow_capacity E (m_cap v * 3) v h = Some (Inr (), v', h') \<Longrightarrow>
   \<not> m_cap v' \<le> m_size v' \<Longrightarrow> ensure_room E v h = Some (Inr (), v', h')"
  by (cases "m_cap v = 1") (simp_all add: ensure_room_def)

lemma construct_back:
  assumes "holds E xs v h" and "m_size v < m_cap v"
  shows "\<exists>h'. construct_at (p_arr v) (unat (m_size v)) x h = Some h' \<and>
    holds E (xs @ [x]) (v\<lparr>m_size := m_size v + 1\<rparr>) h' \<and> rest (v\<lparr>m_size := m_size v + 1\<rparr>) h' = rest v h"
proof -
  have lt: "length xs < unat (m_cap v)" and len: "length xs = unat (m_size v)"
    using assms by (simp_all add: holds_def word_less_nat_alt)
  then have "unat (m_size v + 1) = Suc (unat (m_size v))"
    using unat_lt64 [of "m_cap v"] by (simp add: unat_word_ariths)
  let ?h' = "with_block (p_arr v) (cells_of (xs @ [x]) (unat (m_cap v))) h"
  have "construct_at (p_arr v) (length xs) x h = Some ?h'"
    using holds_block [OF assms(1)] lt by (subst construct_raw) (auto simp: cells_of_snoc)
  then show ?thesis
    using assms(1) lt len \<open>unat (m_size v + 1) = _\<close>
    by (intro exI [of _ ?h']) (auto simp: holds_def rest_def heap_ok_def)
qed

text \<open>
  What push_back and emplace_back may answer, where bad tells that the construction of the new
  element throws.
\<close>

definition push_answer :: "'a elem_env \<Rightarrow> 'a list \<Rightarrow> bool \<Rightarrow> vec \<Rightarrow> vec_error + unit \<Rightarrow> bool" where
  "push_answer E xs bad v r \<longleftrightarrow>
     (case r of
        Inl Bad_alloc \<Rightarrow> \<not> granted E (sizeof_elem E * (m_cap v * 3))
      | Inl Element_threw \<Rightarrow> bad \<or> (\<exists>y\<in>set xs. reloc_throws E y)
      | Inl Out_of_range \<Rightarrow> False
      | Inr _ \<Rightarrow> \<not> bad)"

text \<open>References to objects that are not in the array of the vector, through a reallocation and a move.\<close>

fun separate :: "vec \<Rightarrow> 'a arg \<Rightarrow> bool" where
  "separate v (Outside x) \<longleftrightarrow> True"
| "separate v (InBlock q i) \<longleftrightarrow> q \<noteq> p_arr v"

definition all_separate :: "vec \<Rightarrow> 'a forwarded list \<Rightarrow> bool" where
  "all_separate v args \<longleftrightarrow> (\<forall>a\<in>set args. separate v (source a))"

lemma all_separate_simps [simp]:
  "all_separate v []" "all_separate v (a # args) \<longleftrightarrow> separate v (source a) \<and> all_separate v args"
  by (auto simp: all_separate_def)

lemma rest_block: "rest v' h' = rest v h \<Longrightarrow> q \<noteq> p_arr v \<Longrightarrow> blocks h q \<noteq> None \<Longrightarrow> q \<noteq> p_arr v' \<and> blocks h' q = blocks h q"
  by (auto simp: rest_def dest: fun_cong [of _ _ q] split: if_splits)

lemma read_arg_kept:
  assumes "rest v' h' = rest v h" and "separate v a" and "read_arg a h = Some x"
  shows "separate v' a \<and> read_arg a h' = Some x"
proof (cases a)
  case (InBlock q i)
  then have "blocks h q \<noteq> None" using assms(3) by (auto simp: read_at_def slot_at_def split: option.splits)
  then show ?thesis using rest_block [OF assms(1)] assms(2,3) InBlock by (auto simp: read_at_def slot_at_def)
qed (use assms in simp)

lemma read_args_kept:
  "rest v' h' = rest v h \<Longrightarrow> all_separate v args \<Longrightarrow> read_args args h = Some xs \<Longrightarrow>
   all_separate v' args \<and> read_args args h' = Some xs"
  by (induction args arbitrary: xs) (auto dest: read_arg_kept split: bind_splits)

lemma moved_arg_holds: "holds E xs v h \<Longrightarrow> separate v a \<Longrightarrow> holds E xs v (moved_arg a h)"
  by (cases a) (auto simp: holds_def set_slot_def heap_ok_def)

lemma moved_args_holds: "holds E xs v h \<Longrightarrow> all_separate v args \<Longrightarrow> holds E xs v (moved_args args h)"
  by (induction args h rule: moved_args.induct) (auto intro: moved_arg_holds)

lemma moved_arg_rest:
  assumes "rest v' h' = rest v h" and "separate v a" and "separate v' a"
  shows "rest v' (moved_arg a h') = rest v (moved_arg a h)"
proof (cases a)
  case (InBlock q i)
  have r: "(blocks h')(p_arr v' := None) = (blocks h)(p_arr v := None)" "lost h' = lost h" using assms(1) by (simp_all add: rest_def)
  have q: "q \<noteq> p_arr v" "q \<noteq> p_arr v'" using assms(2,3) InBlock by simp_all
  then have "blocks h' q = blocks h q" using fun_cong [OF r(1), of q] by simp
  then have "((blocks h')(q := c))(p_arr v' := None) = ((blocks h)(q := c))(p_arr v := None)" for c
    using q r(1) by (simp add: fun_upd_twist [of q])
  then show ?thesis using InBlock r(2) \<open>blocks h' q = _\<close> by (simp add: rest_def set_slot_def)
qed (use assms in simp)

lemma moved_args_rest:
  "rest v' h' = rest v h \<Longrightarrow> all_separate v args \<Longrightarrow> all_separate v' args \<Longrightarrow>
   rest v' (moved_args args h') = rest v (moved_args args h)"
  by (induction args h arbitrary: h' rule: moved_args.induct) (auto intro: moved_arg_rest)

text \<open>What push_back and emplace_back have in common.\<close>

definition append :: "'a elem_env \<Rightarrow> bool \<Rightarrow> 'a \<Rightarrow> 'a forwarded list \<Rightarrow> vec \<Rightarrow> 'a heap \<Rightarrow> ('a, unit) vec_result" where
  "append E bad x args v h = do {
     (r, v, h) \<leftarrow> ensure_room E v h;
     case r of
       Inl e \<Rightarrow> Some (Inl e, v, h)
     | Inr _ \<Rightarrow>
         if bad then Some (Inl Element_threw, v, moved_args args h)
         else do {
           h \<leftarrow> construct_at (p_arr v) (unat (m_size v)) x (moved_args args h);
           Some (Inr (), v\<lparr>m_size := m_size v + 1\<rparr>, h) } }"

text \<open>The rest of the heap is as it was, but for the arguments that were moved from when it came to that.\<close>

definition appended :: "'a elem_env \<Rightarrow> bool \<Rightarrow> 'a list \<Rightarrow> 'a \<Rightarrow> 'a forwarded list \<Rightarrow> vec \<Rightarrow> 'a heap \<Rightarrow> ('a, unit) vec_result \<Rightarrow> bool" where
  "appended E bad xs x args v h res \<longleftrightarrow>
     (\<exists>r v' h'. res = Some (r, v', h') \<and> holds E (case r of Inl _ \<Rightarrow> xs | Inr _ \<Rightarrow> xs @ [x]) v' h' \<and>
        push_answer E xs bad v r \<and>
        (rest v' h' = rest v (moved_args args h) \<or> r \<noteq> Inr () \<and> rest v' h' = rest v h))"

lemma append_holds:
  assumes "env_ok E" and "holds E xs v h" and "all_separate v args" and "read_args args h = Some ys"
  shows "appended E bad xs x args v h (append E bad x args v h)"
proof -
  obtain r v1 h1 where g: "ensure_room E v h = Some (r, v1, h1)" "holds E xs v1 h1" "rest v1 h1 = rest v h"
    "growth_answer E (m_cap v * 3) xs v r v1 \<or> r = Inr () \<and> v1 = v" "r = Inr () \<longrightarrow> m_size v1 < m_cap v1"
    using ensure_room_correct [OF assms(1,2)] by blast
  have sep: "all_separate v1 args" using read_args_kept [OF g(3) assms(3,4)] by blast
  let ?h = "moved_args args h1"
  have h: "holds E xs v1 ?h" "rest v1 ?h = rest v (moved_args args h)"
    using moved_args_holds [OF g(2) sep] moved_args_rest [OF g(3) assms(3) sep] .
  show ?thesis
  proof (cases r)
    case (Inl e)
    then have "append E bad x args v h = Some (Inl e, v1, h1)" by (simp add: append_def g(1))
    moreover have "push_answer E xs bad v (Inl e)"
      using g(4) Inl by (auto simp: growth_answer_def push_answer_def split: vec_error.splits)
    ultimately show ?thesis using g(2,3) by (simp add: appended_def)
  next
    case (Inr u)
    show ?thesis
    proof (cases bad)
      case True
      then have "append E bad x args v h = Some (Inl Element_threw, v1, ?h)" by (simp add: append_def g(1) Inr)
      then show ?thesis using h True by (simp add: appended_def push_answer_def)
    next
      case False
      obtain h' where "construct_at (p_arr v1) (unat (m_size v1)) x ?h = Some h'"
        "holds E (xs @ [x]) (v1\<lparr>m_size := m_size v1 + 1\<rparr>) h'" "rest (v1\<lparr>m_size := m_size v1 + 1\<rparr>) h' = rest v1 ?h"
        using construct_back [OF h(1), of x] g(5) Inr by auto
      then show ?thesis using False h(2) by (simp add: append_def g(1) Inr appended_def push_answer_def)
    qed
  qed
qed

lemma push_back_append:
  assumes "env_ok E" and "holds E xs v h" and "separate v a" and "read_arg a h = Some x"
  shows "push_back E a v h = append E (move_throws E x) x [Rvalue a] v h"
proof -
  obtain r v1 h1 where g: "ensure_room E v h = Some (r, v1, h1)" "rest v1 h1 = rest v h"
    using ensure_room_correct [OF assms(1,2)] by blast
  then show ?thesis
    using read_arg_kept [OF g(2) assms(3,4)] by (cases r) (simp_all add: append_def push_back_def Let_def)
qed

lemma emplace_back_append:
  assumes "env_ok E" and "holds E xs v h" and "all_separate v args" and "read_args args h = Some ys"
  shows "emplace_back E mk args v h = append E (mk ys = None) (the (mk ys)) args v h"
proof -
  obtain r v1 h1 where g: "ensure_room E v h = Some (r, v1, h1)" "rest v1 h1 = rest v h"
    using ensure_room_correct [OF assms(1,2)] by blast
  then show ?thesis
    using read_args_kept [OF g(2) assms(3,4)]
    by (cases r; cases "mk ys") (simp_all add: append_def emplace_back_def Let_def)
qed

lemma push_back_appended:
  assumes "env_ok E" and "holds E xs v h" and "separate v a" and "read_arg a h = Some x"
  shows "appended E (move_throws E x) xs x [Rvalue a] v h (push_back E a v h)"
  unfolding push_back_append [OF assms] by (rule append_holds [OF assms(1,2)]) (use assms in simp_all)

lemma push_back_holds:
  assumes "env_ok E" and "holds E xs v h"
  shows "\<exists>r v' h'. push_back E (Outside x) v h = Some (r, v', h') \<and>
    holds E (case r of Inl _ \<Rightarrow> xs | Inr _ \<Rightarrow> xs @ [x]) v' h' \<and> rest v' h' = rest v h \<and>
    push_answer E xs (move_throws E x) v r"
  using push_back_appended [OF assms, of "Outside x" x] by (auto simp: appended_def)

text \<open>
  References to the vector's own elements. The array they are in is gone when a reallocation has
  taken place, which it does, if it can, when the vector is full.
\<close>

lemma own_array_freed:
  assumes "env_ok E" and "holds E xs v h" and "m_size v = m_cap v" and "ensure_room E v h = Some (Inr (), v1, h1)"
  shows "blocks h1 (p_arr v) = None"
proof -
  have g: "rest v1 h1 = rest v h" "growth_answer E (m_cap v * 3) xs v (Inr ()) v1 \<or> v1 = v" "m_size v1 < m_cap v1"
    using ensure_room_correct [OF assms(1,2)] assms(4) by auto
  then have "p_arr v1 \<noteq> p_arr v" using assms(3) by (auto simp: growth_answer_def)
  then show ?thesis using g(1) by (auto simp: rest_def dest: fun_cong [of _ _ "p_arr v"])
qed

lemma own_array_kept:
  assumes "env_ok E" and "holds E xs v h" and "i < length xs" and "m_size v \<noteq> m_cap v"
  shows "ensure_room E v h = Some (Inr (), v, h)" and "m_size v < m_cap v"
proof -
  show lt: "m_size v < m_cap v" using assms(2,4) by (auto simp: holds_def word_less_nat_alt word_unat_eq_iff)
  have "m_cap v \<noteq> 1" using assms(2,3) lt by (auto simp: holds_def word_less_nat_alt)
  then show "ensure_room E v h = Some (Inr (), v, h)" using lt by (simp add: ensure_room_def not_le [symmetric])
qed

lemma push_own:
  assumes "env_ok E" and "holds E xs v h" and "i < length xs"
  shows "push_back E (InBlock (p_arr v) i) v h = None \<longleftrightarrow>
    m_size v = m_cap v \<and> (\<exists>v1 h1. ensure_room E v h = Some (Inr (), v1, h1))"
proof (cases "m_size v = m_cap v")
  case True
  obtain r v1 h1 where g: "ensure_room E v h = Some (r, v1, h1)" using ensure_room_correct [OF assms(1,2)] by blast
  then show ?thesis
    using True own_array_freed [OF assms(1,2) True, of v1 h1]
    by (cases r) (simp_all add: push_back_def read_at_def slot_at_def)
next
  case False
  note kept = own_array_kept [OF assms False]
  have "read_at (p_arr v) i h = Some (xs ! i)" using assms(2,3) by (simp add: holds_def read_at_def slot_at_def)
  moreover have "slot_at (p_arr v) (unat (m_size v)) h \<noteq> None"
    using construct_back [OF assms(2) kept(2), of "xs ! i"] construct_defined [of "p_arr v" "unat (m_size v)" "xs ! i" h] by auto
  then have "\<exists>h'. construct_at (p_arr v) (unat (m_size v)) (xs ! i) (set_slot (p_arr v) i MovedFrom h) = Some h'"
    unfolding construct_defined slot_set_slot by auto
  ultimately show ?thesis using False kept(1) by (auto simp: push_back_def Let_def)
qed

lemma emplace_own:
  assumes "env_ok E" and "holds E xs v h" and "i < length xs"
  shows "emplace_back E mk [Lvalue (InBlock (p_arr v) i)] v h = None \<longleftrightarrow>
    m_size v = m_cap v \<and> (\<exists>v1 h1. ensure_room E v h = Some (Inr (), v1, h1))"
proof (cases "m_size v = m_cap v")
  case True
  obtain r v1 h1 where g: "ensure_room E v h = Some (r, v1, h1)" using ensure_room_correct [OF assms(1,2)] by blast
  then show ?thesis
    using True own_array_freed [OF assms(1,2) True, of v1 h1]
    by (cases r) (simp_all add: emplace_back_def read_at_def slot_at_def)
next
  case False
  note kept = own_array_kept [OF assms False]
  have "read_at (p_arr v) i h = Some (xs ! i)" using assms(2,3) by (simp add: holds_def read_at_def slot_at_def)
  moreover obtain h' where "construct_at (p_arr v) (unat (m_size v)) (the (mk [xs ! i])) h = Some h'"
    using construct_back [OF assms(2) kept(2)] by blast
  ultimately show ?thesis
    using False kept(1) by (cases "mk [xs ! i]") (simp_all add: emplace_back_def Let_def)
qed

lemma pop_back_holds:
  assumes "holds E xs v h"
  shows "\<exists>v' h'. pop_back v h = Some (v', h') \<and> holds E (butlast xs) v' h' \<and> rest v' h' = rest v h"
proof (cases "m_size v = 0")
  case True
  then have "xs = []" using assms by (simp add: holds_def)
  then show ?thesis using True assms by (simp add: pop_back_def)
next
  case False
  have len: "length xs = unat (m_size v)" "unat (m_size v) \<le> unat (m_cap v)"
    using assms by (simp_all add: holds_def)
  have "0 < unat (m_size v)" using False by (simp add: unat_gt_0)
  then have xs: "xs \<noteq> []" "0 < length xs" using len by auto
  have pred: "unat (m_size v - 1) = length xs - 1" using False len by (simp add: unat_minus_one)
  let ?h' = "with_block (p_arr v) (cells_of (butlast xs) (unat (m_cap v))) h"
  have "destroy_at (p_arr v) (length xs - 1) h = Some ?h'"
    using holds_block [OF assms] holds_length [OF assms] xs less_le_trans [OF diff_less [OF zero_less_one xs(2)] holds_length [OF assms]]
    by (subst destroy_constructed) (auto simp: cells_of_butlast simp del: One_nat_def)
  then have "pop_back v h = Some (v\<lparr>m_size := m_size v - 1\<rparr>, ?h')"
    using False by (simp add: pop_back_def Let_def pred)
  then show ?thesis
    using assms len pred by (auto simp: holds_def rest_def heap_ok_def)
qed

lemma read_holds:
  "holds E xs v h \<Longrightarrow> i < length xs \<Longrightarrow> read_at (p_arr v) i h = Some (xs ! i)"
  by (simp add: holds_def read_at_def slot_at_def)

lemma at_index_holds:
  assumes "holds E xs v h"
  shows "at_index i v h =
    Some (if unat i < length xs then Inr (xs ! unat i) else Inl Out_of_range, v, h)"
  using assms read_holds [OF assms, of "unat i"]
  by (auto simp: at_index_def holds_def word_le_nat_alt not_le)

lemma shrink_holds:
  assumes "env_ok E" and "holds E xs v h" and "xs \<noteq> []"
  shows "\<exists>r v' h'. shrink_to_fit E v h = Some (r, v', h') \<and> holds E xs v' h' \<and> rest v' h' = rest v h \<and>
    (growth_answer E (m_size v) xs v r v' \<or> r = Inr () \<and> m_cap v = m_size v)"
proof (cases "m_cap v > m_size v")
  case True
  have "unat (sizeof_elem E) * unat (m_size v) \<le> unat (sizeof_elem E) * unat (m_cap v)"
    using assms(2) by (simp add: holds_def)
  also have "\<dots> < 2 ^ 64" using assms(2) by (simp add: holds_def)
  finally have fit: "unat (sizeof_elem E) * unat (m_size v) < 2 ^ 64" .
  have "m_size v \<noteq> 0" using assms(2,3) by (auto simp: holds_def)
  from grow_correct [OF assms(1,2) this order_refl fit] True show ?thesis
    by (fastforce simp: shrink_to_fit_def)
next
  case False
  then have "m_cap v = m_size v" using assms(2) by (intro antisym) (simp_all add: holds_def word_le_nat_alt not_less)
  then show ?thesis using assms(2) by (simp add: shrink_to_fit_def)
qed

lemma dtor_holds:
  assumes "holds E xs v h"
  shows "\<exists>h'. Vector_dtor v h = Some h' \<and> (blocks h', lost h') = rest v h"
proof -
  let ?p = "p_arr v"
  let ?cells = "replicate (unat (m_size v)) Raw @ replicate (unat (m_cap v) - length xs) Raw"
  have d: "destroy_n ?p (unat (m_size v)) h = Some (with_block ?p ?cells h)"
    by (rule destroy_n_block [where cells = "map Live xs"])
      (use assms in \<open>auto simp: holds_def cells_of_def\<close>)
  have "delete_block ?p (with_block ?p ?cells h) =
      Some ((with_block ?p ?cells h)\<lparr>blocks := (blocks (with_block ?p ?cells h))(?p := None)\<rparr>)"
    by (rule delete_raw) (use assms in \<open>auto simp: holds_def constructed_def\<close>)
  with d show ?thesis by (simp add: Vector_dtor_def rest_def)
qed

lemma destroy_and_free_holds: "holds E xs v h \<Longrightarrow> destroy_and_free v h = Vector_dtor v h"
  by (simp add: destroy_and_free_def Vector_dtor_def holds_def)

lemma ctor_holds:
  assumes "env_ok E" and "heap_ok h" and "Vector_ctor E h = Some (Inr v, h')"
  shows "holds E [] v h'" and "rest v h' = (blocks h, lost h)"
proof -
  have g: "granted E (sizeof_elem E)" using assms(3) by (auto simp: Vector_ctor_def split: if_splits)
  then have "unat (sizeof_elem E) \<le> 2 ^ 62" using assms(1) by (simp add: env_ok_def)
  moreover have "v = \<lparr>m_size = 0, m_cap = 1, p_arr = fresh h\<rparr>"
    "h' = h\<lparr>blocks := (blocks h)(fresh h \<mapsto> [Raw]), fresh := fresh h + 1\<rparr>"
    using assms(3) g by (simp_all add: Vector_ctor_def new_block_def)
  ultimately show "holds E [] v h'" "rest v h' = (blocks h, lost h)"
    using assms(2) heap_ok_fresh [OF assms(2)]
    by (auto simp: holds_def rest_def heap_ok_def cells_of_def fun_upd_idem)
qed

section \<open>Lives of vectors\<close>

text \<open>A caller's operations; shrinking an empty vector is left out (see the misuses below).\<close>

datatype 'a vec_op = Push 'a | Pop | At u64 | Shrink

fun vec_step :: "'a elem_env \<Rightarrow> 'a vec_op \<Rightarrow> vec \<times> 'a heap \<Rightarrow> ((vec_error + 'a option) \<times> vec \<times> 'a heap) option" where
  "vec_step E (Push x) (v, h) =
     map_option (\<lambda>(r, s). (map_sum id (\<lambda>_. None) r, s)) (push_back E (Outside x) v h)"
| "vec_step E Pop (v, h) = map_option (\<lambda>s. (Inr None, s)) (pop_back v h)"
| "vec_step E (At i) (v, h) = map_option (\<lambda>(r, s). (map_sum id Some r, s)) (at_index i v h)"
| "vec_step E Shrink (v, h) =
     (if m_size v = 0 then Some (Inr None, v, h)
      else map_option (\<lambda>(r, s). (map_sum id (\<lambda>_. None) r, s)) (shrink_to_fit E v h))"

fun vec_upd :: "'a vec_op \<Rightarrow> vec_error + 'a option \<Rightarrow> 'a list \<Rightarrow> 'a list" where
  "vec_upd (Push x) (Inr _) xs = xs @ [x]"
| "vec_upd Pop (Inr _) xs = butlast xs"
| "vec_upd _ _ xs = xs"

fun vec_answer :: "'a elem_env \<Rightarrow> 'a vec_op \<Rightarrow> vec_error + 'a option \<Rightarrow> 'a list \<Rightarrow> bool" where
  "vec_answer E (Push x) r xs = (r = Inr None \<or> r = Inl Bad_alloc \<or> r = Inl Element_threw \<and> (move_throws E x \<or> list_ex (reloc_throws E) xs))"
| "vec_answer E Pop r xs = (r = Inr None)"
| "vec_answer E (At i) r xs = (r = (if unat i < length xs then Inr (Some (xs ! unat i)) else Inl Out_of_range))"
| "vec_answer E Shrink r xs = (r = Inr None \<or> r = Inl Bad_alloc \<or> r = Inl Element_threw \<and> list_ex (reloc_throws E) xs)"

lemma vec_step_holds:
  assumes "env_ok E" and "holds E xs v h"
  shows "\<exists>r v' h'. vec_step E a (v, h) = Some (r, v', h') \<and> holds E (vec_upd a r xs) v' h' \<and>
    vec_answer E a r xs \<and> rest v' h' = rest v h"
proof (cases a)
  case (Push x)
  obtain r v' h' where p: "push_back E (Outside x) v h = Some (r, v', h')"
    "holds E (case r of Inl _ \<Rightarrow> xs | Inr _ \<Rightarrow> xs @ [x]) v' h'" "rest v' h' = rest v h" "push_answer E xs (move_throws E x) v r"
    using push_back_holds [OF assms, of x] by blast
  then show ?thesis
    by (cases r) (auto simp: Push push_answer_def list_ex_iff split: vec_error.splits)
next
  case Pop
  then show ?thesis using pop_back_holds [OF assms(2)] by fastforce
next
  case (At i)
  then show ?thesis using at_index_holds [OF assms(2), of i] assms(2) by simp
next
  case Shrink
  show ?thesis
  proof (cases "m_size v = 0")
    case True
    then show ?thesis using Shrink assms(2) by simp
  next
    case False
    then have "xs \<noteq> []" using assms(2) by (auto simp: holds_def unat_eq_zero)
    then obtain r v' h' where "shrink_to_fit E v h = Some (r, v', h')" "holds E xs v' h'" "rest v' h' = rest v h"
      "growth_answer E (m_size v) xs v r v' \<or> r = Inr () \<and> m_cap v = m_size v"
      using shrink_holds [OF assms] by blast
    then show ?thesis
      using False by (cases r) (auto simp: Shrink growth_answer_def list_ex_iff split: vec_error.splits)
  qed
qed

definition vec_finish :: "vec \<times> 'a heap \<Rightarrow> ((nat \<Rightarrow> 'a slot list option) \<times> nat) option" where
  "vec_finish = (\<lambda>(v, h). map_option (\<lambda>h. (blocks h, lost h)) (Vector_dtor v h))"

interpretation vector: owner "\<lambda>xs (v, h). env_ok E \<and> holds E xs v h" "\<lambda>(v, h). rest v h" "vec_step E"
    vec_upd "vec_answer E" vec_finish for E
proof unfold_locales
  fix x and s :: "vec \<times> 'a heap" and a
  assume "case s of (v, h) \<Rightarrow> env_ok E \<and> holds E x v h"
  then show "\<exists>r s'. vec_step E a s = Some (r, s') \<and> (case s' of (v, h) \<Rightarrow> env_ok E \<and> holds E (vec_upd a r x) v h) \<and>
      vec_answer E a r x \<and> (case s' of (v, h) \<Rightarrow> rest v h) = (case s of (v, h) \<Rightarrow> rest v h)"
    using vec_step_holds [of E x "fst s" "snd s" a] by (cases s) fastforce
next
  fix x and s :: "vec \<times> 'a heap"
  assume "case s of (v, h) \<Rightarrow> env_ok E \<and> holds E x v h"
  then show "vec_finish s = Some (case s of (v, h) \<Rightarrow> rest v h)"
    using dtor_holds [of E x "fst s" "snd s"] by (cases s) (auto simp: vec_finish_def)
qed

section \<open>Properties\<close>

text \<open>
  C13: push_back and emplace_back on any well-formed vector. When the arguments are temporaries or
  objects outside the array of the vector, the call returns: it appends the element, or it throws
  and leaves the elements as they were (the strong guarantee), for the reason it names: operator new
  refused three times the capacity, or the construction of one of the elements throws. Nothing else
  on the heap changes, but for arguments that were moved from, and no object is lost. When the
  argument is one of the vector's own elements, the call is undefined exactly if it has moved the
  elements to a new array, which it tries to when the vector is full.
\<close>

theorem push_back_correct:
  assumes "env_ok E" and "holds E xs v h" and "read_arg a h = Some x" and "separate v a"
    and "read_args args h = Some ys" and "all_separate v args"
  shows "appended E (move_throws E x) xs x [Rvalue a] v h (push_back E a v h) \<and>
    appended E (mk ys = None) xs (the (mk ys)) args v h (emplace_back E mk args v h) \<and>
    (\<forall>i<length xs.
       (push_back E (InBlock (p_arr v) i) v h = None \<longleftrightarrow>
          m_size v = m_cap v \<and> (\<exists>v1 h1. ensure_room E v h = Some (Inr (), v1, h1))) \<and>
       (emplace_back E mk [Lvalue (InBlock (p_arr v) i)] v h = None \<longleftrightarrow>
          m_size v = m_cap v \<and> (\<exists>v1 h1. ensure_room E v h = Some (Inr (), v1, h1))))"
proof -
  have "appended E (mk ys = None) xs (the (mk ys)) args v h (emplace_back E mk args v h)"
    unfolding emplace_back_append [OF assms(1,2,6,5)] by (rule append_holds [OF assms(1,2,6,5)])
  then show ?thesis
    using push_back_appended [OF assms(1,2,4,3)] push_own [OF assms(1,2)] emplace_own [OF assms(1,2)] by blast
qed

text \<open>Words of eight bytes, an allocator with a kilobyte, a copy constructor that throws on 13.\<close>

definition demo_env :: "nat elem_env" where
  "demo_env = \<lparr>sizeof_elem = 8, by_move = False, copy_throws = (\<lambda>x. x = 13), move_throws = (\<lambda>x. False),
     dflt = (\<lambda>i. Some i), granted = (\<lambda>b. b \<le> 1024)\<rparr>"

lemma demo_env_ok: "env_ok demo_env"
  by (auto simp: env_ok_def demo_env_def word_le_nat_alt)

definition demo_vec :: vec where "demo_vec = \<lparr>m_size = 1, m_cap = 1, p_arr = 1\<rparr>"

definition demo_heap :: "nat heap" where
  "demo_heap = \<lparr>blocks = [1 \<mapsto> [Live 5]], fresh = 2, lost = 0\<rparr>"

lemma demo_holds: "holds demo_env [5] demo_vec demo_heap"
  by (auto simp: holds_def demo_vec_def demo_heap_def demo_env_def cells_of_def heap_ok_def)

text \<open>The vector of one element is full; what is appended is an object at address 2.\<close>

definition demo_heap2 :: "nat heap" where
  "demo_heap2 = \<lparr>blocks = [1 \<mapsto> [Live 5], 2 \<mapsto> [Live 6]], fresh = 3, lost = 0\<rparr>"

lemma demo_holds2: "holds demo_env [5] demo_vec demo_heap2"
  by (auto simp: holds_def demo_vec_def demo_heap2_def demo_env_def cells_of_def heap_ok_def)

theorem push_back_correct_witness:
  "\<exists>v' h'. push_back demo_env (InBlock 2 0) demo_vec demo_heap2 = Some (Inr (), v', h') \<and> holds demo_env [5, 6] v' h' \<and>
    rest v' h' = rest demo_vec (set_slot 2 0 MovedFrom demo_heap2) \<and>
    emplace_back demo_env (\<lambda>ys. Some (hd ys)) [Lvalue (InBlock 1 0)] demo_vec demo_heap2 = None"
proof -
  have "map_option fst (push_back demo_env (InBlock 2 0) demo_vec demo_heap2) = Some (Inr ())"
    "map_option fst (ensure_room demo_env demo_vec demo_heap2) = Some (Inr ())"
    by code_simp+
  moreover have "read_arg (InBlock 2 0) demo_heap2 = Some 6" "read_args [Lvalue (InBlock 2 0)] demo_heap2 = Some [6]"
    "separate demo_vec (InBlock 2 0)" "all_separate demo_vec [Lvalue (InBlock 2 0)]" "p_arr demo_vec = 1" "m_size demo_vec = m_cap demo_vec"
    by (simp_all add: demo_heap2_def demo_vec_def read_at_def slot_at_def)
  ultimately show ?thesis
    using push_back_correct [OF demo_env_ok demo_holds2, of "InBlock 2 0" 6 "[Lvalue (InBlock 2 0)]" "[6]" "\<lambda>ys. Some (hd ys)"]
    by (auto simp: appended_def)
qed

text \<open>
  C14: a whole life. From the constructor on, any sequence of push_back, pop_back, at and
  shrink_to_fit (this one on a vector that is not empty) returns, gives the answers a list gives
  apart from the allowed exceptions, and leaves the vector holding that list; the destructor
  then gives the heap back as the constructor found it, every block freed once and every object
  destroyed.
\<close>

theorem vector_life:
  assumes "env_ok E" and "heap_ok h" and "Vector_ctor E h = Some (Inr v, h1)"
  shows "\<exists>rs v' h' h2. owner_run (vec_step E) ops (v, h1) = Some (rs, v', h') \<and>
    allowed_run (vec_answer E) vec_upd ops rs [] \<and> holds E (replay vec_upd ops rs []) v' h' \<and>
    Vector_dtor v' h' = Some h2 \<and> blocks h2 = blocks h \<and> lost h2 = lost h"
  using vector.life_owns [of E "[]" "(v, h1)" ops] ctor_holds [OF assms] assms(1)
  by (fastforce simp: vec_finish_def)

theorem vector_life_witness:
  "\<exists>rs v' h' h2. owner_run (vec_step demo_env) [Push 1, Push 2, Pop, Push 13, At 0, Shrink, Push 4]
      (the (map_option (\<lambda>(r, h). (case r of Inr v \<Rightarrow> v, h)) (Vector_ctor demo_env empty_heap))) = Some (rs, v', h') \<and>
    Vector_dtor v' h' = Some h2 \<and> blocks h2 = blocks (empty_heap :: nat heap)"
proof -
  have "granted demo_env (sizeof_elem demo_env)" by (simp add: demo_env_def)
  then have ctor: "Vector_ctor demo_env empty_heap = Some (Inr \<lparr>m_size = 0, m_cap = 1, p_arr = fresh (empty_heap :: nat heap)\<rparr>, snd (new_block 1 empty_heap))"
    by (simp add: Vector_ctor_def new_block_def)
  show ?thesis
    using vector_life [OF demo_env_ok heap_ok_empty ctor, of "[Push 1, Push 2, Pop, Push 13, At 0, Shrink, Push 4]"]
    by (simp only: ctor option.map prod.case sum.case option.sel) blast
qed

lemma default_elements_done:
  assumes "blocks h p = Some (cells_of pre n)" and "length pre + k \<le> n"
    and "\<forall>i<k. dflt E (length pre + i) \<noteq> None"
  shows "default_elements E p (length pre) k h =
    Some (True, with_block p (cells_of (pre @ map (the \<circ> dflt E) [length pre..<length pre + k]) n) h)"
  using assms
proof (induction k arbitrary: pre h)
  case 0
  then have "(blocks h)(p \<mapsto> cells_of pre n) = blocks h" by (simp add: map_upd_triv)
  then show ?case by simp
next
  case (Suc k)
  have "dflt E (length pre + 0) \<noteq> None" using Suc.prems(3) by blast
  then obtain x where x: "dflt E (length pre) = Some x" by auto
  let ?h = "with_block p (cells_of (pre @ [x]) n) h"
  have "construct_at p (length pre) x h = Some ?h"
    using Suc.prems by (subst construct_raw) (auto simp: cells_of_snoc)
  then have "default_elements E p (length pre) (Suc k) h = default_elements E p (length (pre @ [x])) k ?h"
    by (simp add: x)
  also have "\<dots> = Some (True, with_block p (cells_of ((pre @ [x]) @ map (the \<circ> dflt E) [length (pre @ [x])..<length (pre @ [x]) + k]) n) ?h)"
    using Suc.prems by (intro Suc.IH) (auto dest: spec [of _ "Suc _"])
  also have "(pre @ [x]) @ map (the \<circ> dflt E) [length (pre @ [x])..<length (pre @ [x]) + k] =
      pre @ map (the \<circ> dflt E) [length pre..<length pre + Suc k]"
    by (simp add: x upt_conv_Cons del: upt_Suc)
  also have "with_block p (cells_of (pre @ map (the \<circ> dflt E) [length pre..<length pre + Suc k]) n) ?h =
      with_block p (cells_of (pre @ map (the \<circ> dflt E) [length pre..<length pre + Suc k]) n) h"
    by simp
  finally show ?case .
qed

text \<open>
  the sized constructor, on a size whose bytes fit in 64 bits, gives a vector of that many
  default-constructed elements or throws; when an element's constructor throws, the array that
  was allocated is never freed.
\<close>

theorem sized_ctor_correct:
  assumes "env_ok E" and "heap_ok h" and "unat (sizeof_elem E) * unat (max 1 n) < 2 ^ 64"
    and "\<forall>i<unat n. dflt E i \<noteq> None"
  shows "if granted E (sizeof_elem E * max 1 n)
    then \<exists>v h'. Vector_sized E n h = Some (Inr v, h') \<and> holds E (map (the \<circ> dflt E) [0..<unat n]) v h' \<and>
      rest v h' = (blocks h, lost h)
    else Vector_sized E n h = Some (Inl Bad_alloc, h)"
proof -
  have cap: "max 1 n \<noteq> 0" "unat n \<le> unat (max 1 n)"
    by (auto simp: max_def simp flip: word_le_nat_alt split: if_splits)
  show ?thesis
  proof (cases "granted E (sizeof_elem E * max 1 n)")
    case True
    let ?p = "fresh h" and ?c = "unat (max 1 n)"
    let ?h1 = "h\<lparr>blocks := (blocks h)(?p \<mapsto> replicate ?c Raw), fresh := ?p + 1\<rparr>"
    let ?xs = "map (the \<circ> dflt E) [0..<unat n]"
    have "default_elements E ?p 0 (unat n) ?h1 = Some (True, with_block ?p (cells_of ?xs ?c) ?h1)"
      using default_elements_done [of ?h1 ?p "[]" ?c "unat n" E] cap assms(4)
      by (simp add: cells_of_def)
    then have "Vector_sized E n h = Some (Inr \<lparr>m_size = n, m_cap = max 1 n, p_arr = ?p\<rparr>, with_block ?p (cells_of ?xs ?c) ?h1)"
      using allocate_fit [OF assms(1) cap(1) assms(3), of h] True by (simp add: Vector_sized_def Let_def)
    moreover have "unat (sizeof_elem E) * ?c \<le> 2 ^ 62"
      using assms(1) True by (auto simp: env_ok_def simp flip: unat_mult_fit [OF assms(3)])
    ultimately show ?thesis
      using True cap assms(2) heap_ok_fresh [OF assms(2)]
      by (auto simp: holds_def rest_def heap_ok_def fun_eq_iff)
  next
    case False
    then show ?thesis
      using allocate_fit [OF assms(1) cap(1) assms(3), of h] by (simp add: Vector_sized_def)
  qed
qed

theorem sized_ctor_correct_witness:
  "\<exists>v h'. Vector_sized demo_env 3 empty_heap = Some (Inr v, h') \<and> holds demo_env [0, 1, 2] v h'"
proof -
  have "\<forall>i<unat (3::u64). dflt demo_env i \<noteq> None" "sizeof_elem demo_env = 8"
    "granted demo_env 24" "dflt demo_env = Some"
    by (simp_all add: demo_env_def word_le_nat_alt)
  then show ?thesis
    using sized_ctor_correct [OF demo_env_ok heap_ok_empty, of 3]
    by (simp add: max_def word_le_nat_alt upt_rec) (simp add: numeral_2_eq_2, blast)
qed

text \<open>
  push_back of a reference to one of the vector's own elements, when neither operator new nor a
  construction fails: the call is undefined exactly when the vector is full.
\<close>

theorem push_own_element:
  assumes "env_ok E" and "holds E xs v h" and "i < length xs" and "\<forall>x\<in>set xs. \<not> reloc_throws E x"
    and "granted E (sizeof_elem E * (m_cap v * 3))"
  shows "push_back E (InBlock (p_arr v) i) v h = None \<longleftrightarrow> m_size v = m_cap v"
proof -
  obtain r v1 h1 where g: "ensure_room E v h = Some (r, v1, h1)"
    "growth_answer E (m_cap v * 3) xs v r v1 \<or> r = Inr () \<and> v1 = v"
    using ensure_room_correct [OF assms(1,2)] by blast
  then have "r = Inr ()" using assms(4,5) by (cases r) (auto simp: growth_answer_def split: vec_error.splits)
  then show ?thesis using push_own [OF assms(1-3)] g(1) by simp
qed

theorem push_own_element_witness:
  "push_back demo_env (InBlock 1 0) demo_vec demo_heap = None"
proof -
  have "\<not> reloc_throws demo_env 5" "granted demo_env (sizeof_elem demo_env * (m_cap demo_vec * 3))"
    "p_arr demo_vec = 1" "m_size demo_vec = m_cap demo_vec"
    by (simp_all add: reloc_throws_def demo_env_def demo_vec_def word_le_nat_alt)
  then show ?thesis using push_own_element [OF demo_env_ok demo_holds, of 0] by simp
qed

text \<open>
  push_back of an lvalue. The element is forwarded with the vector's element type and not
  with the type the argument was deduced to, so an object the caller passes by name is moved
  from when the call succeeds, where it should be copied.
\<close>

theorem push_back_moves_lvalue:
  assumes "env_ok E" and "holds E xs v h" and "q \<noteq> p_arr v" and "slot_at q i h = Some (Live x)"
  shows "\<exists>r v' h'. push_back E (InBlock q i) v h = Some (r, v', h') \<and>
    holds E (case r of Inl _ \<Rightarrow> xs | Inr _ \<Rightarrow> xs @ [x]) v' h' \<and>
    (r = Inr () \<longrightarrow> slot_at q i h' = Some MovedFrom)"
proof -
  have "appended E (move_throws E x) xs x [Rvalue (InBlock q i)] v h (push_back E (InBlock q i) v h)"
    by (rule push_back_appended [OF assms(1,2)]) (use assms(3,4) in \<open>simp_all add: read_at_def\<close>)
  then obtain r v' h' where p: "push_back E (InBlock q i) v h = Some (r, v', h')"
    "holds E (case r of Inl _ \<Rightarrow> xs | Inr _ \<Rightarrow> xs @ [x]) v' h'"
    "rest v' h' = rest v (set_slot q i MovedFrom h) \<or> r \<noteq> Inr ()"
    by (auto simp: appended_def)
  have "slot_at q i (set_slot q i MovedFrom h) = Some MovedFrom" using assms(4) by (simp add: slot_set_slot)
  then have "slot_at q i h' = Some MovedFrom" if "r = Inr ()"
    using rest_block [of v' h' v "set_slot q i MovedFrom h" q] p(3) assms(3) that by (auto simp: slot_at_def split: option.splits)
  then show ?thesis using p(1,2) by blast
qed

theorem push_back_moves_lvalue_witness:
  "\<exists>v' h'. push_back demo_env (InBlock 2 0) demo_vec demo_heap2 = Some (Inr (), v', h') \<and> slot_at 2 0 h' = Some MovedFrom"
proof -
  have "map_option fst (push_back demo_env (InBlock 2 0) demo_vec demo_heap2) = Some (Inr ())" by code_simp
  moreover have "p_arr demo_vec \<noteq> 2" "slot_at 2 0 demo_heap2 = Some (Live 6)"
    by (simp_all add: demo_vec_def demo_heap2_def slot_at_def)
  ultimately show ?thesis using push_back_moves_lvalue [OF demo_env_ok demo_holds2, of 2 0 6] by auto
qed

text \<open>
  C16: three ways to leave the well-formed states with public calls. shrink_to_fit on a new
  vector keeps no array and a capacity of 0 that tripling never raises, so the next push_back
  writes through the null pointer; resize changes the capacity without an array to match, so
  push_back writes past the end; and a copied vector frees its array a second time.
\<close>

theorem vector_misuse:
  assumes "env_ok E" and "heap_ok h" and "Vector_ctor E h = Some (Inr v, h1)" and "\<not> move_throws E x"
  shows "(\<exists>v2 h2. shrink_to_fit E v h1 = Some (Inr (), v2, h2) \<and> push_back E (Outside x) v2 h2 = None) \<and>
    (\<exists>v2 h2. push_back E (Outside x) (resize 2 v) h1 = Some (Inr (), v2, h2) \<and>
       push_back E (Outside x) v2 h2 = None) \<and>
    (\<exists>h2. Vector_dtor (Vector_copy v) h1 = Some h2 \<and> Vector_dtor v h2 = None)"
proof -
  let ?p = "fresh h" and ?h1 = "h\<lparr>blocks := (blocks h)(fresh h \<mapsto> [Raw]), fresh := fresh h + 1\<rparr>"
  have v: "v = \<lparr>m_size = 0, m_cap = 1, p_arr = ?p\<rparr>" "h1 = ?h1"
    using assms(3) by (simp_all add: Vector_ctor_def new_block_def split: if_splits)
  have p: "0 < ?p" "blocks h 0 = None" using assms(2) by (auto simp: heap_ok_def)
  have "shrink_to_fit E v h1 =
      Some (Inr (), \<lparr>m_size = 0, m_cap = 0, p_arr = 0\<rparr>, ?h1\<lparr>blocks := (blocks ?h1)(?p := None)\<rparr>)"
    using p by (simp add: v shrink_to_fit_def grow_capacity_def allocate_def delete_raw constructed_def)
  moreover have "push_back E (Outside x) \<lparr>m_size = 0, m_cap = 0, p_arr = 0\<rparr> (?h1\<lparr>blocks := (blocks ?h1)(?p := None)\<rparr>) = None"
    using p assms(4)
    by (simp add: push_back_def ensure_room_def grow_capacity_def allocate_def delete_block_def construct_at_def slot_at_def)
  moreover have "push_back E (Outside x) (resize 2 v) h1 =
      Some (Inr (), \<lparr>m_size = 1, m_cap = 2, p_arr = ?p\<rparr>, with_block ?p [Live x] ?h1)"
    using assms(4) by (simp add: v push_back_def ensure_room_def resize_def construct_raw)
  moreover have "push_back E (Outside x) \<lparr>m_size = 1, m_cap = 2, p_arr = ?p\<rparr> (with_block ?p [Live x] ?h1) = None"
    using assms(4) by (simp add: push_back_def ensure_room_def construct_at_def slot_at_def word_le_nat_alt)
  moreover have "Vector_dtor (Vector_copy v) h1 = Some (?h1\<lparr>blocks := (blocks ?h1)(?p := None)\<rparr>)"
    using p by (simp add: v Vector_dtor_def Vector_copy_def delete_raw constructed_def)
  moreover have "Vector_dtor v (?h1\<lparr>blocks := (blocks ?h1)(?p := None)\<rparr>) = None"
    using p by (simp add: v Vector_dtor_def delete_block_def)
  ultimately show ?thesis by blast
qed

theorem vector_misuse_witness:
  "\<exists>v h1 v2 h2. Vector_ctor demo_env empty_heap = Some (Inr v, h1) \<and>
    shrink_to_fit demo_env v h1 = Some (Inr (), v2, h2) \<and> push_back demo_env (Outside 7) v2 h2 = None"
proof -
  have "granted demo_env (sizeof_elem demo_env)" by (simp add: demo_env_def)
  then obtain v h1 where "Vector_ctor demo_env empty_heap = Some (Inr v, h1)"
    by (simp add: Vector_ctor_def new_block_def)
  then show ?thesis
    using vector_misuse [OF demo_env_ok heap_ok_empty, of v h1 7] by (auto simp: demo_env_def)
qed

text \<open>
  The number of bytes is computed modulo 2^64. A vector of 2^61 words of eight bytes asks
  for none, and its constructor writes its first element outside the array.
\<close>

lemma sized_ctor_wraps:
  assumes "granted E 0" and "sizeof_elem E = 8" and "dflt E 0 \<noteq> None"
  shows "Vector_sized E (2 ^ 61) h = None"
proof -
  have "0 < unat (2 ^ 61 :: u64)" by simp
  then obtain k where k: "unat (2 ^ 61 :: u64) = Suc k" by (metis gr0_implies_Suc)
  have "max 1 (2 ^ 61) = (2 ^ 61 :: u64)" "(8 :: u64) * 2 ^ 61 = 0" "(2 ^ 61 :: u64) \<noteq> 0"
    by code_simp+
  then have "allocate E (max 1 (2 ^ 61)) h =
      (Inr (fresh h), h\<lparr>blocks := (blocks h)(fresh h \<mapsto> []), fresh := fresh h + 1\<rparr>)"
    using assms(1,2) by (simp only: allocate_def new_block_def Let_def) simp
  moreover have "default_elements E (fresh h) 0 (Suc k) (h\<lparr>blocks := (blocks h)(fresh h \<mapsto> []), fresh := fresh h + 1\<rparr>) = None"
    using assms(3) by (auto simp: construct_at_def slot_at_def)
  ultimately show ?thesis
    unfolding Vector_sized_def Let_def k by simp
qed

lemma sized_ctor_wraps_witness:
  "Vector_sized demo_env (2 ^ 61) empty_heap = None"
  by (rule sized_ctor_wraps) (simp_all add: demo_env_def)

end
