(* ===== verification/Amortised.thy ===== *)
theory Amortised
  imports Owner
begin

text \<open>
  Amortised cost of the runs of a component: every operation has a cost, a state a potential, and
  the cost of an operation and the potential it leaves are covered by the potential before and a
  budget of the operation. Then the budgets cover the cost of a whole run.
\<close>

text \<open>The cost of a run, where the cost of an operation is read off the states before and after it.\<close>

fun run_cost :: "('op \<Rightarrow> 's \<Rightarrow> ('r \<times> 's) option) \<Rightarrow> ('s \<Rightarrow> 's \<Rightarrow> nat) \<Rightarrow> 'op list \<Rightarrow> 's \<Rightarrow> nat" where
  "run_cost step cost [] s = 0"
| "run_cost step cost (a # as) s =
     (case step a s of None \<Rightarrow> 0 | Some (_, s') \<Rightarrow> cost s s' + run_cost step cost as s')"

locale amortised =
  fixes step :: "'op \<Rightarrow> 's \<Rightarrow> ('r \<times> 's) option"
    and inv :: "'s \<Rightarrow> bool"
    and cost :: "'s \<Rightarrow> 's \<Rightarrow> nat"
    and potential :: "'s \<Rightarrow> nat"
    and budget :: "'op \<Rightarrow> nat"
    and cheap :: "'op \<Rightarrow> bool"
  assumes step_inv: "inv s \<Longrightarrow> step a s = Some (r, s') \<Longrightarrow> inv s'"
    and step_cost: "inv s \<Longrightarrow> cheap a \<Longrightarrow> step a s = Some (r, s') \<Longrightarrow> cost s s' + potential s' \<le> potential s + budget a"
begin

lemma run_covered:
  "inv s \<Longrightarrow> list_all cheap as \<Longrightarrow> owner_run step as s = Some (rs, s') \<Longrightarrow>
   run_cost step cost as s + potential s' \<le> potential s + sum_list (map budget as)"
proof (induction as arbitrary: s rs)
  case (Cons a as)
  then obtain r t rs' where t: "step a s = Some (r, t)" "owner_run step as t = Some (rs', s')"
    by (auto split: option.splits)
  have "run_cost step cost as t + potential s' \<le> potential t + sum_list (map budget as)"
    using Cons.IH [OF step_inv [OF Cons.prems(1) t(1)] _ t(2)] Cons.prems(2) by simp
  moreover have "cost s t + potential t \<le> potential s + budget a"
    using step_cost [OF Cons.prems(1) _ t(1)] Cons.prems(2) by simp
  ultimately show ?case by (simp add: t(1))
qed simp

end

end
