(* ===== verification/VectorGrowth.thy ===== *)
theory VectorGrowth
  imports Vector Amortised
begin

text \<open>
  The growth policy of include/quick/structs/Vector.hh: a full array is replaced by one three times
  as large, and so is one of capacity 1 before any push. The cost that counts is the number of
  elements a reallocation moves or copies to the new array.
\<close>

section \<open>One operation\<close>

text \<open>The elements that have moved between two states: all there were when the array is another one.\<close>

definition moved :: "vec \<times> 'a heap \<Rightarrow> vec \<times> 'a heap \<Rightarrow> nat" where
  "moved s s' = (if p_arr (fst s') \<noteq> p_arr (fst s) then unat (m_size (fst s)) else 0)"

fun grows_only :: "'a vec_op \<Rightarrow> bool" where
  "grows_only Shrink = False"
| "grows_only _ = True"

fun pushes :: "'a vec_op list \<Rightarrow> nat" where
  "pushes [] = 0"
| "pushes (Push x # as) = Suc (pushes as)"
| "pushes (_ # as) = pushes as"

text \<open>
  What a push does to the array: nothing, or, when the capacity is 1 or all used, three times the
  capacity; and to the size: nothing or one more.
\<close>

definition grown :: "vec \<Rightarrow> vec \<Rightarrow> bool" where
  "grown v v' \<longleftrightarrow> (m_cap v = 1 \<or> m_size v = m_cap v) \<and> unat (m_cap v') = 3 * unat (m_cap v)"

lemma ensure_room_grown:
  assumes "env_ok E" and "holds E xs v h" and "ensure_room E v h = Some (r, v', h')"
  shows "m_size v' = m_size v \<and> (v' = v \<or> grown v v')"
proof (cases "m_cap v = 1 \<or> m_cap v \<le> m_size v")
  case False
  then show ?thesis using assms(3) by (auto simp: ensure_room_def)
next
  case True
  have "m_size v \<le> m_cap v" using assms(2) by (simp add: holds_def word_le_nat_alt)
  then have "m_cap v = 1 \<or> m_size v = m_cap v" using True by auto
  moreover have "growth_answer E (m_cap v * 3) xs v r v' \<or> r = Inr () \<and> v' = v"
    using ensure_room_correct [OF assms(1,2)] assms(3) by auto
  ultimately show ?thesis
    using triple(1) [OF assms(1,2)] by (auto simp: growth_answer_def grown_def split: sum.splits vec_error.splits)
qed

lemma push_back_grown:
  assumes "env_ok E" and "holds E xs v h" and "push_back E (Outside x) v h = Some (r, v', h')"
  shows "\<exists>v1. m_size v1 = m_size v \<and> (v1 = v \<or> grown v v1) \<and> (v' = v1 \<or> v' = v1\<lparr>m_size := m_size v1 + 1\<rparr>)"
proof -
  obtain r1 v1 h1 where e: "ensure_room E v h = Some (r1, v1, h1)" "holds E xs v1 h1"
    using ensure_room_correct [OF assms(1,2)] by blast
  have "v' = v1 \<or> v' = v1\<lparr>m_size := m_size v1 + 1\<rparr>"
    using assms(3) by (auto simp: push_back_def e(1) Let_def split: sum.splits if_splits bind_splits)
  with ensure_room_grown [OF assms(1,2) e(1)] show ?thesis by blast
qed

text \<open>Three for every element beyond a third of the capacity.\<close>

definition credit :: "vec \<times> 'a heap \<Rightarrow> nat" where
  "credit s = 3 * unat (m_size (fst s)) - unat (m_cap (fst s))"

lemma unat_inc: "unat (x + 1) \<le> unat (x :: u64) + 1"
  by (metis mod_less_eq_dividend unat_1 unat_word_ariths(1))

lemma push_credit:
  assumes "env_ok E" and "holds E xs v h" and "push_back E (Outside x) v h = Some (r, v', h')"
  shows "2 * moved (v, h) (v', h') + credit (v', h') \<le> credit (v, h) + 3"
proof -
  obtain v1 where v1: "m_size v1 = m_size v" "v1 = v \<or> grown v v1" "v' = v1 \<or> v' = v1\<lparr>m_size := m_size v1 + 1\<rparr>"
    using push_back_grown [OF assms] by blast
  have cap: "0 < unat (m_cap v)" "unat (m_size v) \<le> unat (m_cap v)" using assms(2) by (simp_all add: holds_def unat_gt_0)
  have size: "unat (m_size v') \<le> unat (m_size v) + 1" using v1 unat_inc [of "m_size v"] by auto
  show ?thesis
  proof (cases "v1 = v")
    case True
    then have "p_arr v' = p_arr v" "m_cap v' = m_cap v" using v1(3) by auto
    then show ?thesis using size by (simp add: moved_def credit_def)
  next
    case False
    then have g: "m_cap v = 1 \<or> m_size v = m_cap v" "unat (m_cap v1) = 3 * unat (m_cap v)" using v1(2) by (auto simp: grown_def)
    have "m_cap v' = m_cap v1" using v1(3) by auto
    moreover have "2 * unat (m_size v) \<le> 3 * unat (m_size v) - unat (m_cap v)" using g(1) cap by auto
    moreover have "3 * unat (m_size v') - 3 * unat (m_cap v) \<le> 3" using size cap(2) by arith
    ultimately show ?thesis using g(2) by (auto simp: moved_def credit_def)
  qed
qed

lemma step_credit:
  assumes "env_ok E" and "holds E xs v h" and "grows_only a" and "vec_step E a (v, h) = Some (r, s')"
  shows "2 * moved (v, h) s' + credit s' \<le> credit (v, h) + 3 * pushes [a]"
proof (cases a)
  case (Push x)
  then obtain r' v' h' where "push_back E (Outside x) v h = Some (r', v', h')" "s' = (v', h')"
    using assms(4) by auto
  then show ?thesis using push_credit [OF assms(1,2)] Push by simp
next
  case Pop
  then have "p_arr (fst s') = p_arr v" "m_cap (fst s') = m_cap v" "unat (m_size (fst s')) \<le> unat (m_size v)"
    using assms(4) by (auto simp: pop_back_def Let_def unat_gt_0 unat_minus_one split: if_splits bind_splits)
  then show ?thesis using Pop by (simp add: moved_def credit_def)
next
  case (At i)
  then have "fst s' = v" using assms(4) by (auto simp: at_index_def split: if_splits bind_splits)
  then show ?thesis using At by (simp add: moved_def credit_def)
qed (use assms(3) in simp)

interpretation growth: amortised "vec_step E" "\<lambda>(v, h). env_ok E \<and> (\<exists>xs. holds E xs v h)" "\<lambda>s s'. 2 * moved s s'" credit
  "\<lambda>a. 3 * pushes [a]" grows_only for E
proof
  fix s s' :: "vec \<times> 'a heap" and a r
  assume inv: "case s of (v, h) \<Rightarrow> env_ok E \<and> (\<exists>xs. holds E xs v h)" and step: "vec_step E a s = Some (r, s')"
  obtain v h xs where s: "s = (v, h)" "env_ok E" "holds E xs v h" using inv by (cases s) auto
  show "case s' of (v, h) \<Rightarrow> env_ok E \<and> (\<exists>xs. holds E xs v h)"
    using vec_step_holds [OF s(2,3), of a] step s by auto
  show "2 * moved s s' + credit s' \<le> credit s + 3 * pushes [a]" if "grows_only a"
    using step_credit [OF s(2,3) that] step by (simp add: s(1))
qed

lemma pushes_sum: "sum_list (map (\<lambda>a. 3 * pushes [a]) as) = 3 * pushes as"
  by (induction as rule: pushes.induct) simp_all

lemma run_cost_double: "run_cost step (\<lambda>s s'. 2 * cost s s') as s = 2 * run_cost step cost as s"
  by (induction as arbitrary: s) (auto split: option.splits)

section \<open>The capacity\<close>

lemma step_capacity:
  assumes "env_ok E" and "holds E xs v h" and "grows_only a" and "vec_step E a (v, h) = Some (r, s')"
    and "unat (m_size v) \<le> k" and "unat (m_cap v) \<le> max 1 (3 * k)"
  shows "unat (m_size (fst s')) \<le> k + pushes [a] \<and> unat (m_cap (fst s')) \<le> max 1 (3 * (k + pushes [a]))"
proof (cases a)
  case (Push x)
  then obtain r' v' h' where p: "push_back E (Outside x) v h = Some (r', v', h')" "s' = (v', h')"
    using assms(4) by auto
  obtain v1 where v1: "m_size v1 = m_size v" "v1 = v \<or> grown v v1" "v' = v1 \<or> v' = v1\<lparr>m_size := m_size v1 + 1\<rparr>"
    using push_back_grown [OF assms(1,2) p(1)] by blast
  have "unat (m_size v') \<le> k + 1" using v1 unat_inc [of "m_size v"] assms(5) by auto
  moreover have "unat (m_cap v') \<le> 3 * (k + 1)" using v1(2,3) assms(5,6) by (auto simp: grown_def)
  ultimately show ?thesis using p(2) Push by simp
next
  case Pop
  then have "m_cap (fst s') = m_cap v" "unat (m_size (fst s')) \<le> unat (m_size v)"
    using assms(4) by (auto simp: pop_back_def Let_def unat_gt_0 unat_minus_one split: if_splits bind_splits)
  then show ?thesis using Pop assms(5,6) by simp
next
  case (At i)
  then have "fst s' = v" using assms(4) by (auto simp: at_index_def split: if_splits bind_splits)
  then show ?thesis using At assms(5,6) by simp
qed (use assms(3) in simp)

lemma pushes_Cons: "pushes (a # as) = pushes [a] + pushes as"
  by (cases a) simp_all

lemma run_capacity:
  assumes "env_ok E"
  shows "holds E xs v h \<Longrightarrow> list_all grows_only as \<Longrightarrow> owner_run (vec_step E) as (v, h) = Some (rs, s') \<Longrightarrow>
    unat (m_size v) \<le> k \<Longrightarrow> unat (m_cap v) \<le> max 1 (3 * k) \<Longrightarrow> unat (m_cap (fst s')) \<le> max 1 (3 * (k + pushes as))"
proof (induction as arbitrary: xs v h rs k)
  case (Cons a as)
  obtain r v1 h1 where t: "vec_step E a (v, h) = Some (r, v1, h1)" "holds E (vec_upd a r xs) v1 h1"
    using vec_step_holds [OF assms Cons.prems(1), of a] by blast
  then obtain rs' where run: "owner_run (vec_step E) as (v1, h1) = Some (rs', s')"
    using Cons.prems(3) by (auto split: option.splits)
  have "unat (m_size v1) \<le> k + pushes [a]" "unat (m_cap v1) \<le> max 1 (3 * (k + pushes [a]))"
    using step_capacity [OF assms Cons.prems(1) _ t(1) Cons.prems(4,5)] Cons.prems(2) by simp_all
  from Cons.IH [OF t(2) _ run this] show ?case using Cons.prems(2) unfolding pushes_Cons [of a as] by (simp add: add.assoc)
qed auto

section \<open>Properties\<close>


text \<open>Ten pushes of words: reallocations at 0, 3 and 9 elements move twelve, and leave a capacity of 27.\<close>

definition growing :: "nat vec_op list" where
  "growing = map Push [1, 2, 3, 4, 5, 6, 7, 8, 9, 10]"


lemma growing_values:
  "run_cost (vec_step demo_env) moved growing (\<lparr>m_size = 0, m_cap = 1, p_arr = 1\<rparr>, snd (new_block 1 empty_heap)) = 12"
  by code_simp

end
