(* ===== verification/SharedPtr.thy ===== *)
theory SharedPtr
  imports Owner Machine Decimal "HOL-Library.Monad_Syntax"
begin

text \<open>
  The reference-counted pointer of include/quick/handle/SharedPtr.hh. The world holds the
  control blocks by address and the objects a raw pointer can name; the variables of the program
  that hold a shared_ptr are numbered. None is undefined behaviour: a dead control block is
  touched, a deleter runs on an object that is not there, a variable is used before its
  constructor or after its destructor. Address 0 is the null pointer. The deleter is modelled by
  what the control block relies on: it ends the life of the object it is called on.
\<close>

section \<open>State\<close>

record cblock =
  m_count :: u64
  cb_obj :: nat

record world =
  cbs :: "nat \<Rightarrow> cblock option"
  next_cb :: nat
  alive :: "nat set"
  deleted :: "nat list"

record handle =
  p_obj :: nat
  p_cb :: nat

section \<open>The control block\<close>

definition run_deleter :: "nat \<Rightarrow> world \<Rightarrow> world option" where
  [run_simps]: "run_deleter ptr w =
     (if ptr = 0 then Some w
      else if ptr \<in> alive w then Some (w\<lparr>alive := alive w - {ptr}, deleted := deleted w @ [ptr]\<rparr>)
      else None)"

definition add_ref :: "nat \<Rightarrow> world \<Rightarrow> world option" where
  [run_simps]: "add_ref cb w =
     (case cbs w cb of None \<Rightarrow> None
      | Some c \<Rightarrow> Some (w\<lparr>cbs := (cbs w)(cb \<mapsto> c\<lparr>m_count := m_count c + 1\<rparr>)\<rparr>))"

definition release :: "nat \<Rightarrow> world \<Rightarrow> world option" where
  [run_simps]: "release cb w =
     (case cbs w cb of None \<Rightarrow> None
      | Some c \<Rightarrow>
          if m_count c = 1 then do {
            w \<leftarrow> (if cb_obj c \<noteq> 0 then run_deleter (cb_obj c) w else Some w);
            Some (w\<lparr>cbs := (cbs w)(cb := None)\<rparr>) }
          else Some (w\<lparr>cbs := (cbs w)(cb \<mapsto> c\<lparr>m_count := m_count c - 1\<rparr>)\<rparr>))"

definition cb_use_count :: "nat \<Rightarrow> world \<Rightarrow> u64 option" where
  [run_simps]: "cb_use_count cb w = map_option m_count (cbs w cb)"

text \<open>Allocation, construction and init of a control block.\<close>

definition new_cb :: "nat \<Rightarrow> world \<Rightarrow> nat \<times> world" where
  [run_simps]: "new_cb ptr w =
     (next_cb w, w\<lparr>cbs := (cbs w)(next_cb w \<mapsto> \<lparr>m_count = 1, cb_obj = ptr\<rparr>), next_cb := next_cb w + 1\<rparr>)"

section \<open>Operations of one handle\<close>

definition null_handle :: handle where
  [run_simps]: "null_handle = \<lparr>p_obj = 0, p_cb = 0\<rparr>"

text \<open>
  The constructors from a raw pointer, with the deleter given or default-constructed. The flag
  tells whether operator new grants the control block; when it does not, the exception leaves no
  handle (None of the result).
\<close>

definition ctor_pointer :: "bool \<Rightarrow> nat \<Rightarrow> world \<Rightarrow> handle option \<times> world" where
  [run_simps]: "ctor_pointer granted pointer w =
     (if granted
      then (case new_cb pointer w of (cb, w) \<Rightarrow> (Some \<lparr>p_obj = pointer, p_cb = cb\<rparr>, w))
      else (None, w))"

definition copy_ctor :: "handle \<Rightarrow> world \<Rightarrow> (handle \<times> world) option" where
  [run_simps]: "copy_ctor other w = do {
     w \<leftarrow> (if p_cb other \<noteq> 0 then add_ref (p_cb other) w else Some w);
     Some (\<lparr>p_obj = p_obj other, p_cb = p_cb other\<rparr>, w) }"

text \<open>
  Where a handle is: in a variable of the program, or inside an object, with which it goes. Reading it
  in a world that no longer has it is undefined.
\<close>

definition in_variable :: "handle \<Rightarrow> world \<Rightarrow> handle option" where
  [run_simps]: "in_variable h w = Some h"

definition in_object :: "nat \<Rightarrow> handle \<Rightarrow> world \<Rightarrow> handle option" where
  [run_simps]: "in_object p h w = (if p \<in> alive w then Some h else None)"

text \<open>
  The assignments, for a source that is another object than the target; it is read when the old
  control block was released.
\<close>

definition copy_assign :: "handle \<Rightarrow> (world \<Rightarrow> handle option) \<Rightarrow> world \<Rightarrow> (handle \<times> world) option" where
  [run_simps]: "copy_assign this source w = do {
     w \<leftarrow> (if p_cb this \<noteq> 0 then release (p_cb this) w else Some w);
     other \<leftarrow> source w;
     let this = \<lparr>p_obj = p_obj other, p_cb = p_cb other\<rparr>;
     w \<leftarrow> (if p_cb this \<noteq> 0 then add_ref (p_cb this) w else Some w);
     Some (this, w) }"

definition move_ctor :: "handle \<Rightarrow> handle \<times> handle" where
  [run_simps]: "move_ctor other = (\<lparr>p_obj = p_obj other, p_cb = p_cb other\<rparr>, null_handle)"

definition move_assign :: "handle \<Rightarrow> (world \<Rightarrow> handle option) \<Rightarrow> world \<Rightarrow> (handle \<times> handle \<times> world) option" where
  [run_simps]: "move_assign this source w = do {
     w \<leftarrow> (if p_cb this \<noteq> 0 then release (p_cb this) w else Some w);
     other \<leftarrow> source w;
     Some (\<lparr>p_obj = p_obj other, p_cb = p_cb other\<rparr>, null_handle, w) }"

definition reset :: "handle \<Rightarrow> world \<Rightarrow> (handle \<times> world) option" where
  [run_simps]: "reset this w = do {
     w \<leftarrow> (if p_cb this \<noteq> 0 then release (p_cb this) w else Some w);
     Some (null_handle, w) }"

text \<open>
  reset to a new pointer. When operator new throws, the members keep what they were last given:
  the new object and the old control block. The result tells whether it returned.
\<close>

definition reset_to :: "bool \<Rightarrow> nat \<Rightarrow> handle \<Rightarrow> world \<Rightarrow> (bool \<times> handle \<times> world) option" where
  [run_simps]: "reset_to granted pointer this w = do {
     w \<leftarrow> (if p_cb this \<noteq> 0 then release (p_cb this) w else Some w);
     let this = this\<lparr>p_obj := pointer\<rparr>;
     if p_obj this \<noteq> 0 then
       (if granted
        then (case new_cb (p_obj this) w of (cb, w) \<Rightarrow> Some (True, this\<lparr>p_cb := cb\<rparr>, w))
        else Some (False, this, w))
     else Some (True, this\<lparr>p_cb := 0\<rparr>, w) }"

definition use_count :: "handle \<Rightarrow> world \<Rightarrow> u64 option" where
  [run_simps]: "use_count this w = (if p_cb this \<noteq> 0 then cb_use_count (p_cb this) w else Some 0)"

definition arrow :: "handle \<Rightarrow> nat" where
  [run_simps]: "arrow this = p_obj this"

definition as_bool :: "handle \<Rightarrow> bool" where
  [run_simps]: "as_bool this \<longleftrightarrow> p_obj this \<noteq> 0"

section \<open>Programs over several handles\<close>

text \<open>
  The variables of a caller, None before construction and after destruction, and what it can do
  with them. The object a raw pointer names has to be alive and not yet owned.
\<close>

datatype sp_op =
    Default nat | FromPointer nat nat | CopyCtor nat nat | MoveCtor nat nat
  | CopyAssign nat nat | MoveAssign nat nat | Reset nat | ResetTo nat nat | Dtor nat

type_synonym vars = "handle option list"

definition var :: "nat \<Rightarrow> vars \<Rightarrow> handle option" where
  [run_simps]: "var i vs = (if i < length vs then vs ! i else None)"

definition unborn :: "nat \<Rightarrow> vars \<Rightarrow> bool" where
  [run_simps]: "unborn i vs \<longleftrightarrow> i < length vs \<and> vs ! i = None"

fun sp_exec :: "bool \<Rightarrow> sp_op \<Rightarrow> vars \<times> world \<Rightarrow> (vars \<times> world) option" where
  "sp_exec granted (Default i) (vs, w) = (if unborn i vs then Some (vs[i := Some null_handle], w) else None)"
| "sp_exec granted (FromPointer i p) (vs, w) =
     (if unborn i vs
      then (case ctor_pointer granted p w of (h, w) \<Rightarrow> Some (vs[i := h], w))
      else None)"
| "sp_exec granted (CopyCtor i j) (vs, w) =
     (case var j vs of None \<Rightarrow> None
      | Some other \<Rightarrow>
          if unborn i vs then map_option (\<lambda>(h, w). (vs[i := Some h], w)) (copy_ctor other w) else None)"
| "sp_exec granted (MoveCtor i j) (vs, w) =
     (case var j vs of None \<Rightarrow> None
      | Some other \<Rightarrow>
          if unborn i vs then (case move_ctor other of (h, other) \<Rightarrow> Some (vs[i := Some h, j := Some other], w))
          else None)"
| "sp_exec granted (CopyAssign i j) (vs, w) =
     (case (var i vs, var j vs) of
        (Some this, Some other) \<Rightarrow>
          if i \<noteq> j then map_option (\<lambda>(h, w). (vs[i := Some h], w)) (copy_assign this (in_variable other) w)
          else Some (vs, w)
      | _ \<Rightarrow> None)"
| "sp_exec granted (MoveAssign i j) (vs, w) =
     (case (var i vs, var j vs) of
        (Some this, Some other) \<Rightarrow>
          if i \<noteq> j then map_option (\<lambda>(h, other, w). (vs[i := Some h, j := Some other], w)) (move_assign this (in_variable other) w)
          else Some (vs, w)
      | _ \<Rightarrow> None)"
| "sp_exec granted (Reset i) (vs, w) =
     (case var i vs of None \<Rightarrow> None
      | Some this \<Rightarrow> map_option (\<lambda>(h, w). (vs[i := Some h], w)) (reset this w))"
| "sp_exec granted (ResetTo i p) (vs, w) =
     (case var i vs of None \<Rightarrow> None
      | Some this \<Rightarrow> map_option (\<lambda>(_, h, w). (vs[i := Some h], w)) (reset_to granted p this w))"
| "sp_exec granted (Dtor i) (vs, w) =
     (case var i vs of None \<Rightarrow> None
      | Some this \<Rightarrow> map_option (\<lambda>(h, w). (vs[i := None], w)) (reset this w))"

text \<open>
  The main function at the end of the file, on a pointer x and in a world that grants its control
  block: what it prints, and the world when its variables are gone. That its deleter does nothing
  to the variable x points at does not matter to the handles: deleted lists the calls.
\<close>

definition printed_count :: "nat \<Rightarrow> vars \<Rightarrow> world \<Rightarrow> string option" where
  [run_simps]: "printed_count i vs w =
     (case var i vs of None \<Rightarrow> None | Some h \<Rightarrow> map_option (\<lambda>c. decimal (uint c) @ '' '') (use_count h w))"

definition shared_ptr_main :: "nat \<Rightarrow> world \<Rightarrow> (string \<times> world) option" where
  "shared_ptr_main x w = do {
     (vs, w) \<leftarrow> sp_exec True (FromPointer 0 x) ([None, None], w);
     a \<leftarrow> printed_count 0 vs w;
     (vs, w) \<leftarrow> sp_exec True (MoveCtor 1 0) (vs, w);
     b \<leftarrow> printed_count 1 vs w;
     (vs, w) \<leftarrow> sp_exec True (Reset 0) (vs, w);
     c \<leftarrow> printed_count 1 vs w;
     (vs, w) \<leftarrow> sp_exec True (Reset 1) (vs, w);
     d \<leftarrow> printed_count 1 vs w;
     (vs, w) \<leftarrow> sp_exec True (Dtor 1) (vs, w);
     (vs, w) \<leftarrow> sp_exec True (Dtor 0) (vs, w);
     Some (a @ b @ c @ d, w) }"

section \<open>The invariant\<close>

text \<open>Whether a variable holds a reference to a control block, and how many do.\<close>

fun hit :: "nat \<Rightarrow> handle option \<Rightarrow> nat" where
  "hit cb None = 0"
| "hit cb (Some h) = (if cb \<noteq> 0 \<and> p_cb h = cb then 1 else 0)"

definition refs :: "vars \<Rightarrow> nat \<Rightarrow> nat" where
  "refs vs cb = sum_list (map (hit cb) vs)"

text \<open>The object a live control block manages, and all of them.\<close>

definition obj_of :: "world \<Rightarrow> nat \<Rightarrow> nat option" where
  "obj_of w cb = map_option cb_obj (cbs w cb)"

definition owned :: "world \<Rightarrow> nat set" where
  "owned w = {p. p \<noteq> 0 \<and> (\<exists>cb. obj_of w cb = Some p)}"

text \<open>
  The world agrees with a number of references per control block: exactly the blocks with
  references are there, each counts them, and their objects are alive and all different.
\<close>

definition block_ok :: "nat \<Rightarrow> nat \<Rightarrow> nat \<Rightarrow> cblock option \<Rightarrow> bool" where
  "block_ok next cb n e \<longleftrightarrow>
     (case e of None \<Rightarrow> n = 0 | Some c \<Rightarrow> 0 < cb \<and> cb < next \<and> 0 < n \<and> n = unat (m_count c))"

definition counts_ok :: "(nat \<Rightarrow> nat) \<Rightarrow> world \<Rightarrow> bool" where
  "counts_ok r w \<longleftrightarrow> 0 < next_cb w \<and> (\<forall>cb. block_ok (next_cb w) cb (r cb) (cbs w cb))"

definition one_owner :: "world \<Rightarrow> bool" where
  "one_owner w \<longleftrightarrow> (\<forall>a b p. obj_of w a = Some p \<and> obj_of w b = Some p \<and> p \<noteq> 0 \<longrightarrow> a = b)"

definition objects_ok :: "world \<Rightarrow> bool" where
  "objects_ok w \<longleftrightarrow> 0 \<notin> alive w \<and> owned w \<subseteq> alive w \<and> distinct (deleted w) \<and>
     set (deleted w) \<inter> alive w = {} \<and> one_owner w"

definition handle_ok :: "world \<Rightarrow> handle \<Rightarrow> bool" where
  "handle_ok w h \<longleftrightarrow> (if p_cb h = 0 then p_obj h = 0 else obj_of w (p_cb h) = Some (p_obj h))"

definition sp_inv :: "vars \<Rightarrow> world \<Rightarrow> bool" where
  "sp_inv vs w \<longleftrightarrow> length vs < 2 ^ 64 \<and> counts_ok (refs vs) w \<and> objects_ok w \<and>
     (\<forall>h. Some h \<in> set vs \<longrightarrow> handle_ok w h)"

lemma objects_cong:
  "obj_of w' = obj_of w \<Longrightarrow> alive w' = alive w \<Longrightarrow> deleted w' = deleted w \<Longrightarrow> objects_ok w' = objects_ok w"
  by (simp add: objects_ok_def owned_def one_owner_def)

lemma handle_cong: "obj_of w' = obj_of w \<Longrightarrow> handle_ok w' h = handle_ok w h"
  by (simp add: handle_ok_def)

lemma owned_cong: "obj_of w' = obj_of w \<Longrightarrow> owned w' = owned w"
  by (simp add: owned_def)

lemma ownedI: "obj_of w cb = Some p \<Longrightarrow> p \<noteq> 0 \<Longrightarrow> p \<in> owned w"
  by (auto simp: owned_def)

lemma refs_upd:
  "i < length vs \<Longrightarrow> refs (vs[i := x]) cb = refs vs cb + hit cb x - hit cb (vs ! i)"
  by (simp add: refs_def map_update sum_list_update)

lemma hit_le_refs: "i < length vs \<Longrightarrow> hit cb (vs ! i) \<le> refs vs cb"
  by (simp add: refs_def elem_le_sum_list [of i "map (hit cb) vs", simplified])

lemma refs_le: "refs vs cb \<le> length vs"
proof -
  have "hit cb x \<le> 1" for x by (cases x) auto
  then have "sum_list (map (hit cb) vs) \<le> sum_list (map (\<lambda>_. 1) vs)" by (intro sum_list_mono)
  then show ?thesis by (simp add: refs_def sum_list_triv)
qed

lemma refs_two:
  assumes "i < length vs" and "j < length vs" and "i \<noteq> j"
  shows "hit cb (vs ! i) + hit cb (vs ! j) \<le> refs vs cb"
proof -
  have "refs (vs[i := None]) cb = refs vs cb - hit cb (vs ! i)" using assms by (simp add: refs_upd)
  moreover have "hit cb (vs ! j) \<le> refs (vs[i := None]) cb"
    using hit_le_refs [of j "vs[i := None]" cb] assms by simp
  ultimately show ?thesis using hit_le_refs [OF assms(1), of cb] by linarith
qed

lemma counts_Some:
  assumes "counts_ok r w" and "0 < r cb"
  obtains c where "cbs w cb = Some c" and "unat (m_count c) = r cb" and "0 < cb" and "cb < next_cb w"
proof -
  have "block_ok (next_cb w) cb (r cb) (cbs w cb)" using assms(1) by (simp add: counts_ok_def)
  then show thesis using assms(2) that by (cases "cbs w cb") (auto simp: block_ok_def)
qed

lemma counts_upd:
  assumes "counts_ok r w" and "block_ok (next_cb w) cb n e" and "cbs w' = (cbs w)(cb := e)"
    and "next_cb w' = next_cb w"
  shows "counts_ok (r(cb := n)) w'"
  using assms by (simp add: counts_ok_def)

lemma unat_Suc_pred:
  "unat (x :: u64) + 1 < 2 ^ 64 \<Longrightarrow> unat (x + 1) = unat x + 1"
  "0 < unat x \<Longrightarrow> unat (x - 1) = unat x - 1"
  by (simp add: unat_word_ariths) (simp add: unat_minus_one unat_gt_0)

section \<open>Steps of the reference count\<close>

lemma add_ref_counts:
  assumes "counts_ok r w" and "0 < r cb" and "r cb + 1 < 2 ^ 64"
  shows "\<exists>w'. add_ref cb w = Some w' \<and> counts_ok (r(cb := r cb + 1)) w' \<and> obj_of w' = obj_of w \<and>
    alive w' = alive w \<and> deleted w' = deleted w"
proof -
  obtain c where c: "cbs w cb = Some c" "unat (m_count c) = r cb" "0 < cb" "cb < next_cb w"
    using counts_Some [OF assms(1,2)] by blast
  have u: "unat (m_count c + 1) = r cb + 1" using c(2) assms(3) by (simp add: unat_Suc_pred)
  let ?w' = "w\<lparr>cbs := (cbs w)(cb \<mapsto> c\<lparr>m_count := m_count c + 1\<rparr>)\<rparr>"
  have "counts_ok (r(cb := r cb + 1)) ?w'"
    by (rule counts_upd [OF assms(1)]) (use c u in \<open>simp_all add: block_ok_def\<close>)
  then show ?thesis using c(1) by (simp add: add_ref_def obj_of_def fun_eq_iff)
qed

lemma release_shared:
  assumes "counts_ok r w" and "1 < r cb"
  shows "\<exists>w'. release cb w = Some w' \<and> counts_ok (r(cb := r cb - 1)) w' \<and> obj_of w' = obj_of w \<and>
    alive w' = alive w \<and> deleted w' = deleted w"
proof -
  obtain c where c: "cbs w cb = Some c" "unat (m_count c) = r cb" "0 < cb" "cb < next_cb w"
    using counts_Some [OF assms(1), of cb] assms(2) by auto
  have ne: "m_count c \<noteq> 1" using c(2) assms(2) by auto
  have u: "unat (m_count c - 1) = r cb - 1" using c(2) assms(2) by (simp add: unat_Suc_pred)
  let ?w' = "w\<lparr>cbs := (cbs w)(cb \<mapsto> c\<lparr>m_count := m_count c - 1\<rparr>)\<rparr>"
  have "counts_ok (r(cb := r cb - 1)) ?w'"
    by (rule counts_upd [OF assms(1)]) (use c u assms(2) in \<open>simp_all add: block_ok_def\<close>)
  then show ?thesis using c(1) ne by (simp add: release_def obj_of_def fun_eq_iff)
qed

lemma release_last:
  assumes "counts_ok r w" and "objects_ok w" and "r cb = 1"
  shows "\<exists>w'. release cb w = Some w' \<and> counts_ok (r(cb := 0)) w' \<and> objects_ok w' \<and>
    obj_of w' = (obj_of w)(cb := None) \<and>
    alive w' = alive w - {the (obj_of w cb)} \<and>
    deleted w' = deleted w @ (if obj_of w cb = Some 0 then [] else [the (obj_of w cb)])"
proof -
  obtain c where c: "cbs w cb = Some c" "unat (m_count c) = r cb" "0 < cb" "cb < next_cb w"
    using counts_Some [OF assms(1), of cb] assms(3) by auto
  then have one: "m_count c = 1" using assms(3) by (metis unsigned_1 word_unat_eq_iff)
  let ?p = "cb_obj c"
  let ?w' = "w\<lparr>cbs := (cbs w)(cb := None), alive := alive w - {?p},
      deleted := deleted w @ (if ?p = 0 then [] else [?p])\<rparr>"
  have obj: "obj_of w cb = Some ?p" using c(1) by (simp add: obj_of_def)
  have p: "?p = 0 \<or> ?p \<in> alive w" using assms(2) ownedI [OF obj] by (auto simp: objects_ok_def)
  then have "release cb w = Some ?w'"
    using c(1) one assms(2) by (auto simp: release_def run_deleter_def objects_ok_def)
  moreover have "counts_ok (r(cb := 0)) ?w'"
    by (rule counts_upd [OF assms(1), where e = None]) (simp_all add: block_ok_def)
  moreover have objs: "obj_of ?w' = (obj_of w)(cb := None)" by (simp add: obj_of_def fun_eq_iff)
  moreover have "objects_ok ?w'"
  proof -
    have "a = cb" if "obj_of w a = Some ?p" "?p \<noteq> 0" for a
      using assms(2) obj that unfolding objects_ok_def one_owner_def by metis
    then have "owned ?w' \<subseteq> owned w - {?p}" unfolding owned_def objs by (auto split: if_splits)
    then have "owned ?w' \<subseteq> alive w - {?p}" using assms(2) by (auto simp: objects_ok_def)
    moreover have "distinct (deleted ?w')" "set (deleted ?w') \<inter> alive ?w' = {}"
      using assms(2) p by (auto simp: objects_ok_def)
    moreover have "one_owner ?w'"
      unfolding one_owner_def
    proof (intro allI impI)
      fix a b p assume "obj_of ?w' a = Some p \<and> obj_of ?w' b = Some p \<and> p \<noteq> 0"
      then have "obj_of w a = Some p" "obj_of w b = Some p" "p \<noteq> 0" unfolding objs by (auto split: if_splits)
      then show "a = b" using assms(2) unfolding objects_ok_def one_owner_def by metis
    qed
    ultimately show ?thesis using assms(2) by (simp add: objects_ok_def)
  qed
  ultimately show ?thesis using obj by (intro exI [of _ ?w']) simp
qed

section \<open>Steps of a handle\<close>

text \<open>
  Every object that was ever handed to a control block: managed now, or deleted.
\<close>

definition ledger :: "world \<Rightarrow> nat set" where
  "ledger w = owned w \<union> set (deleted w)"

lemma refs_drop:
  "i < length vs \<Longrightarrow> vs ! i = Some h \<Longrightarrow>
   refs (vs[i := Some null_handle]) = (if p_cb h = 0 then refs vs else (refs vs)(p_cb h := refs vs (p_cb h) - 1))"
  by (auto simp: fun_eq_iff refs_upd null_handle_def)

lemma null_handle_ok [simp]: "handle_ok w null_handle"
  by (simp add: handle_ok_def null_handle_def)

lemma drop_handle:
  assumes "sp_inv vs w" and "i < length vs" and "vs ! i = Some h"
  shows "\<exists>w'. (if p_cb h \<noteq> 0 then release (p_cb h) w else Some w) = Some w' \<and>
    sp_inv (vs[i := Some null_handle]) w' \<and> ledger w' = ledger w \<and> alive w - alive w' \<subseteq> ledger w \<and> alive w' \<subseteq> alive w"
proof (cases "p_cb h = 0")
  case True
  then show ?thesis
    using assms(1) refs_drop [OF assms(2,3)] by (auto simp: sp_inv_def dest!: set_update_subset_insert [THEN subsetD])
next
  case False
  let ?cb = "p_cb h" and ?vs = "vs[i := Some null_handle]"
  have inv: "counts_ok (refs vs) w" "objects_ok w" using assms(1) by (simp_all add: sp_inv_def)
  have refs': "refs ?vs = (refs vs)(?cb := refs vs ?cb - 1)"
    using refs_drop [OF assms(2,3)] False by simp
  have pos: "0 < refs vs ?cb" using hit_le_refs [OF assms(2), of ?cb] assms(3) False by simp
  have h: "obj_of w ?cb = Some (p_obj h)"
    using assms False nth_mem [OF assms(2)] by (auto simp: sp_inv_def handle_ok_def)
  show ?thesis
  proof (cases "refs vs ?cb = 1")
    case last: True
    obtain w' where w': "release ?cb w = Some w'" "counts_ok ((refs vs)(?cb := 0)) w'" "objects_ok w'"
      "obj_of w' = (obj_of w)(?cb := None)" "alive w' = alive w - {p_obj h}"
      "deleted w' = deleted w @ (if p_obj h = 0 then [] else [p_obj h])"
      using release_last [OF inv last] h by auto
    have "handle_ok w' g" if g: "Some g \<in> set ?vs" for g
    proof (cases "g = null_handle")
      case False
      obtain j where "j < length ?vs" "?vs ! j = Some g" using g by (auto simp: in_set_conv_nth)
      with False have j: "j < length vs" "j \<noteq> i" "vs ! j = Some g"
        using assms(2) by (auto simp: nth_list_update split: if_splits)
      have "p_cb g \<noteq> ?cb"
        using refs_two [OF assms(2) j(1), of ?cb] j assms(3) last \<open>p_cb h \<noteq> 0\<close> by auto
      moreover have "handle_ok w g" using assms(1) j by (auto simp: sp_inv_def dest: nth_mem)
      ultimately show ?thesis by (auto simp: handle_ok_def w'(4))
    qed simp
    moreover have "ledger w' = ledger w"
    proof -
      have "p \<in> insert (p_obj h) (owned w')" if p: "p \<in> owned w" for p
      proof -
        obtain a where "obj_of w a = Some p" "p \<noteq> 0" using p by (auto simp: owned_def)
        then show ?thesis using h by (cases "a = ?cb") (auto simp: owned_def w'(4))
      qed
      then have "owned w \<subseteq> insert (p_obj h) (owned w')" by blast
      moreover have "owned w' \<subseteq> owned w" by (auto simp: owned_def w'(4) split: if_splits)
      moreover have "p_obj h \<noteq> 0 \<longrightarrow> p_obj h \<in> owned w" using ownedI [OF h] by blast
      moreover have "0 \<notin> owned w" by (simp add: owned_def)
      ultimately have "owned w = owned w' \<union> (if p_obj h = 0 then {} else {p_obj h})"
        by (cases "p_obj h = 0") auto
      then show ?thesis by (auto simp: ledger_def w'(6))
    qed
    moreover have "sp_inv ?vs w'"
      unfolding sp_inv_def refs' using w'(2,3) assms(1) last calculation(1) by (simp add: sp_inv_def)
    moreover have "alive w - alive w' \<subseteq> ledger w"
    proof (cases "p_obj h = 0")
      case True
      then show ?thesis using inv(2) by (auto simp: w'(5) objects_ok_def)
    next
      case False
      then show ?thesis using ownedI [OF h] by (auto simp: w'(5) ledger_def)
    qed
    ultimately show ?thesis using w'(1,5) False by (intro exI [of _ w']) auto
  next
    case shared: False
    obtain w' where w': "release ?cb w = Some w'" "counts_ok ((refs vs)(?cb := refs vs ?cb - 1)) w'"
      "obj_of w' = obj_of w" "alive w' = alive w" "deleted w' = deleted w"
      using release_shared [OF inv(1), of ?cb] pos shared by auto
    then have "sp_inv ?vs w'"
      using assms(1) refs' inv(2)
      by (auto simp: sp_inv_def objects_cong [OF w'(3-5)] handle_cong [OF w'(3)] dest!: set_update_subset_insert [THEN subsetD])
    then show ?thesis using w' False by (simp add: ledger_def owned_cong [OF w'(3)])
  qed
qed

text \<open>A variable that holds no reference: not constructed, or a null handle.\<close>

definition empty_var :: "handle option \<Rightarrow> bool" where
  "empty_var x \<longleftrightarrow> x = None \<or> x = Some null_handle"

lemma hit_empty [simp]: "empty_var x \<Longrightarrow> hit cb x = 0"
  by (auto simp: empty_var_def null_handle_def)

lemma handles_upd:
  assumes "\<forall>h. Some h \<in> set vs \<longrightarrow> handle_ok w h" and "\<And>h. x = Some h \<Longrightarrow> handle_ok w h"
  shows "\<forall>h. Some h \<in> set (vs[i := x]) \<longrightarrow> handle_ok w h"
  using assms set_update_subset_insert [of vs i x] by auto

lemma empty_swap:
  assumes "sp_inv vs w" and "i < length vs" and "empty_var (vs ! i)" and "empty_var x"
  shows "sp_inv (vs[i := x]) w"
proof -
  have "refs (vs[i := x]) = refs vs" using assms by (simp add: fun_eq_iff refs_upd)
  moreover have "handle_ok w h" if "x = Some h" for h using assms(4) that by (simp add: empty_var_def)
  ultimately show ?thesis
    using assms(1) handles_upd [of vs w x i] by (simp add: sp_inv_def)
qed

lemma share_handle:
  assumes "sp_inv vs w" and "i < length vs" and "empty_var (vs ! i)" and "Some h \<in> set vs"
  shows "\<exists>w'. (if p_cb h \<noteq> 0 then add_ref (p_cb h) w else Some w) = Some w' \<and>
    sp_inv (vs[i := Some h]) w' \<and> ledger w' = ledger w \<and> alive w' = alive w"
proof (cases "p_cb h = 0")
  case True
  then have "refs (vs[i := Some h]) = refs vs" using assms(2,3) by (auto simp: fun_eq_iff refs_upd)
  then show ?thesis
    using assms True handles_upd [of vs w "Some h" i] by (simp add: sp_inv_def)
next
  case False
  let ?cb = "p_cb h" and ?vs = "vs[i := Some h]"
  have inv: "counts_ok (refs vs) w" "objects_ok w" using assms(1) by (simp_all add: sp_inv_def)
  obtain j where j: "j < length vs" "vs ! j = Some h" using assms(4) by (auto simp: in_set_conv_nth)
  have pos: "0 < refs vs ?cb" using hit_le_refs [OF j(1), of ?cb] j(2) False by simp
  have refs': "refs ?vs = (refs vs)(?cb := refs vs ?cb + 1)"
    using assms(2,3) False by (auto simp: fun_eq_iff refs_upd)
  then have "refs vs ?cb + 1 = refs ?vs ?cb" by simp
  also have "\<dots> \<le> length vs" using refs_le [of ?vs ?cb] by simp
  finally have "refs vs ?cb + 1 < 2 ^ 64" using assms(1) by (simp add: sp_inv_def)
  from add_ref_counts [OF inv(1) pos this] obtain w' where w': "add_ref ?cb w = Some w'"
    "counts_ok (refs ?vs) w'" "obj_of w' = obj_of w" "alive w' = alive w" "deleted w' = deleted w"
    by (auto simp: refs')
  have "handle_ok w h" using assms(1,4) by (simp add: sp_inv_def)
  then have "sp_inv ?vs w'"
    using assms(1) w'(2) inv(2) handles_upd [of vs w "Some h" i]
    by (simp add: sp_inv_def objects_cong [OF w'(3-5)] handle_cong [OF w'(3)])
  then show ?thesis using w' False by (simp add: ledger_def owned_cong [OF w'(3)])
qed

lemma move_handle:
  assumes "sp_inv vs w" and "i < length vs" and "j < length vs" and "i \<noteq> j"
    and "empty_var (vs ! i)" and "vs ! j = Some h"
  shows "sp_inv (vs[i := Some h, j := Some null_handle]) w"
proof -
  have "hit cb (Some h) \<le> refs vs cb" for cb using hit_le_refs [OF assms(3), of cb] assms(6) by simp
  then have "refs (vs[i := Some h, j := Some null_handle]) cb = refs vs cb" for cb
    using assms(2-6) by (simp add: refs_upd del: hit.simps(2)) (auto simp: null_handle_def)
  then have "refs (vs[i := Some h, j := Some null_handle]) = refs vs" by (rule ext)
  moreover have "handle_ok w h" using assms(1,3,6) by (auto simp: sp_inv_def dest: nth_mem)
  then have "\<forall>g. Some g \<in> set (vs[i := Some h]) \<longrightarrow> handle_ok w g"
    using assms(1) by (intro handles_upd) (simp_all add: sp_inv_def)
  then have "\<forall>g. Some g \<in> set (vs[i := Some h, j := Some null_handle]) \<longrightarrow> handle_ok w g"
    by (rule handles_upd) auto
  ultimately show ?thesis using assms(1) by (simp add: sp_inv_def)
qed

text \<open>A raw pointer may be handed over when its object is alive and nobody owns it.\<close>

definition loose :: "nat \<Rightarrow> world \<Rightarrow> bool" where
  "loose p w \<longleftrightarrow> p = 0 \<or> p \<in> alive w \<and> p \<notin> owned w"

lemma new_handle:
  assumes "sp_inv vs w" and "i < length vs" and "empty_var (vs ! i)" and "loose p w"
  shows "new_cb p w = (next_cb w, snd (new_cb p w)) \<and>
    sp_inv (vs[i := Some \<lparr>p_obj = p, p_cb = next_cb w\<rparr>]) (snd (new_cb p w)) \<and>
    ledger (snd (new_cb p w)) = ledger w \<union> ({p} - {0}) \<and> alive (snd (new_cb p w)) = alive w"
proof -
  let ?cb = "next_cb w" and ?w' = "snd (new_cb p w)"
  let ?vs = "vs[i := Some \<lparr>p_obj = p, p_cb = ?cb\<rparr>]"
  have inv: "counts_ok (refs vs) w" "objects_ok w" using assms(1) by (simp_all add: sp_inv_def)
  have cb: "0 < ?cb" "block_ok ?cb ?cb (refs vs ?cb) (cbs w ?cb)"
    using inv(1) by (simp_all add: counts_ok_def)
  then have new: "refs vs ?cb = 0" "cbs w ?cb = None" by (auto simp: block_ok_def split: option.splits)
  then have objs: "obj_of ?w' = (obj_of w)(?cb := Some p)" "obj_of w ?cb = None"
    by (auto simp: obj_of_def new_cb_def)
  have same: "alive ?w' = alive w" "deleted ?w' = deleted w" "next_cb ?w' = ?cb + 1"
    "cbs ?w' = (cbs w)(?cb \<mapsto> \<lparr>m_count = 1, cb_obj = p\<rparr>)"
    by (simp_all add: new_cb_def)
  have own: "owned ?w' = owned w \<union> ({p} - {0})"
  proof -
    have "(\<exists>a. obj_of ?w' a = Some q) \<longleftrightarrow> q = p \<or> (\<exists>a. obj_of w a = Some q)" for q
      unfolding objs(1) using objs(2) by (metis fun_upd_apply option.distinct(1) option.inject)
    then show ?thesis by (auto simp: owned_def)
  qed
  have refs': "refs ?vs = (refs vs)(?cb := 1)"
    using assms(2,3) cb(1) new(1) by (auto simp: fun_eq_iff refs_upd)
  have "block_ok (?cb + 1) a (refs ?vs a) (cbs ?w' a)" for a
  proof (cases "a = ?cb")
    case True
    then show ?thesis using cb(1) by (simp add: block_ok_def refs' same)
  next
    case False
    have "block_ok ?cb a (refs vs a) (cbs w a)" using inv(1) by (simp add: counts_ok_def)
    then show ?thesis using False by (auto simp: block_ok_def refs' same split: option.splits)
  qed
  then have "counts_ok (refs ?vs) ?w'" by (simp add: counts_ok_def same)
  moreover have "one_owner ?w'"
    unfolding one_owner_def
  proof (intro allI impI)
    fix a b q assume q: "obj_of ?w' a = Some q \<and> obj_of ?w' b = Some q \<and> q \<noteq> 0"
    have "p \<notin> owned w" if "p \<noteq> 0" using that assms(4) by (simp add: loose_def)
    then have "obj_of w c \<noteq> Some q" if "p = q" for c using that q ownedI by metis
    then show "a = b"
      using q inv(2) unfolding objs objects_ok_def one_owner_def
      by (cases "a = ?cb"; cases "b = ?cb") (simp, simp, simp, metis fun_upd_other)
  qed
  then have "objects_ok ?w'"
    using inv(2) assms(4) by (auto simp: objects_ok_def own same loose_def)
  moreover have "handle_ok ?w' g" if "Some g \<in> set vs" for g
  proof -
    have "handle_ok w g" using assms(1) that by (simp add: sp_inv_def)
    then show ?thesis using objs by (auto simp: handle_ok_def)
  qed
  moreover have "handle_ok ?w' \<lparr>p_obj = p, p_cb = ?cb\<rparr>" using cb(1) by (simp add: handle_ok_def objs)
  ultimately have "sp_inv ?vs ?w'"
    using assms(1) handles_upd [of vs ?w' "Some \<lparr>p_obj = p, p_cb = ?cb\<rparr>" i] by (simp add: sp_inv_def)
  then show ?thesis by (auto simp: ledger_def own same) (simp_all add: new_cb_def)
qed

section \<open>Programs\<close>

fun sp_legal :: "sp_op \<Rightarrow> vars \<Rightarrow> world \<Rightarrow> bool" where
  "sp_legal (Default i) vs w = unborn i vs"
| "sp_legal (FromPointer i p) vs w = (unborn i vs \<and> loose p w)"
| "sp_legal (CopyCtor i j) vs w = (unborn i vs \<and> var j vs \<noteq> None)"
| "sp_legal (MoveCtor i j) vs w = (unborn i vs \<and> var j vs \<noteq> None)"
| "sp_legal (CopyAssign i j) vs w = (var i vs \<noteq> None \<and> var j vs \<noteq> None)"
| "sp_legal (MoveAssign i j) vs w = (var i vs \<noteq> None \<and> var j vs \<noteq> None)"
| "sp_legal (Reset i) vs w = (var i vs \<noteq> None)"
| "sp_legal (ResetTo i p) vs w = (var i vs \<noteq> None \<and> loose p w)"
| "sp_legal (Dtor i) vs w = (var i vs \<noteq> None)"

fun adopts :: "sp_op \<Rightarrow> nat set" where
  "adopts (FromPointer i p) = {p} - {0}"
| "adopts (ResetTo i p) = {p} - {0}"
| "adopts _ = {}"

text \<open>What a step leaves: the invariant, the variables' number and the objects accounted for.\<close>

definition sp_after :: "nat set \<Rightarrow> vars \<Rightarrow> world \<Rightarrow> vars \<Rightarrow> world \<Rightarrow> bool" where
  "sp_after A vs w vs' w' \<longleftrightarrow> sp_inv vs' w' \<and> length vs' = length vs \<and> ledger w' = ledger w \<union> A"

lemma varD: "var i vs = Some h \<Longrightarrow> i < length vs \<and> vs ! i = Some h \<and> Some h \<in> set vs"
  by (auto simp: var_def in_set_conv_nth split: if_splits)

lemma unbornD: "unborn i vs \<Longrightarrow> i < length vs \<and> empty_var (vs ! i)"
  by (simp add: unborn_def empty_var_def)

lemma null_empty [simp]: "empty_var (Some null_handle)" "empty_var None"
  by (simp_all add: empty_var_def)

lemma handle_eta: "\<lparr>p_obj = p_obj h, p_cb = p_cb h\<rparr> = (h :: handle)"
  by simp

lemma handle_upd: "h\<lparr>p_obj := a, p_cb := b\<rparr> = \<lparr>p_obj = a, p_cb = b\<rparr>" for h :: handle
  by (cases h) simp

lemma exec_drop:
  assumes "sp_inv vs w" and "var i vs = Some h"
  shows "\<exists>w'. reset h w = Some (null_handle, w') \<and> sp_inv (vs[i := Some null_handle]) w' \<and>
    sp_inv (vs[i := None]) w' \<and> ledger w' = ledger w"
proof -
  obtain w' where w': "(if p_cb h \<noteq> 0 then release (p_cb h) w else Some w) = Some w'"
    "sp_inv (vs[i := Some null_handle]) w'" "ledger w' = ledger w"
    using drop_handle [OF assms(1), of i h] varD [OF assms(2)] by blast
  have "sp_inv (vs[i := None]) w'"
    using empty_swap [OF w'(2), of i None] varD [OF assms(2)] by simp
  then show ?thesis using w' by (simp add: reset_def)
qed

lemma exec_copy_assign:
  assumes "sp_inv vs w" and "var i vs = Some h" and "var j vs = Some g" and "i \<noteq> j"
  shows "\<exists>w'. copy_assign h (in_variable g) w = Some (g, w') \<and> sp_after {} vs w (vs[i := Some g]) w'"
proof -
  obtain w1 where w1: "(if p_cb h \<noteq> 0 then release (p_cb h) w else Some w) = Some w1"
    "sp_inv (vs[i := Some null_handle]) w1" "ledger w1 = ledger w"
    using drop_handle [OF assms(1), of i h] varD [OF assms(2)] by blast
  have "Some g \<in> set (vs[i := Some null_handle])"
    using varD [OF assms(3)] assms(4) by (metis nth_list_update_neq length_list_update nth_mem)
  then obtain w2 where w2: "(if p_cb g \<noteq> 0 then add_ref (p_cb g) w1 else Some w1) = Some w2"
    "sp_inv (vs[i := Some g]) w2" "ledger w2 = ledger w1"
    using share_handle [OF w1(2), of i g] varD [OF assms(2)] by auto
  show ?thesis
    using w1(1,3) w2 by (simp add: copy_assign_def in_variable_def handle_eta sp_after_def)
qed

lemma exec_move_assign:
  assumes "sp_inv vs w" and "var i vs = Some h" and "var j vs = Some g" and "i \<noteq> j"
  shows "\<exists>w'. move_assign h (in_variable g) w = Some (g, null_handle, w') \<and>
    sp_after {} vs w (vs[i := Some g, j := Some null_handle]) w'"
proof -
  obtain w1 where w1: "(if p_cb h \<noteq> 0 then release (p_cb h) w else Some w) = Some w1"
    "sp_inv (vs[i := Some null_handle]) w1" "ledger w1 = ledger w"
    using drop_handle [OF assms(1), of i h] varD [OF assms(2)] by blast
  have "sp_inv (vs[i := Some g, j := Some null_handle]) w1"
    using move_handle [OF w1(2), of i j g] varD [OF assms(2)] varD [OF assms(3)] assms(4) by simp
  then show ?thesis using w1 by (simp add: move_assign_def in_variable_def handle_eta sp_after_def)
qed

lemma exec_reset_to:
  assumes "sp_inv vs w" and "var i vs = Some h" and "loose p w"
  shows "\<exists>h' w'. reset_to True p h w = Some (True, h', w') \<and> sp_after ({p} - {0}) vs w (vs[i := Some h']) w'"
proof -
  obtain w1 where w1: "(if p_cb h \<noteq> 0 then release (p_cb h) w else Some w) = Some w1"
    "sp_inv (vs[i := Some null_handle]) w1" "ledger w1 = ledger w" "alive w - alive w1 \<subseteq> ledger w" "alive w1 \<subseteq> alive w"
    using drop_handle [OF assms(1), of i h] varD [OF assms(2)] by blast
  show ?thesis
  proof (cases "p = 0")
    case True
    then show ?thesis
      using w1 by (simp add: reset_to_def sp_after_def null_handle_def handle_upd)
  next
    case False
    have ok: "objects_ok w" "objects_ok w1" using assms(1) w1(2) by (simp_all add: sp_inv_def)
    have "p \<notin> ledger w" using assms(3) False ok(1) by (auto simp: loose_def ledger_def objects_ok_def)
    then have "loose p w1" using w1(3,4) assms(3) False by (auto simp: loose_def ledger_def)
    then have "sp_inv (vs[i := Some \<lparr>p_obj = p, p_cb = next_cb w1\<rparr>]) (snd (new_cb p w1))"
      "ledger (snd (new_cb p w1)) = ledger w1 \<union> ({p} - {0})" "new_cb p w1 = (next_cb w1, snd (new_cb p w1))"
      using new_handle [OF w1(2), of i p] varD [OF assms(2)] by auto
    then show ?thesis
      using w1(1,3) False
      by (intro exI [of _ "\<lparr>p_obj = p, p_cb = next_cb w1\<rparr>"] exI [of _ "snd (new_cb p w1)"])
        (simp add: reset_to_def sp_after_def handle_upd case_prod_beta del: split_paired_Ex, simp add: new_cb_def)
  qed
qed

lemma exec_new:
  assumes "sp_inv vs w" and "unborn i vs" and "loose p w"
  shows "\<exists>h w'. ctor_pointer True p w = (Some h, w') \<and> sp_after ({p} - {0}) vs w (vs[i := Some h]) w'"
  using new_handle [OF assms(1), of i p] unbornD [OF assms(2)] assms(3)
  by (auto simp: ctor_pointer_def sp_after_def case_prod_beta new_cb_def)

lemma exec_copy:
  assumes "sp_inv vs w" and "unborn i vs" and "var j vs = Some g"
  shows "\<exists>w'. copy_ctor g w = Some (g, w') \<and> sp_after {} vs w (vs[i := Some g]) w'"
  using share_handle [OF assms(1), of i g] unbornD [OF assms(2)] varD [OF assms(3)]
  by (auto simp: copy_ctor_def sp_after_def handle_eta)

lemma exec_move:
  assumes "sp_inv vs w" and "unborn i vs" and "var j vs = Some g"
  shows "sp_after {} vs w (vs[i := Some g, j := Some null_handle]) w"
proof -
  have "i \<noteq> j" using assms(2,3) by (auto simp: unborn_def var_def split: if_splits)
  then show ?thesis
    using move_handle [OF assms(1), of i j g] unbornD [OF assms(2)] varD [OF assms(3)]
    by (simp add: sp_after_def)
qed

lemma sp_exec_after:
  assumes "sp_inv vs w" and "sp_legal op vs w"
  shows "\<exists>vs' w'. sp_exec True op (vs, w) = Some (vs', w') \<and> sp_after (adopts op) vs w vs' w'"
proof (cases op)
  case (Default i)
  then show ?thesis
    using assms empty_swap [OF assms(1), of i "Some null_handle"] unbornD [of i vs] by (simp add: sp_after_def)
next
  case (FromPointer i p)
  then have "unborn i vs" "loose p w" using assms(2) by simp_all
  from exec_new [OF assms(1) this] show ?thesis using FromPointer \<open>unborn i vs\<close> by auto
next
  case (CopyCtor i j)
  then obtain g where g: "unborn i vs" "var j vs = Some g" using assms(2) by auto
  from exec_copy [OF assms(1) this] show ?thesis using CopyCtor g by auto
next
  case (MoveCtor i j)
  then obtain g where g: "unborn i vs" "var j vs = Some g" using assms(2) by auto
  from exec_move [OF assms(1) this] show ?thesis using MoveCtor g by (auto simp: move_ctor_def handle_eta)
next
  case (CopyAssign i j)
  then obtain h g where g: "var i vs = Some h" "var j vs = Some g" using assms(2) by auto
  from exec_copy_assign [OF assms(1) this] show ?thesis
    using CopyAssign g assms(1) by (cases "i = j") (auto simp: sp_after_def)
next
  case (MoveAssign i j)
  then obtain h g where g: "var i vs = Some h" "var j vs = Some g" using assms(2) by auto
  from exec_move_assign [OF assms(1) this] show ?thesis
    using MoveAssign g assms(1) by (cases "i = j") (auto simp: sp_after_def)
next
  case (Reset i)
  then obtain h where h: "var i vs = Some h" using assms(2) by auto
  from exec_drop [OF assms(1) this] show ?thesis using Reset h by (auto simp: sp_after_def)
next
  case (ResetTo i p)
  then obtain h where h: "var i vs = Some h" "loose p w" using assms(2) by auto
  from exec_reset_to [OF assms(1) this] show ?thesis using ResetTo h by auto
next
  case (Dtor i)
  then obtain h where h: "var i vs = Some h" using assms(2) by auto
  from exec_drop [OF assms(1) this] show ?thesis using Dtor h by (auto simp: sp_after_def)
qed

text \<open>
  The states a program with n variables reaches, with the objects it has handed over so far. It
  can allocate an object (at an address not used before) at any time.
\<close>

definition world_init :: world where
  [run_simps]: "world_init = \<lparr>cbs = (\<lambda>_. None), next_cb = 1, alive = {}, deleted = []\<rparr>"

datatype sp_label = Allocate nat | Operate sp_op

fun sp_step :: "sp_label \<Rightarrow> vars \<times> world \<times> nat set \<Rightarrow> (vars \<times> world \<times> nat set) option" where
  "sp_step (Allocate p) (vs, w, A) =
     (if p \<noteq> 0 \<and> p \<notin> alive w \<and> p \<notin> set (deleted w) then Some (vs, w\<lparr>alive := insert p (alive w)\<rparr>, A) else None)"
| "sp_step (Operate op) (vs, w, A) =
     (if sp_legal op vs w
      then (case sp_exec True op (vs, w) of None \<Rightarrow> None | Some (vs', w') \<Rightarrow> Some (vs', w', A \<union> adopts op))
      else None)"

abbreviation sp_start :: "nat \<Rightarrow> vars \<times> world \<times> nat set" where
  "sp_start n \<equiv> (replicate n None, world_init, {})"

abbreviation sp_reach :: "nat \<Rightarrow> vars \<Rightarrow> world \<Rightarrow> nat set \<Rightarrow> bool" where
  "sp_reach n vs w A \<equiv> reachable (sp_start n) sp_step (vs, w, A)"

lemma sp_alloc:
  "sp_reach n vs w A \<Longrightarrow> p \<noteq> 0 \<Longrightarrow> p \<notin> alive w \<Longrightarrow> p \<notin> set (deleted w) \<Longrightarrow>
    sp_reach n vs (w\<lparr>alive := insert p (alive w)\<rparr>) A"
  by (erule reach_step [where l = "Allocate p"]) simp

lemma sp_next:
  "sp_reach n vs w A \<Longrightarrow> sp_legal op vs w \<Longrightarrow> sp_exec True op (vs, w) = Some (vs', w') \<Longrightarrow>
    sp_reach n vs' w' (A \<union> adopts op)"
  by (erule reach_step [where l = "Operate op"]) simp

lemma sp_init_inv:
  assumes "n < 2 ^ 64"
  shows "sp_inv (replicate n None) world_init"
proof -
  have "refs (replicate n None) = (\<lambda>_. 0)" by (rule ext) (simp add: refs_def sum_list_replicate)
  then have "counts_ok (refs (replicate n None)) world_init"
    by (simp add: counts_ok_def block_ok_def world_init_def)
  moreover have "objects_ok world_init"
    by (simp add: objects_ok_def one_owner_def owned_def obj_of_def world_init_def)
  ultimately show ?thesis using assms by (simp add: sp_inv_def)
qed

lemma sp_alloc_inv:
  assumes "sp_inv vs w" and "p \<noteq> 0" and "p \<notin> alive w" and "p \<notin> set (deleted w)"
  shows "sp_inv vs (w\<lparr>alive := insert p (alive w)\<rparr>)" and "ledger (w\<lparr>alive := insert p (alive w)\<rparr>) = ledger w"
proof -
  let ?w = "w\<lparr>alive := insert p (alive w)\<rparr>"
  have same: "obj_of ?w = obj_of w" by (simp add: obj_of_def fun_eq_iff)
  have "objects_ok ?w"
    using assms by (auto simp: sp_inv_def objects_ok_def owned_cong [OF same] one_owner_def same)
  then show "sp_inv vs ?w"
    using assms(1) by (simp add: sp_inv_def counts_ok_def handle_cong [OF same])
  show "ledger ?w = ledger w" by (simp add: ledger_def owned_cong [OF same])
qed

text \<open>The invariant, of programs with fewer variables than the counter can count.\<close>

definition sp_machine_inv :: "nat \<Rightarrow> vars \<times> world \<times> nat set \<Rightarrow> bool" where
  "sp_machine_inv n s \<longleftrightarrow>
     (n < 2 ^ 64 \<longrightarrow> (case s of (vs, w, A) \<Rightarrow> sp_inv vs w \<and> ledger w = A \<and> length vs = n))"

lemma sp_step_inv:
  assumes "sp_machine_inv n s" and "sp_step l s = Some s'"
  shows "sp_machine_inv n s'"
proof -
  obtain vs w A where s: "s = (vs, w, A)" by (cases s)
  show ?thesis
  proof (cases l)
    case (Allocate p)
    then show ?thesis using assms sp_alloc_inv [of vs w p] by (auto simp: s sp_machine_inv_def split: if_splits)
  next
    case (Operate op)
    then show ?thesis
      using assms sp_exec_after [of vs w op] by (auto simp: s sp_machine_inv_def sp_after_def split: if_splits option.splits)
  qed
qed

interpretation sharing_program: machine "sp_start n" sp_step "sp_machine_inv n" for n
proof
  have "ledger world_init = {}" by (simp add: ledger_def owned_def obj_of_def world_init_def)
  then show "sp_machine_inv n (sp_start n)" by (simp add: sp_machine_inv_def sp_init_inv)
qed (rule sp_step_inv)

lemma sp_reach_inv: "sp_reach n vs w A \<Longrightarrow> n < 2 ^ 64 \<Longrightarrow> sp_inv vs w \<and> ledger w = A \<and> length vs = n"
  using sharing_program.reachable_inv [of n "(vs, w, A)"] by (simp add: sp_machine_inv_def)

section \<open>Properties\<close>

text \<open>
  C17: no program misuses memory through the handles alone. Whatever its constructions, copies,
  moves, assignments (self-assignments included), resets and destructions, each is defined, as
  long as a variable is used between its constructor and destructor, a raw pointer is handed
  over once, and the control blocks can be allocated; and the next state is well formed again.
\<close>

theorem sp_defined:
  assumes "n < 2 ^ 64" and "sp_reach n vs w A" and "sp_legal op vs w"
  shows "\<exists>vs' w'. sp_exec True op (vs, w) = Some (vs', w') \<and> sp_inv vs' w'"
  using sp_reach_inv [OF assms(2,1)] sp_exec_after [OF _ assms(3)] by (auto simp: sp_after_def)

definition w7 :: world where
  "w7 = \<lparr>cbs = (\<lambda>_. None), next_cb = 1, alive = {7}, deleted = []\<rparr>"

definition w7_owned :: "u64 \<Rightarrow> world" where
  "w7_owned k = \<lparr>cbs = [1 \<mapsto> \<lparr>m_count = k, cb_obj = 7\<rparr>], next_cb = 2, alive = {7}, deleted = []\<rparr>"

abbreviation h7 :: handle where
  "h7 \<equiv> \<lparr>p_obj = 7, p_cb = 1\<rparr>"

lemma demo_reach1: "sp_reach 2 [Some h7, None] (w7_owned 1) {7}"
proof -
  have "sp_reach 2 [None, None] w7 {}"
    using sp_alloc [OF reach_start, of 7 2] by (simp add: w7_def world_init_def numeral_2_eq_2)
  moreover have "sp_legal (FromPointer 0 7) [None, None] w7"
    by (simp add: unborn_def loose_def w7_def owned_def obj_of_def)
  moreover have "sp_exec True (FromPointer 0 7) ([None, None], w7) = Some ([Some h7, None], w7_owned 1)"
    by (simp add: unborn_def ctor_pointer_def new_cb_def w7_def w7_owned_def)
  ultimately have "sp_reach 2 [Some h7, None] (w7_owned 1) ({} \<union> adopts (FromPointer 0 7))"
    by (rule sp_next)
  then show ?thesis by simp
qed

lemma demo_reach2: "sp_reach 2 [Some h7, Some h7] (w7_owned 2) {7}"
proof -
  have "sp_legal (CopyCtor 1 0) [Some h7, None] (w7_owned 1)" by (simp add: unborn_def var_def)
  moreover have "sp_exec True (CopyCtor 1 0) ([Some h7, None], w7_owned 1) = Some ([Some h7, Some h7], w7_owned 2)"
    by (simp add: unborn_def var_def copy_ctor_def add_ref_def w7_owned_def)
  ultimately have "sp_reach 2 [Some h7, Some h7] (w7_owned 2) ({7} \<union> adopts (CopyCtor 1 0))"
    by (rule sp_next [OF demo_reach1])
  then show ?thesis by simp
qed

theorem sp_defined_witness:
  "\<exists>vs' w'. sp_exec True (CopyAssign 1 0) ([Some h7, Some h7], w7_owned 2) = Some (vs', w') \<and> sp_inv vs' w'"
  by (rule sp_defined [OF _ demo_reach2]) (simp_all add: var_def)

definition sharing :: "vars \<Rightarrow> handle \<Rightarrow> nat" where
  "sharing vs h = (if p_cb h = 0 then 0 else length (filter (\<lambda>x. map_option p_cb x = Some (p_cb h)) vs))"

lemma refs_sharing: "p_cb h \<noteq> 0 \<Longrightarrow> refs vs (p_cb h) = sharing vs h"
proof -
  assume "p_cb h \<noteq> 0"
  moreover have "hit (p_cb h) x = (if map_option p_cb x = Some (p_cb h) then 1 else 0)" if "p_cb h \<noteq> 0" for x
    using that by (cases x) auto
  ultimately show ?thesis by (induction vs) (auto simp: refs_def sharing_def)
qed

text \<open>
  C18: a handle is never dangling and use_count is exact. Where a handle names an object, the
  object is alive; use_count is the number of variables that share its control block, and 0 for
  a null handle.
\<close>

theorem use_count_exact:
  assumes "n < 2 ^ 64" and "sp_reach n vs w A" and "var i vs = Some h"
  shows "map_option unat (use_count h w) = Some (sharing vs h) \<and> (arrow h = 0 \<or> arrow h \<in> alive w)"
proof -
  have inv: "counts_ok (refs vs) w" "objects_ok w" "handle_ok w h"
    using sp_reach_inv [OF assms(2,1)] varD [OF assms(3)] by (auto simp: sp_inv_def)
  show ?thesis
  proof (cases "p_cb h = 0")
    case True
    then show ?thesis using inv(3) by (simp add: use_count_def sharing_def arrow_def handle_ok_def)
  next
    case False
    have obj: "obj_of w (p_cb h) = Some (p_obj h)" using inv(3) False by (simp add: handle_ok_def)
    then have alive: "arrow h = 0 \<or> arrow h \<in> alive w"
      using inv(2) ownedI [OF obj] by (auto simp: arrow_def objects_ok_def)
    obtain c where c: "cbs w (p_cb h) = Some c" using obj by (auto simp: obj_of_def)
    have "block_ok (next_cb w) (p_cb h) (refs vs (p_cb h)) (cbs w (p_cb h))"
      using inv(1) by (simp add: counts_ok_def)
    then show ?thesis
      using False c alive by (simp add: block_ok_def use_count_def cb_use_count_def refs_sharing)
  qed
qed

theorem use_count_exact_witness:
  "map_option unat (use_count h7 (w7_owned 2)) = Some (sharing [Some h7, Some h7] h7) \<and>
   sharing [Some h7, Some h7] h7 = 2"
proof -
  have "sharing [Some h7, Some h7] h7 = 2" by (simp add: sharing_def)
  moreover have "(2::nat) < 2 ^ 64" by simp
  moreover have "var 0 [Some h7, Some h7] = Some h7" by (simp add: var_def)
  ultimately show ?thesis using use_count_exact [OF _ demo_reach2] by blast
qed

text \<open>The objects that the handles of the variables name.\<close>

definition named :: "vars \<Rightarrow> nat set" where
  "named vs = {p. p \<noteq> 0 \<and> (\<exists>i h. var i vs = Some h \<and> arrow h = p)}"

lemma named_iff: "p \<in> named vs \<longleftrightarrow> p \<noteq> 0 \<and> (\<exists>h. Some h \<in> set vs \<and> p_obj h = p)"
  by (auto simp: named_def var_def arrow_def in_set_conv_nth split: if_splits)

text \<open>A block is there only as long as a handle refers to it, so what the blocks manage is what the handles name.\<close>

lemma refs_pos: "0 < refs vs cb \<Longrightarrow> \<exists>h. Some h \<in> set vs \<and> p_cb h = cb"
proof (rule ccontr)
  assume "0 < refs vs cb" and none: "\<not> (\<exists>h. Some h \<in> set vs \<and> p_cb h = cb)"
  then have "hit cb x = 0" if "x \<in> set vs" for x using that by (cases x) auto
  then have "refs vs cb = 0" by (simp add: refs_def sum_list_eq_0_iff)
  then show False using \<open>0 < refs vs cb\<close> by simp
qed

lemma owned_named:
  assumes "sp_inv vs w"
  shows "owned w = named vs"
proof (rule set_eqI)
  fix p
  have handles: "handle_ok w h" if "Some h \<in> set vs" for h using assms that by (simp add: sp_inv_def)
  show "p \<in> owned w \<longleftrightarrow> p \<in> named vs"
  proof
    assume "p \<in> owned w"
    then obtain cb where cb: "p \<noteq> 0" "obj_of w cb = Some p" by (auto simp: owned_def)
    have "block_ok (next_cb w) cb (refs vs cb) (cbs w cb)" using assms by (simp add: sp_inv_def counts_ok_def)
    then have "0 < refs vs cb" "cb \<noteq> 0" using cb(2) by (auto simp: block_ok_def obj_of_def)
    then obtain h where "Some h \<in> set vs" "p_cb h = cb" using refs_pos by blast
    then have "p_obj h = p" using handles [of h] cb(2) \<open>cb \<noteq> 0\<close> by (simp add: handle_ok_def)
    then show "p \<in> named vs" using cb(1) \<open>Some h \<in> set vs\<close> by (auto simp: named_iff)
  next
    assume "p \<in> named vs"
    then obtain h where h: "p \<noteq> 0" "Some h \<in> set vs" "p_obj h = p" by (auto simp: named_iff)
    then have "obj_of w (p_cb h) = Some p" using handles [of h] by (auto simp: handle_ok_def split: if_splits)
    then show "p \<in> owned w" using h(1) by (rule ownedI)
  qed
qed

text \<open>
  C19: every object is deleted exactly once, by its last handle. At every moment the deletions are,
  without repetition, those objects among the ones handed over that no handle names any more, and
  those that some handle names are alive: so an object is deleted by the operation after which no
  handle names it, neither before nor later. When all the variables are destroyed, everything that
  was handed over is deleted and no control block is left.
\<close>

theorem deleted_exactly_once:
  assumes "n < 2 ^ 64" and "sp_reach n vs w A"
  shows "distinct (deleted w) \<and> set (deleted w) = A - named vs \<and> named vs \<subseteq> A \<inter> alive w \<and>
    set (deleted w) \<inter> alive w = {} \<and>
    (set vs \<subseteq> {None} \<longrightarrow> set (deleted w) = A \<and> cbs w = (\<lambda>_. None))"
proof -
  have inv: "sp_inv vs w" "ledger w = A" using sp_reach_inv [OF assms(2,1)] by simp_all
  then have obj: "objects_ok w" and cnt: "counts_ok (refs vs) w" by (simp_all add: sp_inv_def)
  have own: "owned w = named vs" using owned_named [OF inv(1)] .
  have "cbs w cb = None" if "set vs \<subseteq> {None}" for cb
  proof -
    have "refs vs cb = 0" using refs_pos [of vs cb] that by fastforce
    moreover have "block_ok (next_cb w) cb (refs vs cb) (cbs w cb)" using cnt by (simp add: counts_ok_def)
    ultimately show ?thesis by (auto simp: block_ok_def split: option.splits)
  qed
  moreover have "named vs = {}" if "set vs \<subseteq> {None}" using that by (auto simp: named_iff)
  moreover have "set (deleted w) = A - named vs" "named vs \<subseteq> A \<inter> alive w"
    using inv(2) obj by (auto simp: ledger_def objects_ok_def own)
  ultimately show ?thesis using obj by (auto simp: objects_ok_def)
qed

text \<open>Two handles share an object; it outlives the first of them and not the second.\<close>

theorem deleted_exactly_once_witness:
  "7 \<notin> set (deleted (w7_owned 1)) \<and> (\<exists>w. sp_reach 2 [None, None] w {7} \<and> distinct (deleted w) \<and> set (deleted w) = {7})"
proof -
  have "sp_legal (Dtor 0) [Some h7, Some h7] (w7_owned 2)"
    "sp_exec True (Dtor 0) ([Some h7, Some h7], w7_owned 2) = Some ([None, Some h7], w7_owned 1)"
    by (simp_all add: var_def reset_def release_def w7_owned_def)
  from sp_next [OF demo_reach2 this] have r: "sp_reach 2 [None, Some h7] (w7_owned 1) {7}" by simp
  have "7 \<in> named [None, Some h7]" by (auto simp: named_iff)
  then have "7 \<notin> set (deleted (w7_owned 1))" using deleted_exactly_once [OF _ r] by simp
  have "sp_legal (Dtor 1) [None, Some h7] (w7_owned 1)" by (simp add: var_def)
  moreover obtain w' where w': "sp_exec True (Dtor 1) ([None, Some h7], w7_owned 1) = Some ([None, None], w')"
    by (simp add: var_def reset_def release_def run_deleter_def w7_owned_def)
  ultimately have "sp_reach 2 [None, None] w' ({7} \<union> adopts (Dtor 1))" by (rule sp_next [OF r])
  then have r': "sp_reach 2 [None, None] w' {7}" by simp
  have "set (deleted w') = {7}" "distinct (deleted w')"
    using deleted_exactly_once [OF _ r'] by (simp_all add: named_iff set_eq_iff)
  with r' \<open>7 \<notin> set (deleted (w7_owned 1))\<close> show ?thesis by blast
qed

text \<open>
  reset to a new pointer is not exception safe. When the old control block had no other
  owner and the new one cannot be allocated, the handle keeps pointing to the block that was
  just freed: the handle's destructor is undefined behaviour.
\<close>

theorem reset_to_bad_alloc:
  assumes "sp_inv vs w" and "var i vs = Some h" and "p_cb h \<noteq> 0" and "sharing vs h = 1" and "p \<noteq> 0"
  shows "\<exists>h' w'. reset_to False p h w = Some (False, h', w') \<and> reset h' w' = None"
proof -
  have inv: "counts_ok (refs vs) w" "objects_ok w" using assms(1) by (simp_all add: sp_inv_def)
  have "refs vs (p_cb h) = 1" using refs_sharing [OF assms(3)] assms(4) by simp
  then obtain w' where w': "release (p_cb h) w = Some w'" "obj_of w' = (obj_of w)(p_cb h := None)"
    using release_last [OF inv] by blast
  have "cbs w' (p_cb h) = None" using w'(2) by (auto simp: obj_of_def dest: fun_cong [of _ _ "p_cb h"])
  then have "reset (h\<lparr>p_obj := p\<rparr>) w' = None" using assms(3) by (simp add: reset_def release_def)
  moreover have "reset_to False p h w = Some (False, h\<lparr>p_obj := p\<rparr>, w')"
    using assms(3,5) w'(1) by (simp add: reset_to_def)
  ultimately show ?thesis by blast
qed

theorem reset_to_bad_alloc_witness:
  "\<exists>h' w'. reset_to False 8 h7 (w7_owned 1) = Some (False, h', w') \<and> reset h' w' = None"
proof -
  have "sp_inv [Some h7, None] (w7_owned 1)" using sp_reach_inv [OF demo_reach1] by simp
  then show ?thesis by (rule reset_to_bad_alloc [of _ _ 0]) (simp_all add: var_def sharing_def)
qed

text \<open>
  The assignments release before they read. When the target is the last handle of an object and the
  source is a member of that object (head = head->next), the source is gone by then.
\<close>

lemma assign_member_undefined:
  assumes "sp_inv vs w" and "var i vs = Some h" and "p_obj h \<noteq> 0" and "sharing vs h = 1"
  shows "copy_assign h (in_object (p_obj h) g) w = None" and "move_assign h (in_object (p_obj h) g) w = None"
proof -
  have inv: "counts_ok (refs vs) w" "objects_ok w" "handle_ok w h"
    using assms(1) varD [OF assms(2)] by (simp_all add: sp_inv_def)
  then have h: "p_cb h \<noteq> 0" "obj_of w (p_cb h) = Some (p_obj h)" using assms(3) by (auto simp: handle_ok_def split: if_splits)
  then have "refs vs (p_cb h) = 1" using refs_sharing [OF h(1)] assms(4) by simp
  then obtain w' where "release (p_cb h) w = Some w'" "alive w' = alive w - {p_obj h}"
    using release_last [OF inv(1,2), of "p_cb h"] h(2) by auto
  then show "copy_assign h (in_object (p_obj h) g) w = None" "move_assign h (in_object (p_obj h) g) w = None"
    using h(1) by (simp_all add: copy_assign_def move_assign_def in_object_def)
qed

text \<open>
  The constructors from a raw pointer lose the object when operator new throws: no handle owns it
  and the deleter has not run, where a caller of std::shared_ptr relies on the opposite.
\<close>

lemma ctor_bad_alloc_leaks:
  assumes "sp_inv vs w" and "p \<in> alive w" and "p \<notin> owned w"
  shows "\<exists>w'. ctor_pointer False p w = (None, w') \<and> p \<in> alive w' \<and> p \<notin> owned w' \<and> p \<notin> set (deleted w')"
  using assms by (auto simp: ctor_pointer_def sp_inv_def objects_ok_def)

text \<open>The main function prints the counts of a handle, of the one it was moved to, and of none.\<close>

lemma shared_ptr_main_prints:
  assumes "x \<noteq> 0" and "x \<in> alive w" and "next_cb w \<noteq> 0"
  shows "\<exists>w'. shared_ptr_main x w = Some (''1 1 1 0 '', w') \<and> deleted w' = deleted w @ [x] \<and> cbs w' = (cbs w)(next_cb w := None)"
  using assms by (simp add: shared_ptr_main_def printed_count_def decimal_def decimal_nat.simps digit_def char_of_def run_simps)

end
