(* ===== verification/Holdings.thy ===== *)
theory Holdings
  imports Prelude "HOL-Library.Multiset"
begin

text \<open>
  What a list of variables holds, given what each of them holds: shared by the components whose
  objects own resources (UniquePtr handles, sockets) or whose threads carry a task or an obligation. Each lemma follows one way in which an
  operation changes the variables.
\<close>

definition held :: "('v \<Rightarrow> 'r multiset) \<Rightarrow> 'v list \<Rightarrow> 'r multiset" where
  "held part vs = sum_list (map part vs)"

lemma held_simps [simp]: "held part [] = {#}" "held part (v # vs) = part v + held part vs"
  by (simp_all add: held_def)

lemma held_none: "(\<And>v. v \<in> set vs \<Longrightarrow> part v = {#}) \<Longrightarrow> held part vs = {#}"
  by (induction vs) simp_all

lemma held_upd: "i < length vs \<Longrightarrow> held part (vs[i := x]) + part (vs ! i) = held part vs + part x"
proof (induction vs arbitrary: i)
  case (Cons v vs)
  then show ?case by (cases i) (simp_all add: ac_simps)
qed simp

lemma held_part: "i < length vs \<Longrightarrow> part (vs ! i) \<subseteq># held part vs"
proof (induction vs arbitrary: i)
  case (Cons v vs)
  then show ?case by (cases i) (simp_all add: subset_mset.add_increasing)
qed simp

lemma held_same: "i < length vs \<Longrightarrow> part x = part (vs ! i) \<Longrightarrow> held part (vs[i := x]) = held part vs"
  using held_upd [of i vs part x] by simp

lemma held_put:
  "i < length vs \<Longrightarrow> part (vs ! i) = {#} \<Longrightarrow> held part (vs[i := x]) = held part vs + part x"
  using held_upd [of i vs part x] by simp

lemma held_take:
  "i < length vs \<Longrightarrow> part x = {#} \<Longrightarrow> held part vs = held part (vs[i := x]) + part (vs ! i)"
  using held_upd [of i vs part x] by simp

lemma held_swap:
  assumes "i < length vs" and "j < length vs" and "i \<noteq> j" and "part x = part (vs ! j)" and "part y = part (vs ! i)"
  shows "held part (vs[i := x, j := y]) = held part vs"
proof -
  have "held part (vs[i := x]) + part (vs ! i) = held part vs + part (vs ! j)"
    using held_upd [OF assms(1), of part x] assms(4) by simp
  moreover have "held part (vs[i := x, j := y]) + part (vs ! j) = held part (vs[i := x]) + part (vs ! i)"
    using held_upd [of j "vs[i := x]" part y] assms(2,3,5) by simp
  ultimately show ?thesis by simp
qed

lemma held_move:
  assumes "i < length vs" and "j < length vs" and "i \<noteq> j"
    and "part (vs ! i) = {#}" and "part x = part (vs ! j)" and "part y = {#}"
  shows "held part (vs[i := x, j := y]) = held part vs"
  using held_swap [OF assms(1,2,3,5)] assms(4,6) by simp

lemma distinct_part:
  assumes "mset xs = M + mset ys" and "distinct xs"
  shows "distinct ys"
proof -
  obtain zs where "mset zs = M" using ex_mset by blast
  then have "mset (zs @ ys) = mset xs" using assms(1) by simp
  then have "distinct (zs @ ys)" using assms(2) mset_eq_imp_distinct_iff by blast
  then show ?thesis by simp
qed

end
