(* ===== verification/SharedPtrThreads.thy ===== *)
theory SharedPtrThreads
  imports Holdings Machine
begin

text \<open>
  One control block of include/quick/handle/SharedPtr.hh shared by several threads. Every thread
  owns some handles to it; it copies them, gives them to other threads, uses the object through
  them, asks for the count and destroys them. The counter is atomic; what release does after the
  decrement, to the object and to the block, are steps of their own that the other threads
  interleave with.

  The memory model. Every access to the object or to the counter has a number. A thread knows the
  accesses that happen before its next step; the counter carries those that happen before whatever
  acquires its value. A read-modify-write of the counter continues the release sequence it reads
  from, so that the counter never loses what it carries; it takes that over into the knowledge of
  its thread when its order acquires, and adds that knowledge to it when its order releases. What
  deletes the object or frees the block races with an access that its thread does not know.
\<close>

text \<open>What a thread is at: its own operations, or the rest of a release that found 1.\<close>

datatype rel_pc = Ready | Deleting | Clearing | Freeing

record sp_threads =
  m_count :: u64
  owned :: "nat list"
  rel :: "rel_pc list"
  obj_alive :: bool
  block_alive :: bool
  deleted :: nat
  misused :: bool
  accesses :: nat
  known :: "nat set list"
  carried :: "nat set"
  raced :: bool

text \<open>
  owned counts the handles of each thread; deleted the runs of the deleter; misused tells whether
  a thread used the block or the object when it was gone. accesses is the number of accesses so
  far, known what each thread knows of them, carried what the counter carries; raced tells whether
  the object or the block went away without knowledge of an access to it.
\<close>

datatype memory_order = Relaxed | Acquire | Acq_rel

fun acquires :: "memory_order \<Rightarrow> bool" where
  "acquires Relaxed = False"
| "acquires Acquire = True"
| "acquires Acq_rel = True"

fun releases :: "memory_order \<Rightarrow> bool" where
  "releases Acq_rel = True"
| "releases _ = False"

text \<open>The knowledge of a thread after its access to the counter, and that access in the state.\<close>

definition learns :: "memory_order \<Rightarrow> nat \<Rightarrow> sp_threads \<Rightarrow> nat set" where
  [run_simps]: "learns ord t s = insert (accesses s) (known s ! t \<union> (if acquires ord then carried s else {}))"

definition counter_access :: "memory_order \<Rightarrow> nat \<Rightarrow> sp_threads \<Rightarrow> sp_threads" where
  [run_simps]: "counter_access ord t s = s\<lparr>accesses := accesses s + 1, known := (known s)[t := learns ord t s],
     carried := carried s \<union> (if releases ord then learns ord t s else {})\<rparr>"

lemma counter_access_frame [simp]:
  "m_count (counter_access ord t s) = m_count s" "owned (counter_access ord t s) = owned s"
  "rel (counter_access ord t s) = rel s" "obj_alive (counter_access ord t s) = obj_alive s"
  "block_alive (counter_access ord t s) = block_alive s" "deleted (counter_access ord t s) = deleted s"
  "misused (counter_access ord t s) = misused s" "raced (counter_access ord t s) = raced s"
  by (simp_all add: counter_access_def)

text \<open>Whether a thread does not know of an access.\<close>

definition ignorant :: "nat \<Rightarrow> sp_threads \<Rightarrow> bool" where
  [run_simps]: "ignorant t s \<longleftrightarrow> \<not> {..<accesses s} \<subseteq> known s ! t"

definition shared_init :: "nat \<Rightarrow> sp_threads" where
  [run_simps]: "shared_init n = \<lparr>m_count = 1, owned = 1 # replicate n 0, rel = replicate (n + 1) Ready,
     obj_alive = True, block_alive = True, deleted = 0, misused = False,
     accesses = 0, known = replicate (n + 1) {}, carried = {}, raced = False\<rparr>"

definition owns :: "nat \<Rightarrow> sp_threads \<Rightarrow> bool" where
  [run_simps]: "owns t s \<longleftrightarrow> t < length (owned s) \<and> t < length (rel s) \<and> rel s ! t = Ready \<and> owned s ! t > 0"

definition rel_at :: "nat \<Rightarrow> sp_threads \<Rightarrow> rel_pc option" where
  [run_simps]: "rel_at t s = (if t < length (rel s) then Some (rel s ! t) else None)"

datatype sp_label =
    CopyHandle nat | GiveHandle nat nat | UseObject nat | CountHandles nat | DropHandle nat
  | RunDeleter nat | ClearObj nat | FreeBlock nat

text \<open>
  A copy needs room in memory, so that there are never 2^64 handles. Giving a handle to another
  thread is done in a way that orders the two threads (the thread's start, a mutex): the receiver
  knows what the giver knew.
\<close>

fun shared_step :: "sp_label \<Rightarrow> sp_threads \<Rightarrow> sp_threads option" where
  "shared_step (CopyHandle t) s =
     (if owns t s \<and> sum_list (owned s) < 2 ^ 64 - 1
      then Some ((counter_access Acq_rel t s)\<lparr>m_count := m_count s + 1, owned := (owned s)[t := owned s ! t + 1],
             misused := (misused s \<or> \<not> block_alive s)\<rparr>)
      else None)"
| "shared_step (GiveHandle t u) s =
     (if owns t s \<and> u < length (owned s) \<and> t \<noteq> u
      then Some (s\<lparr>owned := (owned s)[t := owned s ! t - 1, u := owned s ! u + 1],
             known := (known s)[u := known s ! u \<union> known s ! t]\<rparr>)
      else None)"
| "shared_step (UseObject t) s =
     (if owns t s
      then Some (s\<lparr>accesses := accesses s + 1, known := (known s)[t := insert (accesses s) (known s ! t)],
             misused := (misused s \<or> \<not> obj_alive s)\<rparr>)
      else None)"
| "shared_step (CountHandles t) s =
     (if owns t s
      then Some ((counter_access Acquire t s)\<lparr>misused := (misused s \<or> \<not> block_alive s)\<rparr>)
      else None)"
| "shared_step (DropHandle t) s =
     (if owns t s
      then Some ((counter_access Acq_rel t s)\<lparr>m_count := m_count s - 1, owned := (owned s)[t := owned s ! t - 1],
             rel := (rel s)[t := (if m_count s = 1 then Deleting else Ready)],
             misused := (misused s \<or> \<not> block_alive s)\<rparr>)
      else None)"
| "shared_step (RunDeleter t) s =
     (if rel_at t s = Some Deleting
      then Some (s\<lparr>rel := (rel s)[t := Clearing], obj_alive := False, deleted := deleted s + 1,
             misused := (misused s \<or> \<not> obj_alive s \<or> \<not> block_alive s), raced := (raced s \<or> ignorant t s)\<rparr>)
      else None)"
| "shared_step (ClearObj t) s =
     (if rel_at t s = Some Clearing
      then Some (s\<lparr>rel := (rel s)[t := Freeing], misused := (misused s \<or> \<not> block_alive s),
             raced := (raced s \<or> ignorant t s)\<rparr>)
      else None)"
| "shared_step (FreeBlock t) s =
     (if rel_at t s = Some Freeing
      then Some (s\<lparr>rel := (rel s)[t := Ready], block_alive := False, misused := (misused s \<or> \<not> block_alive s),
             raced := (raced s \<or> ignorant t s)\<rparr>)
      else None)"

abbreviation shared_reach :: "nat \<Rightarrow> sp_threads \<Rightarrow> bool" where
  "shared_reach n \<equiv> reachable (shared_init n) shared_step"

abbreviation shared_run :: "sp_label list \<Rightarrow> sp_threads \<Rightarrow> sp_threads option" where
  "shared_run \<equiv> run_steps shared_step"

section \<open>The invariant\<close>

fun stage :: "rel_pc \<Rightarrow> rel_pc multiset" where
  "stage Ready = {#}"
| "stage p = {#p#}"

text \<open>
  While there is a handle the object and its block live and nobody is in the rest of a release;
  afterwards one thread is, and the object and the block live as long as it needs them, or
  everything is over.
\<close>

definition shared_inv :: "sp_threads \<Rightarrow> bool" where
  "shared_inv s \<longleftrightarrow> sum_list (owned s) < 2 ^ 64 \<and> m_count s = of_nat (sum_list (owned s)) \<and>
     length (rel s) = length (owned s) \<and> \<not> misused s \<and>
     (if sum_list (owned s) > 0
      then held stage (rel s) = {#} \<and> obj_alive s \<and> block_alive s \<and> deleted s = 0
      else held stage (rel s) = {#Deleting#} \<and> obj_alive s \<and> block_alive s \<and> deleted s = 0 \<or>
           held stage (rel s) = {#Clearing#} \<and> \<not> obj_alive s \<and> block_alive s \<and> deleted s = 1 \<or>
           held stage (rel s) = {#Freeing#} \<and> \<not> obj_alive s \<and> block_alive s \<and> deleted s = 1 \<or>
           held stage (rel s) = {#} \<and> \<not> obj_alive s \<and> \<not> block_alive s \<and> deleted s = 1)"

lemma sum_list_upd: "i < length xs \<Longrightarrow> sum_list (xs[i := x]) + xs ! i = sum_list xs + (x :: nat)"
  using total_upd [of i xs "\<lambda>n. n" x] by (simp add: total_def)

lemma sum_list_nth: "i < length xs \<Longrightarrow> xs ! i \<le> sum_list (xs :: nat list)"
  by (rule member_le_sum_list) simp_all

lemma sum_list_give:
  assumes "t < length xs" and "u < length xs" and "t \<noteq> u" and "0 < xs ! t"
  shows "sum_list (xs[t := xs ! t - 1, u := xs ! u + 1]) = sum_list (xs :: nat list)"
  using sum_list_upd [of t xs "xs ! t - 1"] sum_list_upd [of u "xs[t := xs ! t - 1]" "xs ! u + 1"] assms by simp

lemma stage_at:
  assumes "rel_at t s = Some p" and "p \<noteq> Ready" and "shared_inv s"
  shows "held stage (rel s) = {#p#}" "t < length (rel s)" "rel s ! t = p"
proof -
  show t: "t < length (rel s)" "rel s ! t = p" using assms(1) by (auto simp: rel_at_def split: if_splits)
  have "stage p \<subseteq># held stage (rel s)" using held_part [of t "rel s" stage] t by simp
  moreover have "stage p = {#p#}" using assms(2) by (cases p) simp_all
  moreover have "\<exists>q. held stage (rel s) = {#q#} \<or> held stage (rel s) = {#}"
    using assms(3) by (auto simp: shared_inv_def split: if_splits)
  ultimately show "held stage (rel s) = {#p#}" by auto
qed

lemma shared_inv_cong:
  assumes "shared_inv s" and "sum_list (owned s') = sum_list (owned s)" and "length (owned s') = length (owned s)"
    and "m_count s' = m_count s" and "rel s' = rel s" and "obj_alive s' = obj_alive s" and "block_alive s' = block_alive s"
    and "deleted s' = deleted s" and "misused s' = misused s"
  shows "shared_inv s'"
  using assms(1) unfolding shared_inv_def assms(2-9) .

lemma shared_inv_step:
  assumes "shared_inv s" and "shared_step l s = Some s'"
  shows "shared_inv s'"
proof (cases l)
  case (CopyHandle t)
  then have "owns t s" "sum_list (owned s) < 2 ^ 64 - 1"
    and s': "s' = (counter_access Acq_rel t s)\<lparr>m_count := m_count s + 1, owned := (owned s)[t := owned s ! t + 1], misused := (misused s \<or> \<not> block_alive s)\<rparr>"
    using assms(2) by (auto split: if_splits)
  then have t: "t < length (owned s)" "0 < owned s ! t" by (simp_all add: owns_def)
  have "sum_list (owned s') = sum_list (owned s) + 1" using sum_list_upd [of t "owned s" "owned s ! t + 1"] t by (simp add: s')
  moreover have "0 < sum_list (owned s)" using sum_list_nth [OF t(1)] t(2) by simp
  ultimately show ?thesis using assms(1) \<open>sum_list (owned s) < 2 ^ 64 - 1\<close> by (auto simp: shared_inv_def s')
next
  case (GiveHandle t u)
  then have "owns t s" "u < length (owned s)" "t \<noteq> u"
    and s': "s' = s\<lparr>owned := (owned s)[t := owned s ! t - 1, u := owned s ! u + 1],
      known := (known s)[u := known s ! u \<union> known s ! t]\<rparr>"
    using assms(2) by (auto split: if_splits)
  then have "sum_list (owned s') = sum_list (owned s)" using sum_list_give [of t "owned s" u] by (simp add: s' owns_def)
  then show ?thesis by (rule shared_inv_cong [OF assms(1)]) (simp_all add: s')
next
  case (UseObject t)
  then have "owns t s" and s': "s' = s\<lparr>accesses := accesses s + 1,
      known := (known s)[t := insert (accesses s) (known s ! t)], misused := (misused s \<or> \<not> obj_alive s)\<rparr>"
    using assms(2) by (auto split: if_splits)
  then have "0 < sum_list (owned s)" using sum_list_nth [of t "owned s"] by (simp add: owns_def)
  then show ?thesis using assms(1) by (simp add: shared_inv_def s')
next
  case (CountHandles t)
  then have "owns t s" and s': "s' = (counter_access Acquire t s)\<lparr>misused := (misused s \<or> \<not> block_alive s)\<rparr>"
    using assms(2) by (auto split: if_splits)
  then have "0 < sum_list (owned s)" using sum_list_nth [of t "owned s"] by (simp add: owns_def)
  then show ?thesis using assms(1) by (simp add: shared_inv_def s' counter_access_def)
next
  case (DropHandle t)
  then have "owns t s"
    and s': "s' = (counter_access Acq_rel t s)\<lparr>m_count := m_count s - 1, owned := (owned s)[t := owned s ! t - 1],
      rel := (rel s)[t := (if m_count s = 1 then Deleting else Ready)], misused := (misused s \<or> \<not> block_alive s)\<rparr>"
    using assms(2) by (auto split: if_splits)
  then have t: "t < length (owned s)" "0 < owned s ! t" "t < length (rel s)" "rel s ! t = Ready" by (simp_all add: owns_def)
  let ?n = "sum_list (owned s)"
  have n: "0 < ?n" "sum_list (owned s') = ?n - 1"
    using sum_list_nth [OF t(1)] sum_list_upd [of t "owned s" "owned s ! t - 1"] t by (simp_all add: s')
  have lt: "?n < 2 ^ 64" and c: "m_count s = of_nat ?n" using assms(1) by (simp_all add: shared_inv_def)
  have one: "m_count s = 1 \<longleftrightarrow> ?n = 1"
  proof
    assume "m_count s = 1"
    then have "unat (of_nat ?n :: u64) = unat (1 :: u64)" using c by simp
    then show "?n = 1" using lt by (simp add: unat_of_nat)
  qed (use c in simp)
  have h: "held stage (rel s') = stage (if m_count s = 1 then Deleting else Ready)"
    using held_upd [OF t(3), of stage "if m_count s = 1 then Deleting else Ready"] assms(1) n(1) t(4)
    by (simp add: shared_inv_def s')
  have old: "obj_alive s" "block_alive s" "deleted s = 0" "length (rel s) = length (owned s)" "\<not> misused s"
    using assms(1) n(1) by (simp_all add: shared_inv_def)
  have "m_count s' = of_nat (?n - 1)" using n(1) c by (simp add: s')
  then show ?thesis
    unfolding shared_inv_def n(2) h one using old lt n(1) by (cases "?n = 1") (simp_all add: s')
next
  case (RunDeleter t)
  then have r: "rel_at t s = Some Deleting"
    and s': "s' = s\<lparr>rel := (rel s)[t := Clearing], obj_alive := False, deleted := deleted s + 1,
      misused := (misused s \<or> \<not> obj_alive s \<or> \<not> block_alive s), raced := (raced s \<or> ignorant t s)\<rparr>"
    using assms(2) by (auto split: if_splits)
  have h: "held stage (rel s) = {#Deleting#}" "t < length (rel s)" "rel s ! t = Deleting"
    using stage_at [OF r _ assms(1)] by simp_all
  then have "held stage (rel s') = {#Clearing#}" using held_upd [of t "rel s" stage Clearing] by (simp add: s')
  then show ?thesis using assms(1) h(1) by (auto simp: shared_inv_def s' split: if_splits)
next
  case (ClearObj t)
  then have r: "rel_at t s = Some Clearing"
    and s': "s' = s\<lparr>rel := (rel s)[t := Freeing], misused := (misused s \<or> \<not> block_alive s),
      raced := (raced s \<or> ignorant t s)\<rparr>"
    using assms(2) by (auto split: if_splits)
  have h: "held stage (rel s) = {#Clearing#}" "t < length (rel s)" "rel s ! t = Clearing"
    using stage_at [OF r _ assms(1)] by simp_all
  then have "held stage (rel s') = {#Freeing#}" using held_upd [of t "rel s" stage Freeing] by (simp add: s')
  then show ?thesis using assms(1) h(1) by (auto simp: shared_inv_def s' split: if_splits)
next
  case (FreeBlock t)
  then have r: "rel_at t s = Some Freeing"
    and s': "s' = s\<lparr>rel := (rel s)[t := Ready], block_alive := False, misused := (misused s \<or> \<not> block_alive s),
      raced := (raced s \<or> ignorant t s)\<rparr>"
    using assms(2) by (auto split: if_splits)
  have h: "held stage (rel s) = {#Freeing#}" "t < length (rel s)" "rel s ! t = Freeing"
    using stage_at [OF r _ assms(1)] by simp_all
  then have "held stage (rel s') = {#}" using held_upd [of t "rel s" stage Ready] by (simp add: s')
  then show ?thesis using assms(1) h(1) by (auto simp: shared_inv_def s' split: if_splits)
qed

section \<open>Knowledge\<close>

text \<open>
  While there are handles, every access is known to one of their owners or carried by the counter;
  a thread in the rest of a release knows them all.
\<close>

definition known_inv :: "sp_threads \<Rightarrow> bool" where
  "known_inv s \<longleftrightarrow> length (known s) = length (owned s) \<and> \<not> raced s \<and>
     (\<forall>e<accesses s. e \<in> carried s \<or> (\<exists>t<length (owned s). 0 < owned s ! t \<and> e \<in> known s ! t)) \<and>
     (\<forall>t<length (rel s). rel s ! t \<noteq> Ready \<longrightarrow> {..<accesses s} \<subseteq> known s ! t)"

lemma known_invD:
  assumes "known_inv s" and "e < accesses s" and "e \<notin> carried s"
  obtains t where "t < length (owned s)" "0 < owned s ! t" "e \<in> known s ! t"
  using assms by (auto simp: known_inv_def)

text \<open>A thread with a handle excludes a release under way.\<close>

lemma all_ready:
  assumes "shared_inv s" and "owns t s" and "u < length (rel s)"
  shows "rel s ! u = Ready"
proof -
  have "0 < sum_list (owned s)" using assms(2) sum_list_nth [of t "owned s"] by (simp add: owns_def)
  then have "held stage (rel s) = {#}" using assms(1) by (simp add: shared_inv_def)
  then have "stage (rel s ! u) = {#}" using held_part [OF assms(3), of stage] by simp
  then show ?thesis by (cases "rel s ! u") simp_all
qed

lemma known_access:
  assumes inv: "known_inv s" and t: "t < length (owned s)"
    and owned: "length (owned s') = length (owned s)" "\<And>u. u < length (owned s) \<Longrightarrow> 0 < owned s ! u \<Longrightarrow> 0 < owned s' ! u" and rel: "rel s' = rel s" "\<forall>u<length (rel s). rel s ! u = Ready"
    and new: "accesses s' = accesses s + 1" "known s' = (known s)[t := K]" "insert (accesses s) (known s ! t) \<subseteq> K"
    and "carried s \<subseteq> carried s'" and "raced s' = raced s" and "0 < owned s ! t"
  shows "known_inv s'"
proof -
  have len: "length (known s) = length (owned s)" using inv by (simp add: known_inv_def)
  have "e \<in> carried s' \<or> (\<exists>u<length (owned s'). 0 < owned s' ! u \<and> e \<in> known s' ! u)" if e: "e < accesses s'" for e
  proof (cases "e = accesses s")
    case True
    then show ?thesis using t len new assms(12) owned by (intro disjI2 exI [of _ t]) auto
  next
    case False
    then have "e < accesses s" using e new(1) by simp
    then consider "e \<in> carried s" | u where "u < length (owned s)" "0 < owned s ! u" "e \<in> known s ! u"
      using inv by (auto simp: known_inv_def)
    then show ?thesis
    proof cases
      case 2
      then have "e \<in> known s' ! u" using new(2,3) len t by (cases "u = t") auto
      with 2 show ?thesis using owned by auto
    qed (use assms(10) in blast)
  qed
  then show ?thesis using inv rel assms(11) new(2) owned by (auto simp: known_inv_def)
qed
lemma known_copy:
  assumes "known_inv s" and "shared_inv s" and "owns t s"
    and "length (owned s') = length (owned s)" "\<And>u. u < length (owned s) \<Longrightarrow> 0 < owned s ! u \<Longrightarrow> 0 < owned s' ! u"
    and "rel s' = rel s" and "accesses s' = accesses s + 1"
    and "known s' = (known s)[t := insert (accesses s) (known s ! t \<union> L)]" and "carried s \<subseteq> carried s'" and "raced s' = raced s"
  shows "known_inv s'"
  using assms all_ready [OF assms(2,3)]
  by (intro known_access [OF assms(1), of t _ "insert (accesses s) (known s ! t \<union> L)"]) (auto simp: owns_def)

lemma known_release:
  assumes "known_inv s" and "rel_at t s = Some p" and "p \<noteq> Ready"
    and "owned s' = owned s" and "known s' = known s" and "carried s' = carried s" and "accesses s' = accesses s"
    and "rel s' = (rel s)[t := q]" and "raced s' = (raced s \<or> ignorant t s)"
  shows "known_inv s'"
proof -
  have t: "t < length (rel s)" "rel s ! t = p" using assms(2) by (auto simp: rel_at_def split: if_splits)
  then have "{..<accesses s} \<subseteq> known s ! t" using assms(1,3) by (auto simp: known_inv_def)
  then show ?thesis using assms t by (auto simp: known_inv_def ignorant_def nth_list_update)
qed

lemma known_give:
  assumes inv: "known_inv s" and t: "t < length (owned s)" "u < length (owned s)" "t \<noteq> u"
    and s': "s' = s\<lparr>owned := (owned s)[t := owned s ! t - 1, u := owned s ! u + 1],
      known := (known s)[u := known s ! u \<union> known s ! t]\<rparr>"
  shows "known_inv s'"
proof -
  have len: "length (known s) = length (owned s)" using inv by (simp add: known_inv_def)
  have "\<exists>v<length (owned s'). 0 < owned s' ! v \<and> e \<in> known s' ! v" if e: "e < accesses s" "e \<notin> carried s" for e
  proof -
    obtain v where v: "v < length (owned s)" "0 < owned s ! v" "e \<in> known s ! v" using inv e by (rule known_invD)
    show ?thesis
    proof (cases "v = t \<or> v = u")
      case True
      then show ?thesis using v t len by (intro exI [of _ u]) (auto simp: s')
    next
      case False
      then show ?thesis using v t len by (intro exI [of _ v]) (auto simp: s')
    qed
  qed
  moreover have same: "accesses s' = accesses s" "carried s' = carried s" "raced s' = raced s" "rel s' = rel s"
    "length (known s') = length (owned s')"
    using len by (simp_all add: s')
  moreover have "{..<accesses s} \<subseteq> known s' ! v" if "v < length (rel s)" "rel s ! v \<noteq> Ready" for v
    using inv that t len by (cases "v = u") (auto simp: known_inv_def s')
  ultimately show ?thesis using inv unfolding known_inv_def same by blast
qed

lemma known_drop:
  assumes inv: "known_inv s" "shared_inv s" and t: "owns t s"
    and s': "s' = (counter_access Acq_rel t s)\<lparr>m_count := c, owned := (owned s)[t := owned s ! t - 1],
      rel := (rel s)[t := p], misused := b\<rparr>"
    and last: "p \<noteq> Ready \<Longrightarrow> sum_list (owned s) = 1"
  shows "known_inv s'"
proof -
  have len: "length (known s) = length (owned s)" and lt: "t < length (owned s)" "t < length (rel s)" "0 < owned s ! t"
    using inv(1) t by (simp_all add: known_inv_def owns_def)
  have "e \<in> carried s' \<or> (\<exists>u<length (owned s'). 0 < owned s' ! u \<and> e \<in> known s' ! u)" if e: "e < accesses s'" for e
  proof (cases "e \<in> carried s \<or> e = accesses s \<or> e \<in> known s ! t")
    case True
    then show ?thesis by (auto simp: s' counter_access_def learns_def)
  next
    case False
    then have "e < accesses s" using e by (simp add: s' counter_access_def)
    with False obtain u where u: "u < length (owned s)" "0 < owned s ! u" "e \<in> known s ! u" using inv(1) by (auto elim: known_invD)
    then have "u \<noteq> t" using False by auto
    then show ?thesis using u len by (intro disjI2 exI [of _ u]) (auto simp: s' counter_access_def)
  qed
  moreover have "{..<accesses s'} \<subseteq> known s' ! t" if "p \<noteq> Ready"
  proof
    fix e assume e: "e \<in> {..<accesses s'}"
    have one: "sum_list (owned s) = 1" using last that by simp
    have "e \<in> carried s \<or> e = accesses s \<or> e \<in> known s ! t"
    proof (rule ccontr)
      assume not: "\<not> ?thesis"
      then have "e < accesses s" using e by (simp add: s' counter_access_def)
      with not obtain u where u: "u < length (owned s)" "0 < owned s ! u" "e \<in> known s ! u" using inv(1) by (auto elim: known_invD)
      then have "u \<noteq> t" using not by auto
      then have "sum_list ((owned s)[t := 0]) \<ge> 1" using u sum_list_nth [of u "(owned s)[t := 0]"] by simp
      then show False using sum_list_upd [OF lt(1), of 0] lt(3) one by simp
    qed
    then show "e \<in> known s' ! t" using lt len by (auto simp: s' counter_access_def learns_def)
  qed
  moreover have "rel s ! u = Ready" if "u < length (rel s)" for u using all_ready [OF inv(2) t that] .
  ultimately show ?thesis using inv(1) len lt by (auto simp: known_inv_def s' counter_access_def nth_list_update)
qed

lemma known_inv_step:
  assumes inv: "known_inv s" "shared_inv s" and step: "shared_step l s = Some s'"
  shows "known_inv s'"
proof (cases l)
  case (CopyHandle t)
  then have "owns t s"
    and s': "s' = (counter_access Acq_rel t s)\<lparr>m_count := m_count s + 1, owned := (owned s)[t := owned s ! t + 1], misused := (misused s \<or> \<not> block_alive s)\<rparr>"
    using step by (auto split: if_splits)
  then show ?thesis
    by (intro known_copy [OF inv, of t _ "carried s"]) (auto simp: counter_access_def learns_def owns_def nth_list_update)
next
  case (GiveHandle t u)
  then show ?thesis using step by (intro known_give [OF inv(1), of t u]) (auto simp: owns_def split: if_splits)
next
  case (UseObject t)
  then show ?thesis using step by (intro known_copy [OF inv, of t _ "{}"]) (auto split: if_splits)
next
  case (CountHandles t)
  then show ?thesis using step
    by (intro known_copy [OF inv, of t _ "carried s"]) (auto simp: counter_access_def learns_def split: if_splits)
next
  case (DropHandle t)
  have "sum_list (owned s) = 1" if "m_count s = 1"
  proof -
    have "unat (of_nat (sum_list (owned s)) :: u64) = unat (1 :: u64)" "sum_list (owned s) < 2 ^ 64"
      using inv(2) that by (simp_all add: shared_inv_def)
    then show ?thesis by (simp add: unat_of_nat)
  qed
  then show ?thesis using step DropHandle
    by (intro known_drop [OF inv, where c = "m_count s - 1" and p = "if m_count s = 1 then Deleting else Ready" and
      b = "misused s \<or> \<not> block_alive s" and t = t])
      (auto split: if_splits)
next
  case (RunDeleter t)
  then show ?thesis using step by (intro known_release [OF inv(1), of t Deleting _ Clearing]) (auto split: if_splits)
next
  case (ClearObj t)
  then show ?thesis using step by (intro known_release [OF inv(1), of t Clearing _ Freeing]) (auto split: if_splits)
next
  case (FreeBlock t)
  then show ?thesis using step by (intro known_release [OF inv(1), of t Freeing _ Ready]) (auto split: if_splits)
qed

interpretation sharers: machine "shared_init n" shared_step "\<lambda>s. shared_inv s \<and> known_inv s" for n
proof
  have "held stage (replicate n Ready) = {#}" by (rule held_none) simp
  then show "shared_inv (shared_init n) \<and> known_inv (shared_init n)"
    by (simp add: shared_init_def shared_inv_def known_inv_def sum_list_replicate nth_Cons')
qed (use shared_inv_step known_inv_step in blast)

section \<open>Properties\<close>

text \<open>
  C37: however the threads interleave, the counter is the number of handles there are, nobody ever
  touches a deleted object or a freed block, and the object is deleted at most once: not while a
  handle is left, and when none is left and no release is under way it has been deleted once and
  the block is freed. With the memory orders of the code every access to the object and to the
  counter happens before the deletion and the freeing: neither races with any of them.
\<close>

theorem shared_threads_safe:
  assumes "shared_reach n s"
  shows "\<not> misused s \<and> \<not> raced s \<and> unat (m_count s) = sum_list (owned s) \<and>
    (0 < sum_list (owned s) \<longrightarrow> obj_alive s \<and> block_alive s \<and> deleted s = 0) \<and>
    (sum_list (owned s) = 0 \<and> set (rel s) \<subseteq> {Ready} \<longrightarrow> \<not> obj_alive s \<and> \<not> block_alive s \<and> deleted s = 1)"
proof -
  have inv: "shared_inv s" "\<not> raced s" using sharers.reachable_inv [OF assms] by (simp_all add: known_inv_def)
  have "held stage (rel s) = {#}" if "set (rel s) \<subseteq> {Ready}" using that by (intro held_none) auto
  moreover have "unat (m_count s) = sum_list (owned s)" using inv(1) by (simp add: shared_inv_def unat_of_nat)
  moreover have "0 < sum_list (owned s) \<longrightarrow> obj_alive s \<and> block_alive s \<and> deleted s = 0" "\<not> misused s"
    using inv(1) by (simp_all add: shared_inv_def)
  moreover have "\<not> obj_alive s \<and> \<not> block_alive s \<and> deleted s = 1"
    if "sum_list (owned s) = 0" "held stage (rel s) = {#}"
    using inv(1) that by (simp add: shared_inv_def)
  ultimately show ?thesis using inv(2) by blast
qed

text \<open>Two threads share the object; the first one leaves, the second one drops the last handle and deletes.\<close>

theorem shared_threads_safe_witness:
  "\<exists>s. shared_run [UseObject 0, CopyHandle 0, GiveHandle 0 1, UseObject 0, DropHandle 0, UseObject 1, DropHandle 1, RunDeleter 1, ClearObj 1, FreeBlock 1]
     (shared_init 1) = Some s \<and> deleted s = 1 \<and> \<not> misused s \<and> \<not> raced s"
proof -
  let ?ls = "[UseObject 0, CopyHandle 0, GiveHandle 0 1, UseObject 0, DropHandle 0, UseObject 1, DropHandle 1, RunDeleter 1, ClearObj 1, FreeBlock 1]"
  let ?s = "\<lparr>m_count = 0, owned = [0, 0], rel = [Ready, Ready], obj_alive = False, block_alive = False, deleted = 1, misused = False,
    accesses = 6, known = [{0, 1, 2, 3}, {0, 1, 2, 3, 4, 5}], carried = {0, 1, 2, 3, 4, 5}, raced = False\<rparr>"
  have run: "shared_run ?ls (shared_init 1) = Some ?s"
    by (auto simp: shared_init_def owns_def rel_at_def counter_access_def learns_def ignorant_def lessThan_nat_numeral)
  have "deleted ?s = 1" "\<not> misused ?s" "\<not> raced ?s"
    using shared_threads_safe [OF run_reachable [OF run reach_start]] by simp_all
  with run show ?thesis by (intro exI [of _ ?s] conjI)
qed

end
