(* ===== verification/UniquePtr.thy ===== *)
theory UniquePtr
  imports Holdings Machine "HOL-Library.Monad_Syntax"
begin

text \<open>
  The owning pointer of include/quick/handle/UniquePtr.hh. A handle is its raw pointer and its
  deleter; the world keeps the objects that are alive and a log of the deleter calls, each with
  the deleter that ran. Address 0 is the null pointer and None is undefined behaviour. What a
  deleter looks like once it has been moved from, and what its default constructor makes, are
  parameters. A pointer converted to a base class still names the same object.
\<close>

section \<open>State\<close>

record 'd uptr =
  m_ptr :: nat
  m_deleter :: 'd

record 'd uworld =
  alive :: "nat set"
  log :: "(nat \<times> 'd) list"

definition run_deleter :: "'d \<Rightarrow> nat \<Rightarrow> 'd uworld \<Rightarrow> 'd uworld option" where
  [run_simps]: "run_deleter d p w =
     (if p \<in> alive w then Some (w\<lparr>alive := alive w - {p}, log := log w @ [(p, d)]\<rparr>) else None)"

section \<open>Constructors\<close>

definition ctor_default :: "'d \<Rightarrow> 'd uptr" where
  [run_simps]: "ctor_default d0 = \<lparr>m_ptr = 0, m_deleter = d0\<rparr>"

definition ctor_pointer :: "'d \<Rightarrow> nat \<Rightarrow> 'd uptr" where
  [run_simps]: "ctor_pointer d0 ptr = \<lparr>m_ptr = ptr, m_deleter = d0\<rparr>"

text \<open>With a deleter, copied or moved: the handle has its value.\<close>

definition ctor_deleter :: "nat \<Rightarrow> 'd \<Rightarrow> 'd uptr" where
  [run_simps]: "ctor_deleter ptr del = \<lparr>m_ptr = ptr, m_deleter = del\<rparr>"

text \<open>The move constructor: the new handle, and what other is left with.\<close>

definition move_ctor :: "('d \<Rightarrow> 'd) \<Rightarrow> 'd uptr \<Rightarrow> 'd uptr \<times> 'd uptr" where
  [run_simps]: "move_ctor gone other =
     (\<lparr>m_ptr = m_ptr other, m_deleter = m_deleter other\<rparr>, \<lparr>m_ptr = 0, m_deleter = gone (m_deleter other)\<rparr>)"

section \<open>Modifiers\<close>

definition release :: "'d uptr \<Rightarrow> nat \<times> 'd uptr" where
  [run_simps]: "release this = (m_ptr this, this\<lparr>m_ptr := 0\<rparr>)"

definition reset :: "nat \<Rightarrow> 'd uptr \<Rightarrow> 'd uworld \<Rightarrow> ('d uptr \<times> 'd uworld) option" where
  [run_simps]: "reset ptr this w =
     (let old = m_ptr this; this = this\<lparr>m_ptr := ptr\<rparr>
      in if old \<noteq> 0 then map_option (Pair this) (run_deleter (m_deleter this) old w) else Some (this, w))"

definition dtor :: "'d uptr \<Rightarrow> 'd uworld \<Rightarrow> 'd uworld option" where
  [run_simps]: "dtor this w = map_option snd (reset 0 this w)"

text \<open>The converting constructor and assignment, from another handle type, with the conversion of the deleter.\<close>

definition converting_ctor :: "('e \<Rightarrow> 'd) \<Rightarrow> ('e \<Rightarrow> 'e) \<Rightarrow> 'e uptr \<Rightarrow> 'd uptr \<times> 'e uptr" where
  [run_simps]: "converting_ctor conv gone other =
     (case release other of
        (p, other) \<Rightarrow> (\<lparr>m_ptr = p, m_deleter = conv (m_deleter other)\<rparr>,
                         other\<lparr>m_deleter := gone (m_deleter other)\<rparr>))"

definition converting_assign ::
  "('e \<Rightarrow> 'd) \<Rightarrow> ('e \<Rightarrow> 'e) \<Rightarrow> 'd uptr \<Rightarrow> 'e uptr \<Rightarrow> 'd uworld \<Rightarrow> ('d uptr \<times> 'e uptr \<times> 'd uworld) option" where
  [run_simps]: "converting_assign conv gone this other w =
     (case release other of
        (p, other) \<Rightarrow> do {
          (this, w) \<leftarrow> reset p this w;
          Some (this\<lparr>m_deleter := conv (m_deleter other)\<rparr>, other\<lparr>m_deleter := gone (m_deleter other)\<rparr>, w) })"

text \<open>Move assignment from another handle; assigning a handle to itself does nothing (see the programs below).\<close>

definition move_assign :: "('d \<Rightarrow> 'd) \<Rightarrow> 'd uptr \<Rightarrow> 'd uptr \<Rightarrow> 'd uworld \<Rightarrow> ('d uptr \<times> 'd uptr \<times> 'd uworld) option" where
  [run_simps]: "move_assign gone this other w =
     (case release other of
        (p, other) \<Rightarrow> do {
          (this, w) \<leftarrow> reset p this w;
          Some (this\<lparr>m_deleter := m_deleter other\<rparr>, other\<lparr>m_deleter := gone (m_deleter other)\<rparr>, w) })"

definition assign_null :: "'d uptr \<Rightarrow> 'd uworld \<Rightarrow> ('d uptr \<times> 'd uworld) option" where
  [run_simps]: "assign_null this w = reset 0 this w"

definition swap_handles :: "'d uptr \<Rightarrow> 'd uptr \<Rightarrow> 'd uptr \<times> 'd uptr" where
  [run_simps]: "swap_handles this other =
     (this\<lparr>m_ptr := m_ptr other, m_deleter := m_deleter other\<rparr>,
      other\<lparr>m_ptr := m_ptr this, m_deleter := m_deleter this\<rparr>)"

text \<open>The swap function beside the class.\<close>

definition swap :: "'d uptr \<Rightarrow> 'd uptr \<Rightarrow> 'd uptr \<times> 'd uptr" where
  [run_simps]: "swap lhs rhs = swap_handles lhs rhs"

text \<open>
  make_unique: the object at a fresh address, None when its construction or its allocation
  throws.
\<close>

definition make_unique :: "'d \<Rightarrow> nat option \<Rightarrow> 'd uworld \<Rightarrow> ('d uptr \<times> 'd uworld) option" where
  [run_simps]: "make_unique d0 obj w =
     map_option (\<lambda>p. (ctor_pointer d0 p, w\<lparr>alive := insert p (alive w)\<rparr>)) obj"

section \<open>Observers and comparisons\<close>

definition get_deleter :: "'d uptr \<Rightarrow> 'd" where
  [run_simps]: "get_deleter this = m_deleter this"

definition as_bool :: "'d uptr \<Rightarrow> bool" where
  [run_simps]: "as_bool this \<longleftrightarrow> m_ptr this \<noteq> 0"

definition deref :: "'d uptr \<Rightarrow> nat option" where
  [run_simps]: "deref this = (if m_ptr this = 0 then None else Some (m_ptr this))"

definition arrow :: "'d uptr \<Rightarrow> nat" where
  [run_simps]: "arrow this = m_ptr this"

definition uptr_eq :: "'d uptr \<Rightarrow> 'e uptr \<Rightarrow> bool" where
  [run_simps]: "uptr_eq lhs rhs \<longleftrightarrow> m_ptr lhs = m_ptr rhs"

definition uptr_ne :: "'d uptr \<Rightarrow> 'e uptr \<Rightarrow> bool" where
  [run_simps]: "uptr_ne lhs rhs \<longleftrightarrow> m_ptr lhs \<noteq> m_ptr rhs"

definition uptr_lt :: "'d uptr \<Rightarrow> 'e uptr \<Rightarrow> bool" where
  [run_simps]: "uptr_lt lhs rhs \<longleftrightarrow> m_ptr lhs < m_ptr rhs"

definition uptr_le :: "'d uptr \<Rightarrow> 'e uptr \<Rightarrow> bool" where
  [run_simps]: "uptr_le lhs rhs \<longleftrightarrow> \<not> uptr_lt rhs lhs"

definition uptr_gt :: "'d uptr \<Rightarrow> 'e uptr \<Rightarrow> bool" where
  [run_simps]: "uptr_gt lhs rhs \<longleftrightarrow> uptr_lt rhs lhs"

definition uptr_ge :: "'d uptr \<Rightarrow> 'e uptr \<Rightarrow> bool" where
  [run_simps]: "uptr_ge lhs rhs \<longleftrightarrow> \<not> uptr_lt lhs rhs"

text \<open>For handles of one type the comparisons are a preorder of the library, in which equal means the same object.\<close>

instantiation uptr_ext :: (type, type) preorder
begin

definition less_eq_uptr_ext :: "('a, 'b) uptr_scheme \<Rightarrow> ('a, 'b) uptr_scheme \<Rightarrow> bool" where
  "less_eq_uptr_ext lhs rhs \<longleftrightarrow> m_ptr lhs \<le> m_ptr rhs"

definition less_uptr_ext :: "('a, 'b) uptr_scheme \<Rightarrow> ('a, 'b) uptr_scheme \<Rightarrow> bool" where
  "less_uptr_ext lhs rhs \<longleftrightarrow> m_ptr lhs < m_ptr rhs"

instance
  by standard (auto simp: less_eq_uptr_ext_def less_uptr_ext_def)

end

lemma comparisons_preorder:
  fixes lhs rhs :: "'d uptr"
  shows "uptr_lt lhs rhs \<longleftrightarrow> lhs < rhs" "uptr_gt lhs rhs \<longleftrightarrow> rhs < lhs"
    "uptr_le lhs rhs \<longleftrightarrow> lhs \<le> rhs" "uptr_ge lhs rhs \<longleftrightarrow> rhs \<le> lhs"
    "uptr_eq lhs rhs \<longleftrightarrow> lhs \<le> rhs \<and> rhs \<le> lhs" "uptr_ne lhs rhs \<longleftrightarrow> lhs < rhs \<or> rhs < lhs"
  by (auto simp: uptr_lt_def uptr_gt_def uptr_le_def uptr_ge_def uptr_eq_def uptr_ne_def less_uptr_ext_def less_eq_uptr_ext_def)

definition eq_nullptr :: "'d uptr \<Rightarrow> bool" where
  [run_simps]: "eq_nullptr ptr \<longleftrightarrow> \<not> as_bool ptr"

definition ne_nullptr :: "'d uptr \<Rightarrow> bool" where
  [run_simps]: "ne_nullptr ptr \<longleftrightarrow> as_bool ptr"

section \<open>Programs over several handles\<close>

datatype 'd up_op =
    Default nat | FromPointer nat nat | FromDeleter nat nat 'd | MoveCtor nat nat | MoveAssign nat nat
  | AssignNull nat | Release nat | ResetTo nat nat | Swap nat nat | Dtor nat

type_synonym 'd uvars = "'d uptr option list"

definition var :: "nat \<Rightarrow> 'd uvars \<Rightarrow> 'd uptr option" where
  [run_simps]: "var i vs = (if i < length vs then vs ! i else None)"

definition unborn :: "nat \<Rightarrow> 'd uvars \<Rightarrow> bool" where
  [run_simps]: "unborn i vs \<longleftrightarrow> i < length vs \<and> vs ! i = None"

fun up_exec :: "('d \<Rightarrow> 'd) \<Rightarrow> 'd \<Rightarrow> 'd up_op \<Rightarrow> 'd uvars \<times> 'd uworld \<Rightarrow> ('d uvars \<times> 'd uworld) option" where
  "up_exec gone d0 (Default i) (vs, w) = (if unborn i vs then Some (vs[i := Some (ctor_default d0)], w) else None)"
| "up_exec gone d0 (FromPointer i p) (vs, w) =
     (if unborn i vs then Some (vs[i := Some (ctor_pointer d0 p)], w) else None)"
| "up_exec gone d0 (FromDeleter i p d) (vs, w) =
     (if unborn i vs then Some (vs[i := Some (ctor_deleter p d)], w) else None)"
| "up_exec gone d0 (MoveCtor i j) (vs, w) =
     (case var j vs of None \<Rightarrow> None
      | Some other \<Rightarrow>
          if unborn i vs
          then (case move_ctor gone other of (this, other) \<Rightarrow> Some (vs[i := Some this, j := Some other], w))
          else None)"
| "up_exec gone d0 (MoveAssign i j) (vs, w) =
     (case (var i vs, var j vs) of
        (Some this, Some other) \<Rightarrow>
          if i \<noteq> j
          then map_option (\<lambda>(this, other, w). (vs[i := Some this, j := Some other], w)) (move_assign gone this other w)
          else Some (vs, w)
      | _ \<Rightarrow> None)"
| "up_exec gone d0 (AssignNull i) (vs, w) =
     (case var i vs of None \<Rightarrow> None
      | Some this \<Rightarrow> map_option (\<lambda>(this, w). (vs[i := Some this], w)) (assign_null this w))"
| "up_exec gone d0 (Release i) (vs, w) =
     (case var i vs of None \<Rightarrow> None
      | Some this \<Rightarrow> (case release this of (_, this) \<Rightarrow> Some (vs[i := Some this], w)))"
| "up_exec gone d0 (ResetTo i p) (vs, w) =
     (case var i vs of None \<Rightarrow> None
      | Some this \<Rightarrow> map_option (\<lambda>(this, w). (vs[i := Some this], w)) (reset p this w))"
| "up_exec gone d0 (Swap i j) (vs, w) =
     (case (var i vs, var j vs) of
        (Some this, Some other) \<Rightarrow>
          (case swap_handles this other of (this, other) \<Rightarrow> Some (vs[i := Some this, j := Some other], w))
      | _ \<Rightarrow> None)"
| "up_exec gone d0 (Dtor i) (vs, w) =
     (case var i vs of None \<Rightarrow> None | Some this \<Rightarrow> map_option (Pair (vs[i := None])) (dtor this w))"

section \<open>Who holds which object, and with which deleter\<close>

fun part :: "'d uptr option \<Rightarrow> (nat \<times> 'd) multiset" where
  "part None = {#}"
| "part (Some h) = (if m_ptr h = 0 then {#} else {#(m_ptr h, m_deleter h)#})"

abbreviation holdings :: "'d uvars \<Rightarrow> (nat \<times> 'd) multiset" where
  "holdings vs \<equiv> held part vs"

text \<open>The conversions move what the other handle holds, with its deleter converted, and drop what the target held.\<close>

lemma converting_ctor_moves:
  assumes "converting_ctor conv gone other = (this, other')"
  shows "part (Some this) = image_mset (map_prod id conv) (part (Some other)) \<and> part (Some other') = {#}"
  using assms by (auto simp: converting_ctor_def release_def)

lemma converting_assign_moves:
  assumes "converting_assign conv gone this other w = Some (this', other', w')"
  shows "part (Some this') = image_mset (map_prod id conv) (part (Some other)) \<and> part (Some other') = {#} \<and>
    mset (log w') = mset (log w) + part (Some this) \<and> alive w' = alive w - fst ` set_mset (part (Some this))"
  using assms by (auto simp: converting_assign_def release_def reset_def run_deleter_def Let_def split: if_splits)

definition once :: "(nat \<times> 'd) multiset \<Rightarrow> bool" where
  "once A \<longleftrightarrow> (\<forall>p. count (image_mset fst A) p \<le> 1)"

text \<open>
  A is the account: every object handed over and not released, with the deleter it belongs to.
  Each of them is either held by one handle and alive, or deleted by its own deleter.
\<close>

definition up_inv :: "'d uvars \<Rightarrow> 'd uworld \<Rightarrow> (nat \<times> 'd) multiset \<Rightarrow> bool" where
  "up_inv vs w A \<longleftrightarrow> holdings vs + mset (log w) = A \<and> once A \<and>
     0 \<notin> alive w \<and> fst ` set_mset (holdings vs) \<subseteq> alive w \<and> fst ` set (log w) \<inter> alive w = {}"

lemma up_inv_same: "up_inv vs w A \<Longrightarrow> holdings vs' = holdings vs \<Longrightarrow> up_inv vs' w A"
  by (simp add: up_inv_def)

lemma up_place: "up_inv vs w A \<Longrightarrow> i < length vs \<Longrightarrow> part (vs ! i) = {#} \<Longrightarrow> part x = {#} \<Longrightarrow> up_inv (vs[i := x]) w A"
  by (erule up_inv_same) (simp add: held_put)

definition loose :: "nat \<Rightarrow> 'd uworld \<Rightarrow> (nat \<times> 'd) multiset \<Rightarrow> bool" where
  "loose p w A \<longleftrightarrow> p = 0 \<or> p \<in> alive w \<and> p \<notin> fst ` set_mset A"

lemma once_add: "once A \<Longrightarrow> p \<notin> fst ` set_mset A \<Longrightarrow> once (A + {#(p, d)#})"
proof -
  assume a: "once A" "p \<notin> fst ` set_mset A"
  then have "count (image_mset fst A) p = 0" by (simp add: count_eq_zero_iff)
  then show ?thesis using a(1) by (auto simp: once_def)
qed

lemma once_part: "once (A + B) \<Longrightarrow> once A"
  unfolding once_def by (metis count_union image_mset_union le_add1 le_trans)

lemma once_disjoint:
  assumes "once (A + B)" and "x \<in># A" and "y \<in># B"
  shows "fst x \<noteq> fst y"
proof
  assume eq: "fst x = fst y"
  have "0 < count (image_mset fst A) (fst x)" "0 < count (image_mset fst B) (fst x)"
    unfolding count_greater_zero_iff set_image_mset using assms(2,3) eq by (metis imageI)+
  moreover have "count (image_mset fst A) (fst x) + count (image_mset fst B) (fst x) \<le> 1"
    using assms(1) by (auto simp: once_def)
  ultimately show False by linarith
qed

lemma up_adopt:
  assumes "up_inv vs w A" and "i < length vs" and "part (vs ! i) = {#}" and "loose p w A"
  shows "up_inv (vs[i := Some \<lparr>m_ptr = p, m_deleter = d\<rparr>]) w (if p = 0 then A else A + {#(p, d)#})"
proof (cases "p = 0")
  case True
  then show ?thesis using assms by (simp add: up_place)
next
  case False
  then have p: "p \<in> alive w" "p \<notin> fst ` set_mset A" using assms(4) by (auto simp: loose_def)
  have "holdings (vs[i := Some \<lparr>m_ptr = p, m_deleter = d\<rparr>]) = holdings vs + {#(p, d)#}"
    using assms(2,3) False by (simp add: held_put)
  then show ?thesis using assms(1) p False by (auto simp: up_inv_def once_add [of A, simplified])
qed

lemma up_drop:
  assumes "up_inv vs w A" and "i < length vs" and "vs ! i = Some h"
  shows "\<exists>w'. (if m_ptr h \<noteq> 0 then run_deleter (m_deleter h) (m_ptr h) w else Some w) = Some w' \<and>
    alive w' = alive w - {m_ptr h} \<and> (\<forall>x. part x = {#} \<longrightarrow> up_inv (vs[i := x]) w' A)"
proof (cases "m_ptr h = 0")
  case True
  have "0 \<notin> alive w" using assms(1) by (simp add: up_inv_def)
  then show ?thesis using True assms by (simp add: up_place)
next
  case False
  let ?e = "(m_ptr h, m_deleter h)"
  let ?w' = "w\<lparr>alive := alive w - {m_ptr h}, log := log w @ [?e]\<rparr>"
  have part: "part (vs ! i) = {#?e#}" using assms(3) False by simp
  then have "?e \<in># holdings vs" using held_part [OF assms(2), of part] by simp
  then have alive: "m_ptr h \<in> alive w" using assms(1) by (force simp: up_inv_def)
  then have run: "run_deleter (m_deleter h) (m_ptr h) w = Some ?w'" by (simp add: run_deleter_def)
  have "up_inv (vs[i := x]) ?w' A" if "part x = {#}" for x
  proof -
    let ?rest = "holdings (vs[i := x])"
    have h: "holdings vs = ?rest + {#?e#}" using held_take [of i vs part, OF assms(2) that] part by simp
    have "once (holdings vs)" using assms(1) once_part by (auto simp: up_inv_def)
    then have "fst y \<noteq> m_ptr h" if "y \<in># ?rest" for y
      using once_disjoint [of ?rest "{#?e#}" y ?e] that by (simp add: h)
    then have "fst ` set_mset ?rest \<subseteq> alive w - {m_ptr h}" using assms(1) h by (auto simp: up_inv_def)
    then show ?thesis using assms(1) h by (auto simp: up_inv_def)
  qed
  then show ?thesis using run False by simp
qed

lemma up_release:
  assumes "up_inv vs w A" and "i < length vs" and "part x = {#}"
  shows "up_inv (vs[i := x]) w (A - part (vs ! i))"
proof -
  have h: "holdings vs = holdings (vs[i := x]) + part (vs ! i)" by (rule held_take [of i vs part, OF assms(2,3)])
  then have "A = holdings (vs[i := x]) + mset (log w) + part (vs ! i)"
    using assms(1) by (simp add: up_inv_def ac_simps)
  moreover from this have "once (holdings (vs[i := x]) + mset (log w))"
    using assms(1) once_part unfolding up_inv_def by metis
  ultimately show ?thesis using assms(1) h by (auto simp: up_inv_def)
qed

lemma up_move:
  assumes "up_inv vs w A" and "i < length vs" and "j < length vs" and "i \<noteq> j"
    and "part (vs ! i) = {#}" and "part x = part (vs ! j)" and "part y = {#}"
  shows "up_inv (vs[i := x, j := y]) w A"
  using assms by (auto intro: up_inv_same held_move)

lemma up_swap:
  assumes "up_inv vs w A" and "i < length vs" and "j < length vs" and "i \<noteq> j"
  shows "up_inv (vs[i := vs ! j, j := vs ! i]) w A"
  using assms by (auto intro: up_inv_same held_swap)

section \<open>Steps of a program\<close>

fun up_legal :: "'d up_op \<Rightarrow> 'd uvars \<Rightarrow> 'd uworld \<Rightarrow> (nat \<times> 'd) multiset \<Rightarrow> bool" where
  "up_legal (Default i) vs w A = unborn i vs"
| "up_legal (FromPointer i p) vs w A = (unborn i vs \<and> loose p w A)"
| "up_legal (FromDeleter i p d) vs w A = (unborn i vs \<and> loose p w A)"
| "up_legal (MoveCtor i j) vs w A = (unborn i vs \<and> var j vs \<noteq> None)"
| "up_legal (MoveAssign i j) vs w A = (var i vs \<noteq> None \<and> var j vs \<noteq> None)"
| "up_legal (AssignNull i) vs w A = (var i vs \<noteq> None)"
| "up_legal (Release i) vs w A = (var i vs \<noteq> None)"
| "up_legal (ResetTo i p) vs w A = (var i vs \<noteq> None \<and> loose p w A)"
| "up_legal (Swap i j) vs w A = (var i vs \<noteq> None \<and> var j vs \<noteq> None)"
| "up_legal (Dtor i) vs w A = (var i vs \<noteq> None)"

text \<open>The account after a step: a pointer handed over comes in, a released one goes out.\<close>

fun account :: "'d \<Rightarrow> 'd up_op \<Rightarrow> 'd uvars \<Rightarrow> (nat \<times> 'd) multiset \<Rightarrow> (nat \<times> 'd) multiset" where
  "account d0 (FromPointer i p) vs A = (if p = 0 then A else A + {#(p, d0)#})"
| "account d0 (FromDeleter i p d) vs A = (if p = 0 then A else A + {#(p, d)#})"
| "account d0 (ResetTo i p) vs A = (if p = 0 then A else A + {#(p, m_deleter (the (var i vs)))#})"
| "account d0 (Release i) vs A = A - part (vs ! i)"
| "account d0 _ vs A = A"

lemma up_varD: "var i vs = Some h \<Longrightarrow> i < length vs \<and> vs ! i = Some h"
  by (auto simp: var_def split: if_splits)

lemma up_unbornD: "unborn i vs \<Longrightarrow> i < length vs \<and> vs ! i = None"
  by (simp add: unborn_def)

lemma uptr_upd: "h\<lparr>m_ptr := a, m_deleter := b\<rparr> = \<lparr>m_ptr = a, m_deleter = b\<rparr>" for h :: "'d uptr"
  by (cases h) simp

lemma exec_reset:
  assumes "up_inv vs w A" and "var i vs = Some h" and "loose p w A"
  shows "\<exists>w'. reset p h w = Some (h\<lparr>m_ptr := p\<rparr>, w') \<and>
    up_inv (vs[i := Some (h\<lparr>m_ptr := p\<rparr>)]) w' (if p = 0 then A else A + {#(p, m_deleter h)#}) \<and>
    up_inv (vs[i := None]) w' A"
proof -
  obtain w' where w': "(if m_ptr h \<noteq> 0 then run_deleter (m_deleter h) (m_ptr h) w else Some w) = Some w'"
    "alive w' = alive w - {m_ptr h}" "\<forall>x. part x = {#} \<longrightarrow> up_inv (vs[i := x]) w' A"
    using up_drop [OF assms(1), of i h] up_varD [OF assms(2)] by blast
  have "p \<noteq> m_ptr h" if "p \<noteq> 0"
  proof
    assume "p = m_ptr h"
    then have "(p, m_deleter h) \<in># holdings vs"
      using held_part [of i vs part] up_varD [OF assms(2)] that by (auto dest!: mset_subset_eqD)
    then have "(p, m_deleter h) \<in># A" using assms(1) by (auto simp: up_inv_def)
    then show False using assms(3) that by (force simp: loose_def)
  qed
  then have "loose p w' A" using assms(3) w'(2) by (auto simp: loose_def)
  moreover have "up_inv (vs[i := Some (ctor_default (m_deleter h))]) w' A"
    using w'(3) by (simp add: ctor_default_def)
  ultimately have "up_inv (vs[i := Some \<lparr>m_ptr = p, m_deleter = m_deleter h\<rparr>]) w' (if p = 0 then A else A + {#(p, m_deleter h)#})"
    using up_adopt [of "vs[i := Some (ctor_default (m_deleter h))]" w' A i p "m_deleter h"] up_varD [OF assms(2)]
    by (simp add: ctor_default_def)
  moreover have "\<lparr>m_ptr = p, m_deleter = m_deleter h\<rparr> = h\<lparr>m_ptr := p\<rparr>" by (cases h) simp
  moreover have "reset p h w = Some (h\<lparr>m_ptr := p\<rparr>, w')"
    using w'(1) by (auto simp: reset_def Let_def split: if_splits)
  ultimately show ?thesis using w'(3) by simp
qed

lemma up_exec_inv:
  assumes "up_inv vs w A" and "up_legal op vs w A"
  shows "\<exists>vs' w'. up_exec gone d0 op (vs, w) = Some (vs', w') \<and> up_inv vs' w' (account d0 op vs A) \<and>
    length vs' = length vs"
proof (cases op)
  case (Default i)
  then have "unborn i vs" using assms(2) by simp
  then show ?thesis using Default up_place [OF assms(1)] up_unbornD [of i vs] by (simp add: ctor_default_def)
next
  case (FromPointer i p)
  then have "unborn i vs" "loose p w A" using assms(2) by simp_all
  then show ?thesis
    using FromPointer up_adopt [OF assms(1), of i p d0] up_unbornD [of i vs] by (simp add: ctor_pointer_def)
next
  case (FromDeleter i p d)
  then have "unborn i vs" "loose p w A" using assms(2) by simp_all
  then show ?thesis
    using FromDeleter up_adopt [OF assms(1), of i p d] up_unbornD [of i vs] by (simp add: ctor_deleter_def)
next
  case (MoveCtor i j)
  then obtain h where h: "unborn i vs" "var j vs = Some h" using assms(2) by auto
  then have "i \<noteq> j" by (auto simp: unborn_def var_def split: if_splits)
  then show ?thesis
    using MoveCtor h up_unbornD [OF h(1)] up_varD [OF h(2)] by (auto simp: move_ctor_def intro!: up_move [OF assms(1)])
next
  case (MoveAssign i j)
  then obtain h g where v: "var i vs = Some h" "var j vs = Some g" using assms(2) by auto
  show ?thesis
  proof (cases "i = j")
    case True
    then show ?thesis using MoveAssign v assms(1) by simp
  next
    case False
    let ?g = "\<lparr>m_ptr = 0, m_deleter = gone (m_deleter g)\<rparr>"
    obtain w' where w': "(if m_ptr h \<noteq> 0 then run_deleter (m_deleter h) (m_ptr h) w else Some w) = Some w'"
      "\<forall>x. part x = {#} \<longrightarrow> up_inv (vs[i := x]) w' A"
      using up_drop [OF assms(1), of i h] up_varD [OF v(1)] by blast
    have "up_inv (vs[i := None]) w' A" using w'(2) by simp
    then have "up_inv ((vs[i := None])[i := Some g, j := Some ?g]) w' A"
      by (rule up_move) (use up_varD [OF v(1)] up_varD [OF v(2)] False in simp_all)
    moreover have "move_assign gone h g w = Some (g, ?g, w')"
      using w'(1) by (cases g) (auto simp: move_assign_def release_def reset_def uptr_upd Let_def split: if_splits)
    ultimately show ?thesis using MoveAssign v False by simp
  qed
next
  case (AssignNull i)
  then obtain h where h: "var i vs = Some h" using assms(2) by auto
  from exec_reset [OF assms(1) this, of 0] show ?thesis
    using AssignNull h by (auto simp: assign_null_def loose_def)
next
  case (Release i)
  then obtain h where h: "var i vs = Some h" using assms(2) by auto
  then show ?thesis
    using Release up_release [OF assms(1), of i "Some (h\<lparr>m_ptr := 0\<rparr>)"] up_varD [OF h] by (simp add: release_def)
next
  case (ResetTo i p)
  then obtain h where h: "var i vs = Some h" "loose p w A" using assms(2) by auto
  from exec_reset [OF assms(1) this] show ?thesis using ResetTo h by auto
next
  case (Swap i j)
  then obtain h g where v: "var i vs = Some h" "var j vs = Some g" using assms(2) by auto
  have sw: "swap_handles h g = (g, h)" by (cases h; cases g) (simp add: swap_handles_def)
  show ?thesis
  proof (cases "i = j")
    case True
    then have "vs[i := Some g, j := Some h] = vs" using v up_varD [OF v(1)] by (auto intro: list_update_same_conv [THEN iffD2])
    then show ?thesis using Swap v sw assms(1) by simp
  next
    case False
    then have "up_inv (vs[i := Some g, j := Some h]) w A"
      using up_swap [OF assms(1), of i j] up_varD [OF v(1)] up_varD [OF v(2)] by simp
    then show ?thesis using Swap v sw by simp
  qed
next
  case (Dtor i)
  then obtain h where h: "var i vs = Some h" using assms(2) by auto
  from exec_reset [OF assms(1) this, of 0] show ?thesis
    using Dtor h by (auto simp: dtor_def loose_def)
qed

definition uworld_init :: "'d uworld" where
  [run_simps]: "uworld_init = \<lparr>alive = {}, log = []\<rparr>"

datatype 'd up_label = Allocate nat | Operate "'d up_op"

fun up_step ::
  "('d \<Rightarrow> 'd) \<Rightarrow> 'd \<Rightarrow> 'd up_label \<Rightarrow> 'd uvars \<times> 'd uworld \<times> (nat \<times> 'd) multiset \<Rightarrow>
     ('d uvars \<times> 'd uworld \<times> (nat \<times> 'd) multiset) option" where
  "up_step gone d0 (Allocate p) (vs, w, A) =
     (if p \<noteq> 0 \<and> p \<notin> alive w \<and> p \<notin> fst ` set (log w) then Some (vs, w\<lparr>alive := insert p (alive w)\<rparr>, A) else None)"
| "up_step gone d0 (Operate op) (vs, w, A) =
     (if up_legal op vs w A
      then (case up_exec gone d0 op (vs, w) of None \<Rightarrow> None | Some (vs', w') \<Rightarrow> Some (vs', w', account d0 op vs A))
      else None)"

definition up_reach :: "('d \<Rightarrow> 'd) \<Rightarrow> 'd \<Rightarrow> 'd uvars \<Rightarrow> 'd uworld \<Rightarrow> (nat \<times> 'd) multiset \<Rightarrow> bool" where
  "up_reach gone d0 vs w A \<longleftrightarrow> (\<exists>n. reachable (replicate n None, uworld_init, {#}) (up_step gone d0) (vs, w, A))"

lemma up_start: "up_reach gone d0 (replicate n None) uworld_init {#}"
  unfolding up_reach_def by (blast intro: reach_start)

lemma up_alloc:
  "up_reach gone d0 vs w A \<Longrightarrow> p \<noteq> 0 \<Longrightarrow> p \<notin> alive w \<Longrightarrow> p \<notin> fst ` set (log w) \<Longrightarrow>
    up_reach gone d0 vs (w\<lparr>alive := insert p (alive w)\<rparr>) A"
  unfolding up_reach_def by (erule exE, rule exI, erule reach_step [where l = "Allocate p"]) simp

lemma up_next:
  "up_reach gone d0 vs w A \<Longrightarrow> up_legal op vs w A \<Longrightarrow> up_exec gone d0 op (vs, w) = Some (vs', w') \<Longrightarrow>
    up_reach gone d0 vs' w' (account d0 op vs A)"
  unfolding up_reach_def by (erule exE, rule exI, erule reach_step [where l = "Operate op"]) simp

lemma up_step_inv:
  assumes "up_inv vs w A" and "up_step gone d0 l (vs, w, A) = Some (vs', w', A')"
  shows "up_inv vs' w' A'"
proof (cases l)
  case (Allocate p)
  then have "p \<notin> fst ` set (log w)" "vs' = vs" "w' = w\<lparr>alive := insert p (alive w)\<rparr>" "A' = A" "p \<noteq> 0"
    using assms(2) by (simp_all split: if_split_asm)
  then show ?thesis using assms(1) by (auto simp: up_inv_def)
next
  case (Operate op)
  then show ?thesis using assms up_exec_inv [of vs w A op gone d0] by (auto split: if_splits option.splits)
qed

interpretation owning_program: machine "(replicate n None, uworld_init, {#})" "up_step gone d0" "\<lambda>(vs, w, A). up_inv vs w A"
  for n gone d0
proof
  have "holdings (replicate n None :: 'a uvars) = {#}" by (induction n) simp_all
  then show "case (replicate n None, uworld_init, {#}) of (vs :: 'a uvars, w, A) \<Rightarrow> up_inv vs w A"
    by (simp add: up_inv_def uworld_init_def once_def)
qed (use up_step_inv in fast)

lemma up_reach_inv: "up_reach gone d0 vs w A \<Longrightarrow> up_inv vs w A"
  unfolding up_reach_def by (auto dest: owning_program.reachable_inv)

section \<open>Properties\<close>

text \<open>
  C24: no program that owns its objects only through these handles misuses memory: every legal
  operation is defined (self-assignment and self-swap included), and afterwards no two handles
  name the same object and every object a handle names is alive.
\<close>

theorem up_defined:
  assumes "up_reach gone d0 vs w A" and "up_legal op vs w A"
  shows "\<exists>vs' w'. up_exec gone d0 op (vs, w) = Some (vs', w') \<and> once (holdings vs') \<and>
    fst ` set_mset (holdings vs') \<subseteq> alive w'"
proof -
  obtain vs' w' where "up_exec gone d0 op (vs, w) = Some (vs', w')" "up_inv vs' w' (account d0 op vs A)"
    using up_exec_inv [OF up_reach_inv [OF assms(1)] assms(2)] by blast
  then show ?thesis using once_part [of "holdings vs'" "mset (log w')"] by (auto simp: up_inv_def)
qed

text \<open>Deleters named by numbers; one that was moved from becomes 0, and 1 is made by default.\<close>

definition demo_uworld :: "nat uworld" where
  "demo_uworld = \<lparr>alive = {7}, log = []\<rparr>"

abbreviation demo_uvars :: "nat uvars" where
  "demo_uvars \<equiv> [Some \<lparr>m_ptr = 7, m_deleter = 5\<rparr>, Some \<lparr>m_ptr = 0, m_deleter = 1\<rparr>]"

lemma demo_up_reach: "up_reach (\<lambda>_. 0) 1 demo_uvars demo_uworld {#(7, 5)#}"
proof -
  have "up_reach (\<lambda>_. 0) 1 [None, None] demo_uworld {#}"
    using up_alloc [OF up_start [of "\<lambda>_. 0" "1 :: nat" 2], of 7] by (simp add: uworld_init_def demo_uworld_def numeral_2_eq_2)
  from up_next [OF this, of "Default 1" "[None, Some \<lparr>m_ptr = 0, m_deleter = 1\<rparr>]" demo_uworld]
  have "up_reach (\<lambda>_. 0) 1 [None, Some \<lparr>m_ptr = 0, m_deleter = 1\<rparr>] demo_uworld {#}"
    by (simp add: unborn_def ctor_default_def)
  from up_next [OF this, of "FromDeleter 0 7 5" demo_uvars demo_uworld]
  show ?thesis by (simp add: unborn_def ctor_deleter_def loose_def demo_uworld_def)
qed

theorem up_defined_witness:
  "\<exists>vs' w'. up_exec (\<lambda>_. 0) 1 (MoveAssign 1 0) (demo_uvars, demo_uworld) = Some (vs', w') \<and> once (holdings vs')"
  using up_defined [OF demo_up_reach, of "MoveAssign 1 0"] by (fastforce simp: var_def)

text \<open>
  C25: every object is deleted once, and by its own deleter. The objects handed over and not
  released are, each with the deleter it was handed over with (or, after reset, the deleter of
  the handle that took it), either held by one handle or in the log; when all the handles are
  destroyed they are all in the log, once each.
\<close>

theorem up_deleted_by_own:
  assumes "up_reach gone d0 vs w A"
  shows "holdings vs + mset (log w) = A \<and> once A \<and> (set vs \<subseteq> {None} \<longrightarrow> mset (log w) = A)"
proof -
  have inv: "up_inv vs w A" using assms by (rule up_reach_inv)
  have "holdings vs = {#}" if "set vs \<subseteq> {None}"
    using that by (intro held_none) auto
  then show ?thesis using inv by (auto simp: up_inv_def)
qed

theorem up_deleted_by_own_witness:
  "\<exists>w. up_reach (\<lambda>_. 0) 1 [Some \<lparr>m_ptr = 0, m_deleter = 0\<rparr>, None] w {#(7, 5)#} \<and> mset (log w) = {#(7::nat, 5::nat)#}"
proof -
  have a: "up_reach (\<lambda>_. 0) 1 [Some \<lparr>m_ptr = 0, m_deleter = 0\<rparr>, Some \<lparr>m_ptr = 7, m_deleter = 5\<rparr>] demo_uworld {#(7, 5)#}"
    using up_next [OF demo_up_reach, of "MoveAssign 1 0" "[Some \<lparr>m_ptr = 0, m_deleter = 0\<rparr>, Some \<lparr>m_ptr = 7, m_deleter = 5\<rparr>]" demo_uworld]
    by (simp add: var_def move_assign_def release_def reset_def)
  let ?w = "\<lparr>alive = {}, log = [(7, 5)]\<rparr> :: nat uworld"
  have b: "up_reach (\<lambda>_. 0) 1 [Some \<lparr>m_ptr = 0, m_deleter = 0\<rparr>, None] ?w {#(7, 5)#}"
    using up_next [OF a, of "Dtor 1" "[Some \<lparr>m_ptr = 0, m_deleter = 0\<rparr>, None]" ?w]
    by (simp add: var_def dtor_def reset_def run_deleter_def demo_uworld_def)
  have "mset (log ?w) = {#(7, 5)#}"
    using up_deleted_by_own [OF b] by simp
  with b show ?thesis by blast
qed

end
