(* ===== verification/AnyHandle.thy ===== *)
theory AnyHandle
  imports ObjectHeap Decimal
begin

text \<open>
  The holder of include/quick/handle/Any.cc: one value of a type fixed at compile time, inside the
  object when it is no larger and no more aligned than an int, in a block of its own otherwise.
  (The source names the class Any and its constructors any; the model reads them as those of the
  class.) The heap holds the block; the storage inside the object is a slot of it.
\<close>

section \<open>State\<close>

text \<open>
  What the program does not decide: the type of the value and its size and alignment, whether
  operator new grants a block, and whether copying a value throws.
\<close>

record ('t, 'a) any_env =
  AnyType :: 't
  sizeof_any :: nat
  alignof_any :: nat
  granted_any :: bool
  copy_throws :: "'a \<Rightarrow> bool"

record 'a any =
  storage :: "'a slot"
  ptr :: nat
  on_heap :: bool

datatype any_error = Bad_alloc | Copy_threw | Bad_cast

definition SMALL_SIZE :: nat where
  [run_simps]: "SMALL_SIZE = 4"

definition is_small :: "('t, 'a) any_env \<Rightarrow> bool" where
  [run_simps]: "is_small E \<longleftrightarrow> sizeof_any E \<le> SMALL_SIZE \<and> alignof_any E \<le> 4"

definition any_default :: "'a any" where
  [run_simps]: "any_default = \<lparr>storage = Raw, ptr = 0, on_heap = False\<rparr>"

text \<open>The copying constructor: the holder or what it throws, and the heap. None is undefined.\<close>

definition any_ctor :: "('t, 'a) any_env \<Rightarrow> 'a \<Rightarrow> 'a heap \<Rightarrow> ((any_error + 'a any) \<times> 'a heap) option" where
  [run_simps]: "any_ctor E other h =
     (if is_small E
      then Some (if copy_throws E other then Inl Copy_threw
                 else Inr \<lparr>storage = Live other, ptr = 0, on_heap = False\<rparr>, h)
      else if \<not> granted_any E then Some (Inl Bad_alloc, h)
      else (case new_block 1 h of
              (p, h) \<Rightarrow>
                if copy_throws E other then Some (Inl Copy_threw, h)
                else do {
                  h \<leftarrow> construct_at p 0 other h;
                  Some (Inr \<lparr>storage = Raw, ptr = p, on_heap = True\<rparr>, h) }))"

text \<open>The destructor: what it leaves of the holder, where a small value was destroyed, and the heap.\<close>

definition any_dtor :: "'a any \<Rightarrow> 'a heap \<Rightarrow> ('a any \<times> 'a heap) option" where
  [run_simps]: "any_dtor this h =
     (if on_heap this \<and> ptr this \<noteq> 0
      then do { h \<leftarrow> destroy_at (ptr this) 0 h; h \<leftarrow> delete_block (ptr this) h; Some (this, h) }
      else if \<not> on_heap this then (if storage this = Raw then None else Some (this\<lparr>storage := Raw\<rparr>, h))
      else Some (this, h))"

definition any_cast :: "('t, 'a) any_env \<Rightarrow> 't \<Rightarrow> 'a any \<Rightarrow> 'a heap \<Rightarrow> (any_error + 'a) option" where
  [run_simps]: "any_cast E T this h =
     (if T \<noteq> AnyType E then Some (Inl Bad_cast)
      else if on_heap this then map_option Inr (read_at (ptr this) 0 h)
      else (case storage this of Live x \<Rightarrow> Some (Inr x) | _ \<Rightarrow> None))"

text \<open>is_small_trait, a template that is false but for its specialization for int; nothing uses it.\<close>

datatype cpp_type = Int_type | Double_type | Other_type string

fun is_small_trait :: "cpp_type \<Rightarrow> bool" where
  "is_small_trait Int_type = True"
| "is_small_trait _ = False"

text \<open>
  The main function at the end of the file: what it has printed, the exception that ended it, if
  one did, and the heap. The size of a holder and the output of a value are those of the
  implementation; one_int and pi are the values 1 and 3.14.
\<close>

definition endl :: string where
  [run_simps]: "endl = [CHR 0x0a]"

definition any_main ::
  "(cpp_type \<Rightarrow> nat) \<Rightarrow> ('a \<Rightarrow> string) \<Rightarrow> (cpp_type \<Rightarrow> (cpp_type, 'a) any_env) \<Rightarrow> 'a \<Rightarrow> 'a \<Rightarrow> 'a heap \<Rightarrow>
     (string \<times> any_error option \<times> 'a heap) option" where
  "any_main sizeof_holder show_value env one_int pi h = do {
     (someAny, h) \<leftarrow> any_ctor (env Int_type) one_int h;
     (case someAny of
        Inl e \<Rightarrow> Some ([], Some e, h)
      | Inr someAny \<Rightarrow> do {
          let out = ''sizeof(any<int>): '' @ decimal (int (sizeof_holder Int_type)) @ endl;
          val \<leftarrow> any_cast (env Int_type) Int_type someAny h;
          (case val of
             Inl e \<Rightarrow> Some (out, Some e, h)
           | Inr val \<Rightarrow> do {
               let out = out @ ''Value stored: '' @ show_value val @ endl;
               (anotherAny, h) \<leftarrow> any_ctor (env Double_type) pi h;
               (case anotherAny of
                  Inl e \<Rightarrow> Some (out, Some e, h)
                | Inr anotherAny \<Rightarrow> do {
                    let out = out @ ''sizeof(any<double>): '' @ decimal (int (sizeof_holder Double_type)) @ endl @ ''Double value: '';
                    d \<leftarrow> any_cast (env Double_type) Double_type anotherAny h;
                    (case d of
                       Inl e \<Rightarrow> Some (out, Some e, h)
                     | Inr d \<Rightarrow> do {
                         let out = out @ show_value d @ endl;
                         (_, h) \<leftarrow> any_dtor anotherAny h;
                         (_, h) \<leftarrow> any_dtor someAny h;
                         Some (out, None, h) }) }) }) }) }"

section \<open>Properties\<close>

text \<open>The holder stands for the value x, in a heap that is h0 but for its block.\<close>

definition any_holds :: "'a any \<Rightarrow> 'a \<Rightarrow> 'a heap \<Rightarrow> 'a heap \<Rightarrow> bool" where
  "any_holds a x h0 h \<longleftrightarrow>
     (if on_heap a then storage a = Raw \<and> ptr a \<noteq> 0 \<and> blocks h (ptr a) = Some [Live x] \<and> blocks h0 (ptr a) = None \<and>
        h = (with_block (ptr a) [Live x] h0)\<lparr>fresh := fresh h\<rparr>
      else storage a = Live x \<and> h = h0)"

lemma any_ctor_holds:
  assumes "heap_ok h" and "any_ctor E x h = Some (Inr a, h')"
  shows "any_holds a x h h'"
proof (cases "is_small E")
  case True
  then show ?thesis using assms(2) by (auto simp: any_ctor_def any_holds_def split: if_splits)
next
  case False
  have "construct_at (fresh h) 0 x (snd (new_block 1 h)) = Some (with_block (fresh h) [Live x] (snd (new_block 1 h)))"
    by (subst construct_raw [where cells = "[Raw]"]) (simp_all add: new_block_def)
  then show ?thesis
    using assms heap_ok_fresh [OF assms(1)] False
    by (auto simp: any_ctor_def any_holds_def new_block_def heap_ok_def split: if_splits)
qed

lemma any_dtor_holds:
  assumes "any_holds a x h0 h"
  shows "any_dtor a h = Some (a\<lparr>storage := Raw\<rparr>, h0\<lparr>fresh := fresh h\<rparr>)"
proof (cases "on_heap a")
  case True
  let ?p = "ptr a" and ?raw = "with_block (ptr a) [Raw] h"
  have a: "?p \<noteq> 0" "a\<lparr>storage := Raw\<rparr> = a" "blocks h ?p = Some [Live x]" "blocks h0 ?p = None" "h = (with_block ?p [Live x] h0)\<lparr>fresh := fresh h\<rparr>"
    using assms True by (simp_all add: any_holds_def)
  note a = a(1,3,4,5,2)
  have "destroy_at ?p 0 h = Some ?raw" using destroy_constructed [OF a(2), of 0] by simp
  moreover have "delete_block ?p ?raw = Some (?raw\<lparr>blocks := (blocks ?raw)(?p := None)\<rparr>)"
    using a(1) by (intro delete_raw [of _ _ "[Raw]"]) (simp_all add: constructed_def)
  moreover have "?raw\<lparr>blocks := (blocks ?raw)(?p := None)\<rparr> = h0\<lparr>fresh := fresh h\<rparr>"
  proof -
    have "(blocks h)(?p := None) = blocks h0" using a(3,4) by (metis (no_types) fun_upd_triv fun_upd_upd heap.select_convs(1) heap.simps(4,5) heap.surjective heap.update_convs(1,2))
    moreover have "lost h = lost h0" by (subst a(4)) simp
    ultimately show ?thesis by (cases h0; cases h) simp
  qed
  ultimately show ?thesis using True a(1,5) by (simp add: any_dtor_def)
next
  case False
  then show ?thesis using assms by (simp add: any_holds_def any_dtor_def)
qed

lemma any_cast_holds:
  assumes "any_holds a x h0 h"
  shows "any_cast E T a h = Some (if T = AnyType E then Inr x else Inl Bad_cast)"
  using assms by (auto simp: any_cast_def any_holds_def read_at_def slot_at_def split: if_splits)

text \<open>
  C35: a holder made of a value gives that value back to a cast to its own type, wherever it keeps
  it, and bad_cast to every other type; a cast changes nothing; its destruction destroys the value,
  frees the block it was in, if it had one, and leaves the heap as it was before.
\<close>

theorem any_typed_life:
  assumes "heap_ok h" and "any_ctor E x h = Some (Inr a, h')"
  shows "any_cast E T a h' = Some (if T = AnyType E then Inr x else Inl Bad_cast) \<and>
    any_dtor a h' = Some (a\<lparr>storage := Raw\<rparr>, h\<lparr>fresh := fresh h'\<rparr>) \<and> on_heap a = (\<not> is_small E)"
proof -
  have holds: "any_holds a x h h'" using assms by (rule any_ctor_holds)
  have "on_heap a = (\<not> is_small E)"
    using assms(2) by (auto simp: any_ctor_def split: if_splits prod.splits bind_splits)
  then show ?thesis using any_cast_holds [OF holds, of E T] any_dtor_holds [OF holds] by blast
qed

abbreviation demo_double :: "(nat, nat) any_env" where
  "demo_double \<equiv> \<lparr>AnyType = 1, sizeof_any = 8, alignof_any = 8, granted_any = True, copy_throws = (\<lambda>x. x = 0)\<rparr>"

theorem any_typed_life_witness:
  "\<exists>a h. any_ctor demo_double 3 empty_heap = Some (Inr a, h) \<and> any_cast demo_double 1 a h = Some (Inr 3) \<and>
     any_cast demo_double 2 a h = Some (Inl Bad_cast) \<and> any_dtor a h = Some (a, empty_heap\<lparr>fresh := 2\<rparr>)"
proof -
  let ?a = "\<lparr>storage = Raw, ptr = 1, on_heap = True\<rparr> :: nat any"
  let ?h = "\<lparr>blocks = [1 \<mapsto> [Live 3]], fresh = 2, lost = 0\<rparr> :: nat heap"
  have c: "any_ctor demo_double 3 empty_heap = Some (Inr ?a, ?h)"
    by (simp add: any_ctor_def is_small_def SMALL_SIZE_def new_block_def construct_at_def slot_at_def set_slot_def empty_heap_def)
  show ?thesis using c any_typed_life [OF heap_ok_empty c, of 1] any_typed_life [OF heap_ok_empty c, of 2] by force
qed

text \<open>
  Destroying a holder that was made by default destroys an object that was never constructed, and
  a copy that throws in the constructor of a large holder leaves its block behind.
\<close>

lemma any_default_undefined: "any_dtor any_default h = None"
  by (simp add: any_dtor_def any_default_def)

lemma any_ctor_leaks:
  assumes "copy_throws E x" and "\<not> is_small E" and "granted_any E"
  shows "\<exists>h'. any_ctor E x h = Some (Inl Copy_threw, h') \<and> blocks h' (fresh h) = Some [Raw]"
  using assms by (simp add: any_ctor_def new_block_def)

text \<open>
  The main function prints both values, that of the int kept inside its holder and that of the
  double in a block, and leaves no block behind.
\<close>

lemma any_ctor_made:
  assumes "\<not> copy_throws E x" and "is_small E \<or> granted_any E" and "heap_ok h"
  shows "\<exists>a h'. any_ctor E x h = Some (Inr a, h') \<and> any_holds a x h h'"
proof -
  have "construct_at (fresh h) 0 x (snd (new_block 1 h)) = Some (with_block (fresh h) [Live x] (snd (new_block 1 h)))"
    by (subst construct_raw [where cells = "[Raw]"]) (simp_all add: new_block_def)
  then have "\<exists>a h'. any_ctor E x h = Some (Inr a, h')"
    using assms(1,2) by (cases "is_small E") (simp_all add: any_ctor_def new_block_def)
  then show ?thesis using any_ctor_holds [OF assms(3)] by blast
qed

lemma any_main_prints:
  assumes "heap_ok h" and "AnyType (env Int_type) = Int_type" and "AnyType (env Double_type) = Double_type"
    and "is_small (env Int_type)" and "\<not> copy_throws (env Int_type) one_int"
    and "granted_any (env Double_type)" and "\<not> copy_throws (env Double_type) pi"
  shows "\<exists>h'. any_main sizeof_holder show_value env one_int pi h =
      Some (''sizeof(any<int>): '' @ decimal (int (sizeof_holder Int_type)) @ endl @
        ''Value stored: '' @ show_value one_int @ endl @
        ''sizeof(any<double>): '' @ decimal (int (sizeof_holder Double_type)) @ endl @
        ''Double value: '' @ show_value pi @ endl, None, h') \<and> blocks h' = blocks h \<and> lost h' = lost h"
proof -
  let ?a = "\<lparr>storage = Live one_int, ptr = 0, on_heap = False\<rparr>"
  have a: "any_ctor (env Int_type) one_int h = Some (Inr ?a, h)" using assms(4,5) by (simp add: any_ctor_def)
  obtain b h' where b: "any_ctor (env Double_type) pi h = Some (Inr b, h')" "any_holds b pi h h'"
    using any_ctor_made [OF assms(7) disjI2 [OF assms(6)] assms(1)] by blast
  have "any_cast (env Int_type) Int_type ?a h = Some (Inr one_int)" using assms(2) by (simp add: any_cast_def)
  moreover have "any_cast (env Double_type) Double_type b h' = Some (Inr pi)"
    using any_cast_holds [OF b(2), of "env Double_type" Double_type] assms(3) by simp
  moreover have "any_dtor ?a g = Some (?a\<lparr>storage := Raw\<rparr>, g)" for g by (simp add: any_dtor_def)
  ultimately show ?thesis using a b(1) any_dtor_holds [OF b(2)] by (simp add: any_main_def Let_def)
qed

end
