(* ===== verification/ErrorCodes.thy ===== *)
theory ErrorCodes
  imports Prelude
begin

text \<open>
  The error enumerations of include/quick/error/Error.hh, each an unsigned byte whose values
  follow the order of the enumerators.
\<close>

datatype CoreError = INIT_CLIENT_FAIL | SERVER_NOT_ONLINE | INIT_SERVER_FAIL | INVALID_STATE

datatype TomlParserError = FILE_NOT_FOUND | PARSE_ERROR | KEY_NOT_FOUND | TYPE_MISMATCH | INVALID_TOML

datatype Error =
    USER_ERROR | CONFIG_ERROR | UNKNOWN_ERROR | INIT_ERROR | CONTROLLER_ERROR | CORE_ERORR | THREAD_ERROR

datatype TcpError =
    BAD_SOCKET | BIND_FAIL | LISTEN_FAIL | CONNECT_FAIL | ACCEPT_FAIL | SEND_FAIL | RECV_FAIL | INVALID_IP

fun toml_code :: "TomlParserError \<Rightarrow> 8 word" where
  "toml_code FILE_NOT_FOUND = 0"
| "toml_code PARSE_ERROR = 1"
| "toml_code KEY_NOT_FOUND = 2"
| "toml_code TYPE_MISMATCH = 3"
| "toml_code INVALID_TOML = 4"

fun tcp_code :: "TcpError \<Rightarrow> 8 word" where
  "tcp_code BAD_SOCKET = 0"
| "tcp_code BIND_FAIL = 1"
| "tcp_code LISTEN_FAIL = 2"
| "tcp_code CONNECT_FAIL = 3"
| "tcp_code ACCEPT_FAIL = 4"
| "tcp_code SEND_FAIL = 5"
| "tcp_code RECV_FAIL = 6"
| "tcp_code INVALID_IP = 7"

end
