(* ===== verification/TomlParser.thy ===== *)
theory TomlParser
  imports CppString ErrorCodes
begin

text \<open>
  The configuration parser of include/quick/utils/TomlParser.hh: reading a file line by line,
  the sections and keys it keeps, and the lookups. The file system is a parameter, from a path to
  the contents of the file that can be opened there. An outer None is the exception out_of_range
  of a string operation, which in these noexcept functions would end the program; logging is left
  out.
\<close>

section \<open>State\<close>

record toml =
  m_filepath :: string
  m_sections :: "string list"
  m_keys :: "string \<Rightarrow> (string \<Rightarrow> string option) option"

definition TomlParser_default :: toml where
  [run_simps]: "TomlParser_default = \<lparr>m_filepath = ''etc/config.toml'', m_sections = [], m_keys = (\<lambda>_. None)\<rparr>"

definition TomlParser_path :: "string \<Rightarrow> toml" where
  [run_simps]: "TomlParser_path path = \<lparr>m_filepath = path, m_sections = [], m_keys = (\<lambda>_. None)\<rparr>"

section \<open>Parsing\<close>

text \<open>Quotation marks around a value, in the two places the code takes them off.\<close>

definition quoted :: "string \<Rightarrow> bool" where
  [run_simps]: "quoted val \<longleftrightarrow> length val \<ge> 2 \<and>
     (hd val = CHR 0x22 \<and> last val = CHR 0x22 \<or> hd val = CHR 0x27 \<and> last val = CHR 0x27)"

definition unquote :: "string \<Rightarrow> string option" where
  [run_simps]: "unquote val = (if quoted val then substr 1 (length val - 2) val else Some val)"

text \<open>m_keys[section].emplace(key, val): the first value of a key stays.\<close>

definition emplace_key :: "string \<Rightarrow> string \<Rightarrow> string \<Rightarrow> toml \<Rightarrow> toml" where
  [run_simps]: "emplace_key sec key val t =
     (let keys = (case m_keys t sec of None \<Rightarrow> (\<lambda>_. None) | Some keys \<Rightarrow> keys)
      in t\<lparr>m_keys := (m_keys t)(sec \<mapsto> (case keys key of None \<Rightarrow> keys(key \<mapsto> val) | Some _ \<Rightarrow> keys))\<rparr>)"

text \<open>One turn of the loop: the next section and state, or None for the return with PARSE_ERROR.\<close>

definition process_line :: "string \<Rightarrow> string \<times> toml \<Rightarrow> (string \<times> toml) option option" where
  [run_simps]: "process_line line0 = (\<lambda>(current_section, t). do {
     line \<leftarrow> erase_front line0;
     if line = [] then Some (Some (current_section, t))
     else do {
       line \<leftarrow> erase_back line;
       if length line > 0 \<and> hd line = CHR ''#'' then Some (Some (current_section, t))
       else (let left_bracket = find_char CHR ''['' line in
         if left_bracket \<noteq> npos then do {
           section \<leftarrow> substr (size_succ left_bracket) npos line;
           section \<leftarrow> substr 0 (find_char CHR '']'' section) section;
           section \<leftarrow> erase_front section;
           section \<leftarrow> erase_back section;
           Some (Some (section, t\<lparr>m_sections := m_sections t @ [section]\<rparr>)) }
         else (let equal_sign = find_char CHR ''='' line in
           if equal_sign = npos then Some None
           else if current_section = [] then Some None
           else do {
             key \<leftarrow> substr 0 equal_sign line;
             val \<leftarrow> substr (size_succ equal_sign) npos line;
             key \<leftarrow> erase_front key;
             key \<leftarrow> erase_back key;
             val \<leftarrow> erase_front val;
             val \<leftarrow> erase_back val;
             val \<leftarrow> (let comment_pos = find_char CHR ''#'' val in
               if comment_pos \<noteq> npos then do {
                 val \<leftarrow> substr 0 comment_pos val;
                 val \<leftarrow> erase_back val;
                 erase_front val }
               else Some val);
             val \<leftarrow> unquote val;
             Some (Some (current_section, emplace_key current_section key val t)) })) } })"

fun extract_loop :: "string list \<Rightarrow> string \<Rightarrow> toml \<Rightarrow> ((TomlParserError + bool) \<times> toml) option" where
  "extract_loop [] current_section t = Some (Inr True, t)"
| "extract_loop (line # lines) current_section t = do {
     r \<leftarrow> process_line line (current_section, t);
     case r of None \<Rightarrow> Some (Inl PARSE_ERROR, t)
     | Some (current_section, t) \<Rightarrow> extract_loop lines current_section t }"

definition extract_keys :: "string \<Rightarrow> toml \<Rightarrow> ((TomlParserError + bool) \<times> toml) option" where
  [run_simps]: "extract_keys file t = extract_loop (getlines file) [] t"

definition is_valid :: "string \<Rightarrow> TomlParserError + bool" where
  [run_simps]: "is_valid file = Inl INVALID_TOML"

definition load :: "(string \<Rightarrow> string option) \<Rightarrow> toml \<Rightarrow> ((TomlParserError + bool) \<times> toml) option" where
  [run_simps]: "load fs t =
     (case fs (m_filepath t) of
        None \<Rightarrow> Some (Inl FILE_NOT_FOUND, t)
      | Some file \<Rightarrow>
          (let placeholder = True in
           if \<not> placeholder then Some (Inl INVALID_TOML, t)
           else do {
             (result, t) \<leftarrow> extract_keys file t;
             Some (case result of Inl _ \<Rightarrow> Inl PARSE_ERROR | Inr _ \<Rightarrow> Inr True, t) }))"

section \<open>Lookups\<close>

definition get_value :: "toml \<Rightarrow> string \<Rightarrow> string \<Rightarrow> string option" where
  [run_simps]: "get_value t section key =
     (case m_keys t section of None \<Rightarrow> None
      | Some keys \<Rightarrow> (case keys key of None \<Rightarrow> None | Some val \<Rightarrow> Some val))"

definition get_string :: "toml \<Rightarrow> string \<Rightarrow> string option" where
  [run_simps]: "get_string t key =
     (let dot = find_char CHR ''.'' key in
      if dot = npos then Some []
      else do {
        section \<leftarrow> substr 0 dot key;
        subkey \<leftarrow> substr (size_succ dot) npos key;
        case m_keys t section of None \<Rightarrow> Some []
        | Some keys \<Rightarrow>
            (case keys subkey of None \<Rightarrow> Some []
             | Some val \<Rightarrow> unquote val) })"

definition get_int :: "toml \<Rightarrow> string \<Rightarrow> int option" where
  [run_simps]: "get_int t key = do {
     s \<leftarrow> get_string t key;
     Some (if s = [] then 0 else (case stoi s of Inl _ \<Rightarrow> 0 | Inr n \<Rightarrow> n)) }"

text \<open>std::stod is a parameter: the double it gives, or None when it throws.\<close>

definition get_double :: "(string \<Rightarrow> 'f option) \<Rightarrow> 'f \<Rightarrow> toml \<Rightarrow> string \<Rightarrow> 'f option" where
  [run_simps]: "get_double stod zero t key = do {
     s \<leftarrow> get_string t key;
     Some (if s = [] then zero else (case stod s of None \<Rightarrow> zero | Some x \<Rightarrow> x)) }"

section \<open>What a line means\<close>

datatype line_kind = Skip | Header string | Entry string string | Bad

definition after :: "char \<Rightarrow> string \<Rightarrow> string" where
  "after c s = tl (dropWhile (\<lambda>x. x \<noteq> c) s)"

definition before :: "char \<Rightarrow> string \<Rightarrow> string" where
  "before c s = takeWhile (\<lambda>x. x \<noteq> c) s"

definition plain_value :: "string \<Rightarrow> string" where
  "plain_value s = (let v = strip (before CHR ''#'' (strip s)) in if quoted v then butlast (tl v) else v)"

definition classify :: "string \<Rightarrow> line_kind" where
  "classify line =
     (let l = strip line in
      if l = [] \<or> hd l = CHR ''#'' then Skip
      else if CHR ''['' \<in> set l then Header (strip (before CHR '']'' (after CHR ''['' l)))
      else if CHR ''='' \<in> set l then Entry (strip (before CHR ''='' l)) (plain_value (after CHR ''='' l))
      else Bad)"

fun meaning :: "line_kind \<Rightarrow> string \<times> toml \<Rightarrow> (string \<times> toml) option" where
  "meaning Skip (sec, t) = Some (sec, t)"
| "meaning (Header s) (sec, t) = Some (s, t\<lparr>m_sections := m_sections t @ [s]\<rparr>)"
| "meaning (Entry k v) (sec, t) = (if sec = [] then None else Some (sec, emplace_key sec k v t))"
| "meaning Bad (sec, t) = None"

fun read_lines :: "string list \<Rightarrow> string \<Rightarrow> toml \<Rightarrow> (TomlParserError + bool) \<times> toml" where
  "read_lines [] sec t = (Inr True, t)"
| "read_lines (l # ls) sec t =
     (case meaning (classify l) (sec, t) of None \<Rightarrow> (Inl PARSE_ERROR, t) | Some (sec, t) \<Rightarrow> read_lines ls sec t)"

lemma before_less: "length (before c s) < length s \<longleftrightarrow> c \<in> set s"
  by (induction s) (auto simp: before_def)

lemma before_all: "c \<notin> set s \<Longrightarrow> before c s = s"
  by (induction s) (auto simp: before_def)

lemma find_char_before: "find_char c s = (if c \<in> set s then length (before c s) else npos)"
  using before_less [of c s] by (simp add: find_char_def Let_def before_def)

lemma find_char_npos: "fits s \<Longrightarrow> find_char c s = npos \<longleftrightarrow> c \<notin> set s"
  using before_less [of c s] fits_npos [of s] by (auto simp: find_char_before)

lemma substr_before: "fits s \<Longrightarrow> substr 0 (find_char c s) s = Some (before c s)"
  by (auto simp: find_char_before substr_def before_all) (simp add: before_def flip: takeWhile_eq_take)

lemma substr_after:
  assumes "fits s" and "c \<in> set s"
  shows "substr (size_succ (find_char c s)) npos s = Some (after c s)"
proof -
  have pos: "find_char c s = length (before c s)" "length (before c s) < length s"
    using assms(2) by (simp_all add: find_char_before before_less)
  then have "size_succ (find_char c s) = Suc (length (before c s))"
    using assms(1) by (simp add: size_succ_def fits_def)
  moreover have "drop (Suc (length (before c s))) s = after c s"
    by (simp add: after_def before_def dropWhile_eq_drop drop_Suc tl_drop)
  moreover have "fits (after c s)"
    using assms(1) by (rule fits_sub) (simp add: after_def length_dropWhile_le le_trans [OF diff_le_self])
  ultimately show ?thesis using pos(2) by (simp add: substr_def)
qed

lemma before_fits: "fits s \<Longrightarrow> fits (before c s)"
  by (erule fits_sub) (simp add: before_def length_takeWhile_le)

lemma after_fits: "fits s \<Longrightarrow> fits (after c s)"
proof (erule fits_sub)
  show "length (after c s) \<le> length s"
    using length_dropWhile_le [of "\<lambda>x. x \<noteq> c" s] by (simp add: after_def)
qed

lemma unquote_butlast: "fits s \<Longrightarrow> unquote s = Some (if quoted s then butlast (tl s) else s)"
proof (cases "quoted s")
  case True
  then have "1 \<le> length s" by (simp add: quoted_def)
  then have "take (length s - 2) (drop 1 s) = butlast (tl s)"
    by (simp add: butlast_conv_take drop_Suc numeral_2_eq_2)
  then show ?thesis using True by (auto simp: unquote_def substr_def quoted_def)
qed (simp add: unquote_def)

lemmas fits_intros = before_fits after_fits strip_front_fits strip_back_fits strip_fits

text \<open>The code's cutting and searching, with its arithmetic on npos, never throws and means classify.\<close>

lemma erase_front_back: "fits s \<Longrightarrow> do { s \<leftarrow> erase_front s; erase_back s } = Some (strip s)"
  by (simp add: erase_front_strip erase_back_strip strip_front_fits strip_def)

lemma strip_nonempty: "strip_front s \<noteq> [] \<Longrightarrow> strip_back (strip_front s) \<noteq> []"
proof
  assume "strip_front s \<noteq> []" and "strip_back (strip_front s) = []"
  then show False
    using hd_dropWhile [of is_blank s] by (metis hd_in_set strip_back_eq_Nil strip_front_def)
qed

lemma value_code:
  assumes "fits v"
  shows "do {
      val \<leftarrow> erase_front v;
      val \<leftarrow> erase_back val;
      val \<leftarrow> (let comment_pos = find_char CHR ''#'' val in
        if comment_pos \<noteq> npos then do {
          val \<leftarrow> substr 0 comment_pos val;
          val \<leftarrow> erase_back val;
          erase_front val }
        else Some val);
      val \<leftarrow> unquote val;
      f val } = f (plain_value v)"
proof -
  have fits: "fits (strip v)" "fits (before CHR ''#'' (strip v))" "fits (strip (before CHR ''#'' (strip v)))"
    using assms by (auto intro: fits_intros)
  show ?thesis
  proof (cases "CHR ''#'' \<in> set (strip v)")
    case True
    then show ?thesis
      using assms fits
      by (simp add: erase_front_strip erase_back_strip fits_intros find_char_npos substr_before plain_value_def Let_def
          unquote_butlast flip: strip_def)
        (simp add: strip_def strip_commute [symmetric] fits_intros)
  next
    case False
    then show ?thesis
      using assms fits
      by (simp add: erase_front_strip erase_back_strip fits_intros find_char_npos plain_value_def Let_def
          unquote_butlast before_all flip: strip_def)
  qed
qed

lemma header_code:
  assumes "fits l" and "CHR ''['' \<in> set l"
  shows "do {
      section \<leftarrow> substr (size_succ (find_char CHR ''['' l)) npos l;
      section \<leftarrow> substr 0 (find_char CHR '']'' section) section;
      section \<leftarrow> erase_front section;
      section \<leftarrow> erase_back section;
      Some (Some (section, t\<lparr>m_sections := m_sections t @ [section]\<rparr>)) } =
    Some (meaning (Header (strip (before CHR '']'' (after CHR ''['' l)))) (sec, t))"
proof -
  have "fits (after CHR ''['' l)" "fits (before CHR '']'' (after CHR ''['' l))"
    "fits (strip_front (before CHR '']'' (after CHR ''['' l)))"
    using assms(1) by (auto intro: fits_intros)
  then show ?thesis
    using assms by (simp add: substr_after substr_before erase_front_strip erase_back_strip flip: strip_def)
qed

lemma entry_code:
  assumes "fits l" and "CHR ''='' \<in> set l" and "sec \<noteq> []"
  shows "do {
      key \<leftarrow> substr 0 (find_char CHR ''='' l) l;
      val \<leftarrow> substr (size_succ (find_char CHR ''='' l)) npos l;
      key \<leftarrow> erase_front key;
      key \<leftarrow> erase_back key;
      val \<leftarrow> erase_front val;
      val \<leftarrow> erase_back val;
      val \<leftarrow> (let comment_pos = find_char CHR ''#'' val in
        if comment_pos \<noteq> npos then do {
          val \<leftarrow> substr 0 comment_pos val;
          val \<leftarrow> erase_back val;
          erase_front val }
        else Some val);
      val \<leftarrow> unquote val;
      Some (Some (sec, emplace_key sec key val t)) } =
    Some (meaning (Entry (strip (before CHR ''='' l)) (plain_value (after CHR ''='' l))) (sec, t))"
proof -
  let ?k = "before CHR ''='' l" and ?v = "after CHR ''='' l"
  have fits: "fits ?k" "fits (strip_front ?k)" "fits ?v" using assms(1) by (auto intro: fits_intros)
  show ?thesis
    using fits assms value_code [OF fits(3)]
    by (simp add: substr_before substr_after erase_front_strip erase_back_strip flip: strip_def)
qed

lemma process_line_meaning:
  assumes "fits line"
  shows "process_line line (sec, t) = Some (meaning (classify line) (sec, t))"
proof -
  have front: "erase_front line = Some (strip_front line)" "fits (strip_front line)" "fits (strip line)"
    "erase_back (strip_front line) = Some (strip line)"
    using assms by (simp_all add: erase_front_strip erase_back_strip fits_intros strip_def)
  show ?thesis
  proof (cases "strip_front line = []")
    case True
    then have "strip line = []" by (simp add: strip_def strip_back_def)
    then show ?thesis using True front by (simp add: process_line_def classify_def Let_def)
  next
    case False
    then have ne: "strip line \<noteq> []" by (simp add: strip_def strip_nonempty)
    show ?thesis
    proof (cases "hd (strip line) = CHR ''#''")
      case True
      then show ?thesis using False front ne by (simp add: process_line_def classify_def Let_def)
    next
      case no_comment: False
      show ?thesis
      proof (cases "CHR ''['' \<in> set (strip line)")
        case True
        then show ?thesis
          using False front ne no_comment header_code [OF front(3) True, of t sec]
          by (simp add: process_line_def classify_def find_char_npos Let_def del: meaning.simps)
      next
        case no_header: False
        show ?thesis
        proof (cases "CHR ''='' \<in> set (strip line) \<and> sec \<noteq> []")
          case True
          then show ?thesis
            using False front ne no_comment no_header entry_code [OF front(3), of sec t]
            by (simp add: process_line_def classify_def find_char_npos Let_def del: meaning.simps)
        next
          case bad: False
          then show ?thesis
            using False front ne no_comment no_header
            by (auto simp: process_line_def classify_def find_char_npos Let_def)
        qed
      qed
    qed
  qed
qed

lemma extract_loop_read:
  "\<forall>l\<in>set ls. fits l \<Longrightarrow> extract_loop ls sec t = Some (read_lines ls sec t)"
  by (induction ls arbitrary: sec t) (auto simp: process_line_meaning split: option.splits)

section \<open>Writing a configuration\<close>

type_synonym config = "(string \<times> (string \<times> string) list) list"

definition header_line :: "string \<Rightarrow> string" where
  "header_line s = CHR ''['' # s @ [CHR '']'']"

definition entry_line :: "string \<times> string \<Rightarrow> string" where
  "entry_line = (\<lambda>(k, v). k @ [CHR '' '', CHR ''='', CHR '' '', CHR 0x22] @ v @ [CHR 0x22])"

definition config_lines :: "config \<Rightarrow> string list" where
  "config_lines cfg = concat (map (\<lambda>(s, kvs). header_line s # map entry_line kvs) cfg)"

definition config_text :: "config \<Rightarrow> string" where
  "config_text cfg = concat (map (\<lambda>l. l @ [CHR 0x0A]) (config_lines cfg))"

definition config_pairs :: "config \<Rightarrow> ((string \<times> string) \<times> string) list" where
  "config_pairs cfg = concat (map (\<lambda>(s, kvs). map (\<lambda>(k, v). ((s, k), v)) kvs) cfg)"

text \<open>
  What can be written so that it is read back: names without blanks at their ends, sections
  without a closing bracket, keys without =, [ and #, values without [ and #, none with a line
  break.
\<close>

definition section_ok :: "string \<Rightarrow> bool" where
  "section_ok s \<longleftrightarrow> s \<noteq> [] \<and> strip s = s \<and> CHR '']'' \<notin> set s \<and> CHR 0x0A \<notin> set s"

definition key_ok :: "string \<Rightarrow> bool" where
  "key_ok k \<longleftrightarrow> k \<noteq> [] \<and> strip k = k \<and> CHR ''='' \<notin> set k \<and> CHR ''['' \<notin> set k \<and> CHR ''#'' \<notin> set k \<and> CHR 0x0A \<notin> set k"

definition value_ok :: "string \<Rightarrow> bool" where
  "value_ok v \<longleftrightarrow> CHR ''['' \<notin> set v \<and> CHR ''#'' \<notin> set v \<and> CHR 0x0A \<notin> set v"

definition config_ok :: "config \<Rightarrow> bool" where
  "config_ok cfg \<longleftrightarrow> (\<forall>(s, kvs)\<in>set cfg. section_ok s \<and> (\<forall>(k, v)\<in>set kvs. key_ok k \<and> value_ok v)) \<and>
     (\<forall>l\<in>set (config_lines cfg). fits l)"

lemma strip_back_snoc: "strip_back (s @ [c]) = (if is_blank c then strip_back s else s @ [c])"
  by (simp add: strip_back_def)

lemma strip_front_Cons: "strip_front (c # s) = (if is_blank c then strip_front s else c # s)"
  by (simp add: strip_front_def)

lemma strip_hd: "strip k = k \<Longrightarrow> k \<noteq> [] \<Longrightarrow> \<not> is_blank (hd k)"
  unfolding strip_def strip_commute by (metis hd_dropWhile strip_front_def)

lemma strip_ends: "\<not> is_blank c \<Longrightarrow> \<not> is_blank d \<Longrightarrow> strip (c # s @ [d]) = c # s @ [d]"
  using strip_back_snoc [of "c # s" d] by (simp add: strip_def strip_front_Cons)

lemma blank_chars [simp]:
  "is_blank CHR '' ''" "\<not> is_blank CHR ''[''" "\<not> is_blank CHR '']''" "\<not> is_blank CHR 0x22" "\<not> is_blank CHR ''=''"
  by (simp_all add: is_blank_def blanks_def)

lemma before_append: "c \<notin> set s \<Longrightarrow> before c (s @ c # r) = s"
  by (induction s) (auto simp: before_def)

lemma after_append: "c \<notin> set s \<Longrightarrow> after c (s @ c # r) = r"
  by (induction s) (auto simp: after_def)

lemma classify_header: "section_ok s \<Longrightarrow> classify (header_line s) = Header s"
proof -
  assume s: "section_ok s"
  have "strip (header_line s) = header_line s" unfolding header_line_def by (rule strip_ends) simp_all
  moreover have "after CHR ''['' (header_line s) = s @ [CHR '']'']"
    using after_append [of "CHR ''[''" "[]"] by (simp add: header_line_def)
  moreover have "before CHR '']'' (s @ [CHR '']'']) = s"
    using s before_append [of "CHR '']''" s "[]"] by (simp add: section_ok_def)
  ultimately show ?thesis using s by (simp add: classify_def section_ok_def Let_def) (simp add: header_line_def)
qed

lemma plain_value_quoted:
  assumes "value_ok v"
  shows "plain_value (CHR '' '' # CHR 0x22 # v @ [CHR 0x22]) = v"
proof -
  let ?q = "CHR 0x22 # v @ [CHR 0x22]"
  have q: "strip ?q = ?q" by (rule strip_ends) simp_all
  have "strip (CHR '' '' # ?q) = ?q"
    using q by (simp add: strip_def strip_front_Cons)
  moreover have "before CHR ''#'' ?q = ?q" using assms by (intro before_all) (simp add: value_ok_def)
  moreover have "quoted ?q" by (simp add: quoted_def)
  ultimately show ?thesis using q by (simp add: plain_value_def Let_def)
qed

lemma classify_entry:
  assumes "key_ok k" and "value_ok v"
  shows "classify (entry_line (k, v)) = Entry k v"
proof -
  let ?tail = "CHR '' '' # CHR 0x22 # v @ [CHR 0x22]"
  have line: "entry_line (k, v) = (k @ [CHR '' '']) @ CHR ''='' # ?tail" by (simp add: entry_line_def)
  obtain c cs where k: "k = c # cs" using assms(1) by (cases k) (auto simp: key_ok_def)
  have c: "\<not> is_blank c" "c \<noteq> CHR ''#''"
    using strip_hd [of k] assms(1) by (auto simp: k key_ok_def)
  have "strip (entry_line (k, v)) = entry_line (k, v)"
    using strip_ends [OF c(1), of "CHR 0x22" "cs @ [CHR '' '', CHR ''='', CHR '' '', CHR 0x22] @ v"]
    by (simp add: entry_line_def k)
  moreover have "before CHR ''='' (entry_line (k, v)) = k @ [CHR '' '']"
    unfolding line using assms(1) by (intro before_append) (simp add: key_ok_def)
  moreover have "after CHR ''='' (entry_line (k, v)) = ?tail"
    unfolding line using assms(1) by (intro after_append) (simp add: key_ok_def)
  moreover have "strip (k @ [CHR '' '']) = k"
  proof -
    have "strip_front k = k" using c by (simp add: k strip_front_Cons)
    then have "strip_back k = k" using assms(1) by (simp add: key_ok_def strip_def)
    then show ?thesis using c strip_back_snoc [of k "CHR '' ''"] by (simp add: strip_def k strip_front_Cons)
  qed
  ultimately show ?thesis
    using assms c plain_value_quoted [OF assms(2)]
    by (simp add: classify_def Let_def) (simp add: entry_line_def k key_ok_def value_ok_def)
qed

lemma get_value_emplace:
  "get_value (emplace_key s k v t) s' k' =
     (case get_value t s' k' of Some x \<Rightarrow> Some x | None \<Rightarrow> if s' = s \<and> k' = k then Some v else None)"
  by (auto simp: get_value_def emplace_key_def Let_def split: option.splits)

lemma read_entries:
  assumes "\<forall>(k, v)\<in>set kvs. key_ok k \<and> value_ok v" and "sec \<noteq> []"
  shows "\<exists>t'. read_lines (map entry_line kvs @ ls) sec t = read_lines ls sec t' \<and>
    (\<forall>s k. get_value t' s k = (case get_value t s k of Some x \<Rightarrow> Some x
       | None \<Rightarrow> map_of (map (\<lambda>(k, v). ((sec, k), v)) kvs) (s, k)))"
  using assms(1)
proof (induction kvs arbitrary: t)
  case Nil
  then show ?case by (auto split: option.splits)
next
  case (Cons e kvs)
  obtain k v where e: "e = (k, v)" by force
  have "classify (entry_line (k, v)) = Entry k v"
    using Cons.prems e by (intro classify_entry) auto
  moreover obtain t' where "read_lines (map entry_line kvs @ ls) sec (emplace_key sec k v t) = read_lines ls sec t'"
    "\<forall>s k'. get_value t' s k' = (case get_value (emplace_key sec k v t) s k' of Some x \<Rightarrow> Some x
       | None \<Rightarrow> map_of (map (\<lambda>(k, v). ((sec, k), v)) kvs) (s, k'))"
    using Cons.IH [of "emplace_key sec k v t"] Cons.prems by auto
  ultimately show ?case
    using assms(2) by (intro exI [of _ t']) (auto simp: e get_value_emplace split: option.splits)
qed

lemma read_config:
  assumes "\<forall>(s, kvs)\<in>set cfg. section_ok s \<and> (\<forall>(k, v)\<in>set kvs. key_ok k \<and> value_ok v)"
  shows "\<exists>t'. read_lines (config_lines cfg) sec t = (Inr True, t') \<and>
    (\<forall>s k. get_value t' s k = (case get_value t s k of Some x \<Rightarrow> Some x | None \<Rightarrow> map_of (config_pairs cfg) (s, k)))"
  using assms
proof (induction cfg arbitrary: sec t)
  case Nil
  then show ?case by (auto simp: config_lines_def config_pairs_def split: option.splits)
next
  case (Cons e cfg)
  obtain s kvs where e: "e = (s, kvs)" by force
  have s: "section_ok s" "s \<noteq> []" "\<forall>(k, v)\<in>set kvs. key_ok k \<and> value_ok v"
    using Cons.prems e by (auto simp: section_ok_def)
  let ?t = "t\<lparr>m_sections := m_sections t @ [s]\<rparr>"
  obtain t1 where t1: "read_lines (map entry_line kvs @ config_lines cfg) s ?t = read_lines (config_lines cfg) s t1"
    "\<forall>s' k. get_value t1 s' k = (case get_value ?t s' k of Some x \<Rightarrow> Some x
       | None \<Rightarrow> map_of (map (\<lambda>(k, v). ((s, k), v)) kvs) (s', k))"
    using read_entries [OF s(3,2)] by blast
  obtain t2 where t2: "read_lines (config_lines cfg) s t1 = (Inr True, t2)"
    "\<forall>s' k. get_value t2 s' k = (case get_value t1 s' k of Some x \<Rightarrow> Some x | None \<Rightarrow> map_of (config_pairs cfg) (s', k))"
    using Cons.IH [of s t1] Cons.prems by auto
  have same: "get_value ?t = get_value t" by (simp add: get_value_def fun_eq_iff)
  have "read_lines (config_lines (e # cfg)) sec t = (Inr True, t2)"
    using t1(1) t2(1) by (simp add: e config_lines_def classify_header [OF s(1)])
  moreover have "get_value t2 s' k = (case get_value t s' k of Some x \<Rightarrow> Some x | None \<Rightarrow> map_of (config_pairs (e # cfg)) (s', k))" for s' k
    using t1(2) t2(2) by (simp add: e same config_pairs_def map_add_def split: option.splits)
  ultimately show ?case by blast
qed

lemma config_no_break:
  assumes "config_ok cfg"
  shows "\<forall>l\<in>set (config_lines cfg). CHR 0x0A \<notin> set l"
  using assms
  by (fastforce simp: config_ok_def config_lines_def header_line_def entry_line_def section_ok_def key_ok_def value_ok_def)

lemma load_config:
  assumes "config_ok cfg" and "fs path = Some (config_text cfg)"
  shows "\<exists>t. load fs (TomlParser_path path) = Some (Inr True, t) \<and>
    (\<forall>s k. get_value t s k = map_of (config_pairs cfg) (s, k))"
proof -
  let ?t0 = "TomlParser_path path"
  have lines: "getlines (config_text cfg) = config_lines cfg"
    unfolding config_text_def by (rule getlines_written [OF config_no_break [OF assms(1)]])
  have "\<forall>(s, kvs)\<in>set cfg. section_ok s \<and> (\<forall>(k, v)\<in>set kvs. key_ok k \<and> value_ok v)"
    using assms(1) by (simp add: config_ok_def)
  from read_config [OF this, of "[]" ?t0] obtain t where
    t: "read_lines (config_lines cfg) [] ?t0 = (Inr True, t)"
      "\<forall>s k. get_value t s k = (case get_value ?t0 s k of Some x \<Rightarrow> Some x | None \<Rightarrow> map_of (config_pairs cfg) (s, k))"
    by blast
  have "extract_keys (config_text cfg) ?t0 = Some (read_lines (config_lines cfg) [] ?t0)"
    using assms(1) by (simp add: extract_keys_def lines extract_loop_read config_ok_def)
  then have "load fs ?t0 = Some (Inr True, t)"
    using assms(2) t(1) by (simp add: load_def TomlParser_path_def)
  moreover have "get_value ?t0 s k = None" for s k by (simp add: get_value_def TomlParser_path_def)
  ultimately show ?thesis using t(2) by simp
qed

section \<open>Properties\<close>

text \<open>
  C26: the parser computes the meaning of the file line by line. Its searches, cuts and its
  arithmetic on npos never throw, each line is blank, a comment, a header or an entry as the
  reference classification says, and parsing stops with PARSE_ERROR exactly at the first line
  that is none of these or is an entry before any section.
\<close>

theorem extract_keys_meaning:
  assumes "\<forall>l\<in>set (getlines file). fits l"
  shows "extract_keys file t = Some (read_lines (getlines file) [] t)"
  using assms by (simp add: extract_keys_def extract_loop_read)

theorem extract_keys_meaning_witness:
  "extract_keys ''[a]'' TomlParser_default = Some (read_lines (getlines ''[a]'') [] TomlParser_default)"
  by (rule extract_keys_meaning) (simp add: getlines.simps fits_def)

text \<open>
  C27: a configuration that is written out, sections in brackets and values in double quotes, is
  read back: load succeeds, and get_value finds for every section and key the first value
  written for them, and nothing else.
\<close>

theorem load_written_config:
  assumes "config_ok cfg" and "fs path = Some (config_text cfg)"
  shows "\<exists>t. load fs (TomlParser_path path) = Some (Inr True, t) \<and>
    (\<forall>s k. get_value t s k = map_of (config_pairs cfg) (s, k))"
  using load_config [where fs = fs and path = path] assms by blast

definition demo_config :: config where
  "demo_config = [(''network'', [(''ip'', ''10.0.0.1''), (''port'', ''8080''), (''ip'', ''other'')])]"

lemma demo_config_ok: "config_ok demo_config"
  by (simp add: config_ok_def demo_config_def section_ok_def key_ok_def value_ok_def config_lines_def
      header_line_def entry_line_def fits_def strip_def strip_front_def strip_back_def is_blank_def blanks_def)

theorem load_written_config_witness:
  "\<exists>t. load (\<lambda>_. Some (config_text demo_config)) (TomlParser_path ''c'') = Some (Inr True, t) \<and>
    get_value t ''network'' ''ip'' = Some ''10.0.0.1'' \<and> get_value t ''network'' ''mask'' = None"
  using load_written_config [OF demo_config_ok, of "\<lambda>_. Some (config_text demo_config)" "''c''"]
  by (auto simp: config_pairs_def demo_config_def)

text \<open>
  two lines of ordinary TOML the parser misreads. A bracket anywhere in a line makes it a
  section header, so an array value disappears and opens a section named by its contents; and a
  # inside quotation marks starts a comment, so the value keeps an opening quotation mark and
  loses its rest.
\<close>

theorem misread_lines:
  "process_line ''ports = [80, 81]'' (''net'', t) = Some (Some (''80, 81'', t\<lparr>m_sections := m_sections t @ [''80, 81'']\<rparr>)) \<and>
   process_line [CHR ''k'', CHR ''='', CHR 0x22, CHR ''a'', CHR ''#'', CHR ''b'', CHR 0x22] (''net'', t) =
     Some (Some (''net'', emplace_key ''net'' ''k'' [CHR 0x22, CHR ''a''] t))"
proof -
  let ?l = "[CHR ''k'', CHR ''='', CHR 0x22, CHR ''a'', CHR ''#'', CHR ''b'', CHR 0x22]"
  have "classify ''ports = [80, 81]'' = Header ''80, 81''" by code_simp
  moreover have "classify ?l = Entry ''k'' [CHR 0x22, CHR ''a'']" by code_simp
  moreover have "fits ''ports = [80, 81]''" "fits ?l" by (simp_all add: fits_def)
  ultimately show ?thesis by (simp only: process_line_meaning meaning.simps list.distinct simp_thms if_False)
qed

text \<open>
  get_string splits its key at the first dot, and takes quotation marks off a second time:
  for a section without a dot it gives the value get_value finds, once more unquoted, or the
  empty string; get_int reads the number at its start, or gives 0.
\<close>

theorem get_string_lookup:
  assumes "fits (s @ CHR ''.'' # k)" and "CHR ''.'' \<notin> set s" and "\<forall>v. get_value t s k = Some v \<longrightarrow> fits v"
  shows "get_string t (s @ CHR ''.'' # k) =
      Some (case get_value t s k of None \<Rightarrow> [] | Some v \<Rightarrow> if quoted v then butlast (tl v) else v) \<and>
    get_int t (s @ CHR ''.'' # k) =
      Some (case stoi (case get_value t s k of None \<Rightarrow> [] | Some v \<Rightarrow> if quoted v then butlast (tl v) else v) of
              Inl _ \<Rightarrow> 0 | Inr n \<Rightarrow> n)"
proof -
  let ?key = "s @ CHR ''.'' # k"
  have "CHR ''.'' \<in> set ?key" by simp
  then have found: "find_char CHR ''.'' ?key \<noteq> npos" using find_char_npos [OF assms(1)] by blast
  have sec: "substr 0 (find_char CHR ''.'' ?key) ?key = Some s"
    using substr_before [OF assms(1)] before_append [OF assms(2)] by simp
  have key: "substr (size_succ (find_char CHR ''.'' ?key)) npos ?key = Some k"
    using substr_after [OF assms(1)] after_append [OF assms(2)] by simp
  have str: "get_string t ?key = Some (case get_value t s k of None \<Rightarrow> [] | Some v \<Rightarrow> if quoted v then butlast (tl v) else v)"
    using found sec key assms(3)
    by (auto simp: get_string_def Let_def get_value_def unquote_butlast split: option.splits)
  have "stoi [] = Inl Invalid_argument" by (simp add: stoi_def)
  then show ?thesis using str by (simp add: get_int_def)
qed

definition demo_toml :: toml where
  "demo_toml = emplace_key ''network'' ''port'' [CHR 0x27, CHR ''8'', CHR ''0'', CHR 0x27] TomlParser_default"

theorem get_string_lookup_witness:
  "get_string demo_toml ''network.port'' = Some ''80'' \<and> get_int demo_toml ''network.port'' = Some 80"
proof -
  have v: "get_value demo_toml ''network'' ''port'' = Some [CHR 0x27, CHR ''8'', CHR ''0'', CHR 0x27]"
    by (simp add: demo_toml_def get_value_emplace) (simp add: get_value_def TomlParser_default_def)
  have "stoi ''80'' = Inr 80" by code_simp
  then show ?thesis
    using get_string_lookup [of "''network''" "''port''" demo_toml]
    by (simp add: v fits_def quoted_def)
qed

end
