(* ===== verification/Config.thy ===== *)
theory Config
  imports TomlParser
begin

text \<open>
  The configuration object of include/quick/io/Config.hh on top of the parser: loading, and the
  two values of the section network.
\<close>

record config_state =
  m_config_path :: string
  m_parser :: toml

definition Config_default :: config_state where
  [run_simps]: "Config_default = \<lparr>m_config_path = [], m_parser = TomlParser_default\<rparr>"

definition Config_path :: "string \<Rightarrow> config_state" where
  [run_simps]: "Config_path path = \<lparr>m_config_path = path, m_parser = TomlParser_path path\<rparr>"

text \<open>load().transform(...).or_else(...).value_or(false); the two functions only log.\<close>

definition parse_config :: "(string \<Rightarrow> string option) \<Rightarrow> config_state \<Rightarrow> (bool \<times> config_state) option" where
  [run_simps]: "parse_config fs c = do {
     (result, parser) \<leftarrow> load fs (m_parser c);
     Some (case result of Inl _ \<Rightarrow> False | Inr success \<Rightarrow> success, c\<lparr>m_parser := parser\<rparr>) }"

definition get_market_ip :: "config_state \<Rightarrow> string" where
  [run_simps]: "get_market_ip c = (case get_value (m_parser c) ''network'' ''ip'' of None \<Rightarrow> [] | Some ip \<Rightarrow> ip)"

definition get_market_port :: "config_state \<Rightarrow> 16 word" where
  [run_simps]: "get_market_port c =
     (case get_value (m_parser c) ''network'' ''port'' of
        None \<Rightarrow> 0
      | Some s \<Rightarrow>
          (case stoi s of
             Inl _ \<Rightarrow> 0
           | Inr val \<Rightarrow> if val < 0 then 0 else word_of_int val))"

section \<open>Properties\<close>

text \<open>
  Parse_config always returns, and says true exactly when the file can be opened and the
  meaning of its lines has no error.
\<close>

lemma parse_config_result:
  assumes "fs (m_filepath (m_parser c)) = Some file" and "\<forall>l\<in>set (getlines file). fits l"
  shows "parse_config fs c =
    (case read_lines (getlines file) [] (m_parser c) of
       (r, t) \<Rightarrow> Some (r = Inr True, c\<lparr>m_parser := t\<rparr>))"
proof -
  have "fst (read_lines ls sec t) \<noteq> Inr False" for ls sec t
    by (induction ls arbitrary: sec t) (auto split: option.splits)
  then have "r \<noteq> Inr False" if "read_lines (getlines file) [] (m_parser c) = (r, t)" for r t
    using that by (metis fst_conv)
  then show ?thesis
    using assms
    by (auto simp: parse_config_def load_def extract_keys_def extract_loop_read split: prod.splits sum.splits)
qed

lemma parse_config_result_witness:
  "map_option fst (parse_config (\<lambda>_. Some ''ip = 1'') Config_default) = Some False"
proof -
  have "read_lines (getlines ''ip = 1'') [] TomlParser_default = (Inl PARSE_ERROR, TomlParser_default)"
  proof -
    have "classify ''ip = 1'' = Entry ''ip'' ''1''" by code_simp
    then show ?thesis by (simp add: getlines.simps)
  qed
  then show ?thesis
    using parse_config_result [of "\<lambda>_. Some ''ip = 1''" Config_default "''ip = 1''"]
    by (simp add: Config_default_def getlines.simps fits_def)
qed

text \<open>
  A configuration written with the section network and read through this object gives its
  address back, and its port when that is a decimal number below 65536.
\<close>

theorem market_roundtrip:
  assumes "config_ok cfg" and "fs path = Some (config_text cfg)"
    and "map_of (config_pairs cfg) (''network'', ''ip'') = Some ip"
    and "map_of (config_pairs cfg) (''network'', ''port'') = Some port"
    and "stoi port = Inr p" and "0 \<le> p" and "p < 65536"
  shows "\<exists>c. parse_config fs (Config_path path) = Some (True, c) \<and> get_market_ip c = ip \<and>
    uint (get_market_port c) = p"
proof -
  obtain t where t: "load fs (TomlParser_path path) = Some (Inr True, t)"
    "\<forall>s k. get_value t s k = map_of (config_pairs cfg) (s, k)"
    using load_config [where fs = fs and path = path] assms(1,2) by blast
  have "uint (word_of_int p :: 16 word) = p" using assms(6,7) by (simp add: uint_word_of_int)
  then show ?thesis
    using t assms(3-6) by (simp add: parse_config_def Config_path_def get_market_ip_def get_market_port_def)
qed

text \<open>A section with the two values.\<close>

definition net_config :: config where
  "net_config = [(''network'', [(''ip'', ''::1''), (''port'', ''443'')])]"

lemma net_config_ok: "config_ok net_config"
  by (simp add: config_ok_def net_config_def section_ok_def key_ok_def value_ok_def config_lines_def
      header_line_def entry_line_def fits_def strip_def strip_front_def strip_back_def is_blank_def blanks_def)

theorem market_roundtrip_witness:
  "\<exists>c. parse_config (\<lambda>_. Some (config_text net_config)) (Config_path ''c'') = Some (True, c) \<and>
    get_market_ip c = ''::1'' \<and> uint (get_market_port c) = 443"
proof -
  have "stoi ''443'' = Inr 443" by code_simp
  then show ?thesis
    by (intro market_roundtrip [OF net_config_ok, of _ _ _ "''443''"]) (simp_all add: config_pairs_def net_config_def)
qed

text \<open>
  The port is what std::stoi reads, modulo 2^16: a value above 65535 is neither rejected nor
  reported, but becomes another port. A missing, negative or unreadable value gives 0.
\<close>

theorem market_port_wraps:
  "uint (get_market_port c) =
     (case get_value (m_parser c) ''network'' ''port'' of
        None \<Rightarrow> 0
      | Some s \<Rightarrow> (case stoi s of Inl _ \<Rightarrow> 0 | Inr val \<Rightarrow> if val < 0 then 0 else val mod 65536)) \<and>
   stoi ''70000'' = Inr 70000 \<and> (70000 :: int) mod 65536 = 4464"
proof -
  have "stoi ''70000'' = Inr 70000" by code_simp
  then show ?thesis
    by (auto simp: get_market_port_def uint_word_of_int split: option.splits sum.splits)
qed

end
