(* ===== verification/ThreadSafeQueue.thy ===== *)
theory ThreadSafeQueue
  imports Machine
begin

text \<open>
  The locking queue of include/quick/structs/ThreadSafeQueue.hh and its threads. A step is one
  action on the mutex, the queue or the condition variable; waiting releases the mutex and parks
  in one action, as std::condition_variable::wait does, and may end without a notification.
  empty() reads the queue without the mutex: the model records that as a race when another
  thread is inside its critical section.
\<close>

section \<open>Threads\<close>

datatype 'a tsq_pc =
    Idle | PushLock 'a | PushCrit 'a | Notify | PopLock | PopCrit | Parked | Woken

record 'a tsq =
  queue :: "'a list"
  mutex :: "nat option"
  pcs :: "'a tsq_pc list"
  pushed :: "'a list"
  popped :: "'a list"
  raced :: bool

definition tsq_init :: "nat \<Rightarrow> 'a tsq" where
  [run_simps]: "tsq_init n = \<lparr>queue = [], mutex = None, pcs = replicate n Idle, pushed = [], popped = [], raced = False\<rparr>"

datatype 'a tsq_label =
    CallPush nat 'a | LockPush nat | DoPush nat | NotifyOne nat "nat option"
  | CallPop nat | LockPop nat | TestPop nat | Spurious nat | ReadEmpty nat

definition pc_at :: "nat \<Rightarrow> 'a tsq \<Rightarrow> 'a tsq_pc option" where
  [run_simps]: "pc_at i s = (if i < length (pcs s) then Some (pcs s ! i) else None)"

definition goto :: "nat \<Rightarrow> 'a tsq_pc \<Rightarrow> 'a tsq \<Rightarrow> 'a tsq" where
  [run_simps]: "goto i p s = s\<lparr>pcs := (pcs s)[i := p]\<rparr>"

text \<open>push: the critical section and then notify_one, which wakes a parked thread if there is one.\<close>

fun push_step :: "'a tsq_label \<Rightarrow> 'a tsq \<Rightarrow> 'a tsq option" where
  "push_step (CallPush i x) s = (if pc_at i s = Some Idle then Some (goto i (PushLock x) s) else None)"
| "push_step (LockPush i) s =
     (case pc_at i s of
        Some (PushLock x) \<Rightarrow> if mutex s = None then Some (goto i (PushCrit x) s\<lparr>mutex := Some i\<rparr>) else None
      | _ \<Rightarrow> None)"
| "push_step (DoPush i) s =
     (case pc_at i s of
        Some (PushCrit x) \<Rightarrow>
          Some (goto i Notify s\<lparr>queue := queue s @ [x], pushed := pushed s @ [x], mutex := None\<rparr>)
      | _ \<Rightarrow> None)"
| "push_step (NotifyOne i None) s =
     (if pc_at i s = Some Notify \<and> Parked \<notin> set (pcs s) then Some (goto i Idle s) else None)"
| "push_step (NotifyOne i (Some j)) s =
     (if pc_at i s = Some Notify \<and> pc_at j s = Some Parked then Some (goto j Woken (goto i Idle s)) else None)"
| "push_step _ s = None"

text \<open>wait_and_pop: the predicate is tested with the mutex held, after each wake-up again.\<close>

fun pop_step :: "'a tsq_label \<Rightarrow> 'a tsq \<Rightarrow> 'a tsq option" where
  "pop_step (CallPop i) s = (if pc_at i s = Some Idle then Some (goto i PopLock s) else None)"
| "pop_step (LockPop i) s =
     (if (pc_at i s = Some PopLock \<or> pc_at i s = Some Woken) \<and> mutex s = None
      then Some (goto i PopCrit s\<lparr>mutex := Some i\<rparr>) else None)"
| "pop_step (TestPop i) s =
     (if pc_at i s = Some PopCrit
      then (case queue s of
              [] \<Rightarrow> Some (goto i Parked s\<lparr>mutex := None\<rparr>)
            | x # xs \<Rightarrow> Some (goto i Idle s\<lparr>queue := xs, popped := popped s @ [x], mutex := None\<rparr>))
      else None)"
| "pop_step (Spurious i) s = (if pc_at i s = Some Parked then Some (goto i Woken s) else None)"
| "pop_step _ s = None"

fun empty_step :: "'a tsq_label \<Rightarrow> 'a tsq \<Rightarrow> 'a tsq option" where
  "empty_step (ReadEmpty i) s =
     (if pc_at i s = Some Idle then Some (s\<lparr>raced := (raced s \<or> mutex s \<noteq> None)\<rparr>) else None)"
| "empty_step _ s = None"

definition tsq_step :: "'a tsq_label \<Rightarrow> 'a tsq \<Rightarrow> 'a tsq option" where
  [run_simps]: "tsq_step l s =
     (case push_step l s of Some s' \<Rightarrow> Some s'
      | None \<Rightarrow> (case pop_step l s of Some s' \<Rightarrow> Some s' | None \<Rightarrow> empty_step l s))"

lemma tsq_step_cases:
  "tsq_step l s = Some s' \<Longrightarrow> push_step l s = Some s' \<or> pop_step l s = Some s' \<or> empty_step l s = Some s'"
  by (auto simp: tsq_step_def split: option.splits)

abbreviation tsq_reach :: "nat \<Rightarrow> 'a tsq \<Rightarrow> bool" where
  "tsq_reach n \<equiv> reachable (tsq_init n) tsq_step"

abbreviation tsq_exec :: "'a tsq_label list \<Rightarrow> 'a tsq \<Rightarrow> 'a tsq option" where
  "tsq_exec \<equiv> run_steps tsq_step"

section \<open>The invariant\<close>

text \<open>Threads that hold the mutex, and threads that will look at the queue or wake one that does.\<close>

fun critical :: "'a tsq_pc \<Rightarrow> bool" where
  "critical (PushCrit x) = True"
| "critical PopCrit = True"
| "critical _ = False"

fun attentive :: "'a tsq_pc \<Rightarrow> bool" where
  "attentive Notify = True"
| "attentive PopLock = True"
| "attentive PopCrit = True"
| "attentive Woken = True"
| "attentive _ = False"

definition tally :: "('b \<Rightarrow> bool) \<Rightarrow> 'b list \<Rightarrow> nat" where
  "tally P = total (\<lambda>x. if P x then 1 else 0)"

definition tsq_inv :: "'a tsq \<Rightarrow> bool" where
  "tsq_inv s \<longleftrightarrow> pushed s = popped s @ queue s \<and>
     (\<forall>i<length (pcs s). critical (pcs s ! i) \<longleftrightarrow> mutex s = Some i) \<and>
     (\<forall>i. mutex s = Some i \<longrightarrow> i < length (pcs s)) \<and>
     (Parked \<in> set (pcs s) \<longrightarrow> length (queue s) \<le> tally attentive (pcs s))"

lemma tally_upd:
  "i < length xs \<Longrightarrow> tally P (xs[i := x]) + (if P (xs ! i) then 1 else 0) = tally P xs + (if P x then 1 else 0)"
  unfolding tally_def by (rule total_upd)

lemma tally_positive: "0 < tally P xs \<Longrightarrow> \<exists>i<length xs. P (xs ! i)"
  using total_positive [of "\<lambda>x. if P x then 1 else 0" xs] by (auto simp: tally_def split: if_splits)

lemma parked_upd: "Parked \<in> set (xs[i := x]) \<Longrightarrow> x \<noteq> Parked \<Longrightarrow> Parked \<in> set xs"
  using set_update_subset_insert [of xs i x] by auto

lemma pc_atD: "pc_at i s = Some p \<Longrightarrow> i < length (pcs s) \<and> pcs s ! i = p"
  by (auto simp: pc_at_def split: if_splits)

text \<open>A thread that moves without touching mutex or queue.\<close>

lemma inv_goto:
  assumes "tsq_inv s" and "pc_at i s = Some p" and "critical q \<longleftrightarrow> critical p" and "q \<noteq> Parked"
    and "attentive p \<Longrightarrow> attentive q"
  shows "tsq_inv (goto i q s)"
proof -
  have i: "i < length (pcs s)" "pcs s ! i = p" using pc_atD [OF assms(2)] by simp_all
  have "tally attentive (pcs s) \<le> tally attentive ((pcs s)[i := q])"
    using tally_upd [OF i(1), of attentive q] assms(5) i(2) by (auto split: if_splits)
  then show ?thesis
    using assms(1,3,4) i
    by (auto simp: tsq_inv_def goto_def nth_list_update dest!: parked_upd)
qed

lemma inv_lock:
  assumes "tsq_inv s" and "pc_at i s = Some p" and "mutex s = None" and "critical q"
    and "attentive p \<Longrightarrow> attentive q" and "q \<noteq> Parked"
  shows "tsq_inv (goto i q s\<lparr>mutex := Some i\<rparr>)"
proof -
  have i: "i < length (pcs s)" "pcs s ! i = p" using pc_atD [OF assms(2)] by simp_all
  have "tally attentive (pcs s) \<le> tally attentive ((pcs s)[i := q])"
    using tally_upd [OF i(1), of attentive q] assms(5) i(2) by (auto split: if_splits)
  then show ?thesis
    using assms(1,3,4,6) i
    by (auto simp: tsq_inv_def goto_def nth_list_update dest!: parked_upd)
qed

text \<open>
  A thread that leaves its critical section with a new queue: parked only when the queue is
  empty, and no element more than attention.
\<close>

lemma inv_unlock:
  assumes "tsq_inv s" and "pc_at i s = Some p" and "critical p" and "\<not> critical q"
    and "pushed s' = popped s' @ queue s'" and "pcs s' = (pcs s)[i := q]" and "mutex s' = None"
    and "q = Parked \<Longrightarrow> queue s' = []"
    and "q \<noteq> Parked \<Longrightarrow> length (queue s') + (if attentive p then 1 else 0) \<le> length (queue s) + (if attentive q then 1 else 0)"
  shows "tsq_inv s'"
proof -
  have i: "i < length (pcs s)" "pcs s ! i = p" using pc_atD [OF assms(2)] by simp_all
  have own: "mutex s = Some i" using assms(1,3) i by (auto simp: tsq_inv_def)
  have "length (queue s') \<le> tally attentive ((pcs s)[i := q])" if "Parked \<in> set ((pcs s)[i := q])"
  proof (cases "q = Parked")
    case True
    then show ?thesis using assms(8) by simp
  next
    case False
    then have "length (queue s) \<le> tally attentive (pcs s)"
      using assms(1) parked_upd [OF that] by (simp add: tsq_inv_def)
    then show ?thesis using tally_upd [OF i(1), of attentive q] assms(9) [OF False] i(2) by (auto split: if_splits)
  qed
  then show ?thesis
    using assms(1,4,5,6,7) own by (auto simp: tsq_inv_def nth_list_update)
qed

lemma inv_notify:
  assumes "tsq_inv s" and "pc_at i s = Some Notify" and "pc_at j s = Some Parked"
  shows "tsq_inv (goto j Woken (goto i Idle s))"
proof -
  have i: "i < length (pcs s)" "pcs s ! i = Notify" and j: "j < length (pcs s)" "pcs s ! j = Parked"
    using pc_atD [OF assms(2)] pc_atD [OF assms(3)] by simp_all
  then have ij: "i \<noteq> j" by auto
  let ?a = "(pcs s)[i := Idle]"
  have "tally attentive ?a + 1 = tally attentive (pcs s)"
    using tally_upd [OF i(1), of attentive Idle] i(2) by simp
  moreover have "tally attentive (?a[j := Woken]) = tally attentive ?a + 1"
    using tally_upd [of j ?a attentive Woken] i j ij by simp
  ultimately have "tally attentive (?a[j := Woken]) = tally attentive (pcs s)" by simp
  moreover have "Parked \<in> set (pcs s)" using j by (metis nth_mem)
  ultimately show ?thesis
    using assms(1) i j by (auto simp: tsq_inv_def goto_def nth_list_update)
qed

lemma inv_notify_none:
  assumes "tsq_inv s" and "pc_at i s = Some Notify" and "Parked \<notin> set (pcs s)"
  shows "tsq_inv (goto i Idle s)"
proof -
  have i: "i < length (pcs s)" "pcs s ! i = Notify" using pc_atD [OF assms(2)] by simp_all
  have "Parked \<notin> set ((pcs s)[i := Idle])" using assms(3) parked_upd by fastforce
  then show ?thesis
    using assms(1) i by (auto simp: tsq_inv_def goto_def nth_list_update)
qed

lemma tsq_push_step_inv:
  assumes "tsq_inv s" and "push_step l s = Some s'"
  shows "tsq_inv s'"
proof (cases l)
  case (CallPush i x)
  then show ?thesis using assms by (auto intro: inv_goto split: if_splits)
next
  case (LockPush i)
  then obtain x where "pc_at i s = Some (PushLock x)" "mutex s = None" "s' = goto i (PushCrit x) s\<lparr>mutex := Some i\<rparr>"
    using assms(2) by (auto split: option.splits tsq_pc.splits if_splits)
  then show ?thesis using inv_lock [OF assms(1), of i "PushLock x" "PushCrit x"] by simp
next
  case (DoPush i)
  then obtain x where x: "pc_at i s = Some (PushCrit x)"
    "s' = goto i Notify s\<lparr>queue := queue s @ [x], pushed := pushed s @ [x], mutex := None\<rparr>"
    using assms(2) by (auto split: option.splits tsq_pc.splits)
  show ?thesis
    by (rule inv_unlock [OF assms(1) x(1), of Notify]) (use assms(1) in \<open>simp_all add: x(2) goto_def tsq_inv_def\<close>)
next
  case (NotifyOne i w)
  then show ?thesis
    using assms by (cases w) (auto intro: inv_notify inv_notify_none split: if_splits)
qed (use assms(2) in simp_all)

lemma tsq_pop_step_inv:
  assumes "tsq_inv s" and "pop_step l s = Some s'"
  shows "tsq_inv s'"
proof (cases l)
  case (CallPop i)
  then show ?thesis using assms by (auto intro: inv_goto split: if_splits)
next
  case (LockPop i)
  then have "pc_at i s = Some PopLock \<or> pc_at i s = Some Woken" "mutex s = None"
    "s' = goto i PopCrit s\<lparr>mutex := Some i\<rparr>"
    using assms(2) by (auto split: if_splits)
  then show ?thesis using inv_lock [OF assms(1)] by auto
next
  case (TestPop i)
  then have pc: "pc_at i s = Some PopCrit" using assms(2) by (auto split: if_splits)
  show ?thesis
  proof (cases "queue s")
    case Nil
    then have "s' = goto i Parked s\<lparr>mutex := None\<rparr>" using TestPop assms(2) pc by simp
    then show ?thesis
      by (intro inv_unlock [OF assms(1) pc, of Parked]) (use assms(1) Nil in \<open>simp_all add: goto_def tsq_inv_def\<close>)
  next
    case (Cons x xs)
    then have "s' = goto i Idle s\<lparr>queue := xs, popped := popped s @ [x], mutex := None\<rparr>"
      using TestPop assms(2) pc by simp
    then show ?thesis
      by (intro inv_unlock [OF assms(1) pc, of Idle]) (use assms(1) Cons in \<open>simp_all add: goto_def tsq_inv_def\<close>)
  qed
next
  case (Spurious i)
  then show ?thesis using assms by (auto intro: inv_goto split: if_splits)
qed (use assms(2) in simp_all)

lemma empty_step_inv: "tsq_inv s \<Longrightarrow> empty_step l s = Some s' \<Longrightarrow> tsq_inv s'"
  by (cases l) (auto simp: tsq_inv_def split: if_splits)

lemma tsq_init_inv: "tsq_inv (tsq_init n)"
  by (auto simp: tsq_inv_def tsq_init_def)

interpretation shared_queue: machine "tsq_init n" tsq_step tsq_inv for n
proof
  show "tsq_inv s'" if "tsq_inv s" "tsq_step l s = Some s'" for l s s'
    using tsq_step_cases [OF that(2)] that(1) tsq_push_step_inv tsq_pop_step_inv empty_step_inv by blast
qed (rule tsq_init_inv)

section \<open>Coming to rest\<close>

text \<open>
  The steps of the threads that are inside push or wait_and_pop, without new calls and without
  spurious wake-ups, and the number of them that a thread can still take. A notification costs its
  thread one step and gives the one it wakes two.
\<close>

fun prompt :: "'a tsq_label \<Rightarrow> bool" where
  "prompt (CallPush i x) = False"
| "prompt (CallPop i) = False"
| "prompt (Spurious i) = False"
| "prompt (ReadEmpty i) = False"
| "prompt _ = True"

fun pc_work :: "'a tsq_pc \<Rightarrow> nat" where
  "pc_work (PushLock x) = 5"
| "pc_work (PushCrit x) = 4"
| "pc_work Notify = 3"
| "pc_work PopLock = 2"
| "pc_work Woken = 2"
| "pc_work PopCrit = 1"
| "pc_work _ = 0"

definition tsq_work :: "'a tsq \<Rightarrow> nat" where
  "tsq_work s = total pc_work (pcs s)"

lemma tsq_work_goto:
  "pc_at i s = Some p \<Longrightarrow> pcs s' = (pcs s)[i := q] \<Longrightarrow> pc_work q < pc_work p \<Longrightarrow> tsq_work s' < tsq_work s"
  using total_upd [of i "pcs s" pc_work q] pc_atD [of i s p] by (simp add: tsq_work_def)

lemma tsq_work_notify:
  assumes "pc_at i s = Some Notify" and "pc_at j s = Some Parked"
  shows "tsq_work (goto j Woken (goto i Idle s)) < tsq_work s"
proof -
  have i: "i < length (pcs s)" "pcs s ! i = Notify" and j: "j < length (pcs s)" "pcs s ! j = Parked"
    using pc_atD [OF assms(1)] pc_atD [OF assms(2)] by simp_all
  then have "i \<noteq> j" by auto
  then show ?thesis
    using total_upd [OF i(1), of pc_work Idle] total_upd [of j "(pcs s)[i := Idle]" pc_work Woken] i j
    by (simp add: tsq_work_def goto_def)
qed

lemma push_step_work: "push_step l s = Some s' \<Longrightarrow> prompt l \<Longrightarrow> tsq_work s' < tsq_work s"
proof (induction l s rule: push_step.induct)
  case (2 i s)
  then show ?case by (auto simp: goto_def split: option.splits tsq_pc.splits if_splits intro: tsq_work_goto [of i])
next
  case (3 i s)
  then show ?case by (auto simp: goto_def split: option.splits tsq_pc.splits intro: tsq_work_goto [of i])
next
  case (4 i s)
  then show ?case by (auto simp: goto_def split: if_splits intro: tsq_work_goto [of i])
next
  case (5 i j s)
  then show ?case by (auto split: if_splits intro: tsq_work_notify)
qed simp_all

lemma pop_step_work: "pop_step l s = Some s' \<Longrightarrow> prompt l \<Longrightarrow> tsq_work s' < tsq_work s"
proof (induction l s rule: pop_step.induct)
  case (2 i s)
  then show ?case by (auto simp: goto_def split: if_splits intro: tsq_work_goto [of i])
next
  case (3 i s)
  then show ?case by (auto simp: goto_def split: if_splits list.splits intro: tsq_work_goto [of i])
qed simp_all

interpretation settling: terminating_machine "tsq_init n" tsq_step tsq_inv prompt tsq_work for n
proof
  show "tsq_work s' < tsq_work s" if "tsq_inv s" "prompt l" "tsq_step l s = Some s'" for l s s'
  proof -
    have "empty_step l s = None" using that(2) by (cases l) simp_all
    then show ?thesis using tsq_step_cases [OF that(3)] that(2) push_step_work pop_step_work by force
  qed
qed

definition tsq_resting :: "'a tsq \<Rightarrow> bool" where
  "tsq_resting s \<longleftrightarrow> (\<forall>l. prompt l \<longrightarrow> tsq_step l s = None)"

lemma resting_steps: "tsq_resting s \<Longrightarrow> prompt l \<Longrightarrow> push_step l s = None \<and> pop_step l s = None"
  unfolding tsq_resting_def tsq_step_def by (metis option.case_eq_if option.distinct(1))

lemma resting_mutex:
  assumes "tsq_resting s" and "tsq_inv s"
  shows "mutex s = None"
proof (cases "mutex s")
  case (Some k)
  then have k: "k < length (pcs s)" "critical (pcs s ! k)" using assms(2) by (auto simp: tsq_inv_def)
  then show ?thesis
    using resting_steps [OF assms(1), of "DoPush k"] resting_steps [OF assms(1), of "TestPop k"]
    by (cases "pcs s ! k") (auto simp: pc_at_def split: list.splits)
qed

lemma resting_pcs:
  assumes "tsq_resting s" and "tsq_inv s" and "i < length (pcs s)"
  shows "pcs s ! i = Idle \<or> pcs s ! i = Parked"
proof -
  note no = resting_steps [OF assms(1)] and free = resting_mutex [OF assms(1,2)]
  have "\<not> critical (pcs s ! i)" using assms(2,3) free by (auto simp: tsq_inv_def)
  moreover have "pcs s ! i \<noteq> Notify"
  proof
    assume n: "pcs s ! i = Notify"
    then have "Parked \<in> set (pcs s)" using no [of "NotifyOne i None"] assms(3) by (auto simp: pc_at_def split: if_splits)
    then obtain j where "j < length (pcs s)" "pcs s ! j = Parked" by (auto simp: in_set_conv_nth)
    then show False using no [of "NotifyOne i (Some j)"] n assms(3) by (simp add: pc_at_def)
  qed
  ultimately show ?thesis
    using no [of "LockPush i"] no [of "LockPop i"] free assms(3)
    by (cases "pcs s ! i") (auto simp: pc_at_def)
qed

lemma resting_queue:
  assumes "tsq_resting s" and "tsq_inv s"
  shows "set (pcs s) \<subseteq> {Idle, Parked} \<and> (Parked \<in> set (pcs s) \<longrightarrow> queue s = [])"
proof -
  have "\<not> attentive (pcs s ! i)" if "i < length (pcs s)" for i
    using resting_pcs [OF assms that] by auto
  then have "tally attentive (pcs s) = 0" using tally_positive [of attentive "pcs s"] by auto
  then show ?thesis using assms(2) resting_pcs [OF assms] by (auto simp: tsq_inv_def set_conv_nth)
qed

section \<open>Properties\<close>

text \<open>
  C28: with any number of threads and any interleaving, the elements come out in the order they
  went in, each once, and no two threads are inside their critical sections.
\<close>

theorem tsq_fifo_exclusive:
  assumes "tsq_reach n s"
  shows "pushed s = popped s @ queue s \<and>
    (map_option critical (pc_at i s) = Some True \<and> map_option critical (pc_at j s) = Some True \<longrightarrow> i = j)"
proof -
  have inv: "tsq_inv s" using assms by (rule shared_queue.reachable_inv)
  have "mutex s = Some k" if "map_option critical (pc_at k s) = Some True" for k
    using inv that by (auto simp: tsq_inv_def dest: pc_atD)
  from this [of i] this [of j] show ?thesis using inv by (auto simp: tsq_inv_def)
qed

text \<open>Two consumers that park, a producer, and both consumers woken for its one element.\<close>

definition demo_tsq :: "nat tsq_label list" where
  "demo_tsq = [CallPop 0, LockPop 0, TestPop 0, CallPop 1, LockPop 1, TestPop 1, CallPush 2 7, LockPush 2,
     DoPush 2, Spurious 1]"

lemma demo_tsq_values:
  "map_option (\<lambda>s. (queue s, pcs s, mutex s)) (tsq_exec demo_tsq (tsq_init 3)) =
     Some ([7], [Parked, Woken, Notify], None)"
  by code_simp

definition demo_tsq_state :: "nat tsq" where
  "demo_tsq_state = the (tsq_exec demo_tsq (tsq_init 3))"

lemma demo_tsq_reach: "tsq_reach 3 demo_tsq_state"
proof -
  have "tsq_exec demo_tsq (tsq_init 3) = Some demo_tsq_state"
    using demo_tsq_values by (auto simp: demo_tsq_state_def)
  then show ?thesis using reach_start by (rule run_reachable)
qed

theorem tsq_fifo_exclusive_witness:
  "pushed demo_tsq_state = popped demo_tsq_state @ queue demo_tsq_state"
  using tsq_fifo_exclusive [OF demo_tsq_reach] by simp

text \<open>
  No wake-up is lost. While a consumer is parked and the queue is not empty, there are at
  least as many threads about to look at the queue, or to notify one, as elements; and one of
  the threads can take its next step.
\<close>

lemma tsq_no_lost_wakeup:
  assumes "tsq_reach n s" and "Parked \<in> set (pcs s)" and "queue s \<noteq> []"
  shows "length (queue s) \<le> tally attentive (pcs s) \<and>
    (\<exists>i s'. push_step (DoPush i) s = Some s' \<or> pop_step (TestPop i) s = Some s' \<or>
       pop_step (LockPop i) s = Some s' \<or> (\<exists>j. push_step (NotifyOne i (Some j)) s = Some s'))"
proof
  have inv: "tsq_inv s" using assms(1) by (rule shared_queue.reachable_inv)
  then show tally: "length (queue s) \<le> tally attentive (pcs s)" using assms(2) by (simp add: tsq_inv_def)
  show "\<exists>i s'. push_step (DoPush i) s = Some s' \<or> pop_step (TestPop i) s = Some s' \<or>
       pop_step (LockPop i) s = Some s' \<or> (\<exists>j. push_step (NotifyOne i (Some j)) s = Some s')"
  proof (cases "mutex s")
    case (Some k)
    then have k: "k < length (pcs s)" "critical (pcs s ! k)" using inv by (auto simp: tsq_inv_def)
    then show ?thesis
      by (cases "pcs s ! k") (auto simp: pc_at_def split: list.splits intro!: exI [of _ k])
  next
    case None
    have "0 < tally attentive (pcs s)" using tally assms(3) by (metis length_greater_0_conv less_le_trans)
    then obtain i where i: "i < length (pcs s)" "attentive (pcs s ! i)" using tally_positive by blast
    obtain j where j: "j < length (pcs s)" "pcs s ! j = Parked" using assms(2) by (auto simp: in_set_conv_nth)
    have "\<not> critical (pcs s ! i)" using inv None i(1) by (auto simp: tsq_inv_def)
    then consider "pcs s ! i = Notify" | "pcs s ! i = PopLock" | "pcs s ! i = Woken"
      using i(2) by (cases "pcs s ! i") simp_all
    then show ?thesis
    proof cases
      case 1
      then have "push_step (NotifyOne i (Some j)) s = Some (goto j Woken (goto i Idle s))"
        using i(1) j by (simp add: pc_at_def)
      then show ?thesis by blast
    next
      case 2
      then have "pop_step (LockPop i) s = Some (goto i PopCrit s\<lparr>mutex := Some i\<rparr>)"
        using i(1) None by (simp add: pc_at_def)
      then show ?thesis by blast
    next
      case 3
      then have "pop_step (LockPop i) s = Some (goto i PopCrit s\<lparr>mutex := Some i\<rparr>)"
        using i(1) None by (simp add: pc_at_def)
      then show ?thesis by blast
    qed
  qed
qed

text \<open>
  C29: the threads that are inside push or wait_and_pop come to rest, whatever the interleaving:
  after a number of steps that the state bounds, unless somebody calls again or a wait ends on its
  own, none of them can take a step. Then no thread is left with the mutex or on the way to it,
  and if one still waits in wait_and_pop, the queue is empty: no wake-up is lost. From every state
  on the way some run brings them to rest.
\<close>

theorem tsq_settles:
  assumes "tsq_reach n s" and "tsq_exec ls s = Some s'" and "list_all prompt ls"
  shows "length ls \<le> tsq_work s \<and>
    (tsq_resting s' \<longrightarrow> mutex s' = None \<and> set (pcs s') \<subseteq> {Idle, Parked} \<and> (Parked \<in> set (pcs s') \<longrightarrow> queue s' = [])) \<and>
    (\<exists>ls' r. tsq_exec ls' s' = Some r \<and> list_all prompt ls' \<and> tsq_resting r)"
proof -
  note inv = shared_queue.reachable_inv [OF assms(1)]
  note inv' = shared_queue.run_inv [OF assms(2) inv]
  have "length ls \<le> tsq_work s"
    using settling.own_run_bounded [OF assms(2) inv] assms(3) by (simp add: list_all_iff)
  moreover have "\<exists>ls' r. tsq_exec ls' s' = Some r \<and> list_all prompt ls' \<and> tsq_resting r"
    using settling.own_run_rests [OF inv'] by (simp add: tsq_resting_def list_all_iff)
  ultimately show ?thesis using resting_mutex [OF _ inv'] resting_queue [OF _ inv'] by simp
qed

text \<open>The producer notifies; both consumers look, one takes the element and the other one waits again.\<close>

theorem tsq_settles_witness:
  "length [NotifyOne 2 (Some 0), LockPop 1, TestPop 1, LockPop 0, TestPop 0 :: nat tsq_label] \<le> tsq_work demo_tsq_state"
proof -
  have "\<not> Option.is_none (tsq_exec [NotifyOne 2 (Some 0), LockPop 1, TestPop 1, LockPop 0, TestPop 0] demo_tsq_state)"
    unfolding demo_tsq_state_def by code_simp
  from tsq_settles [OF demo_tsq_reach run_the [OF this]] show ?thesis by simp
qed

text \<open>
  empty() is not safe to call while another thread uses the queue: it reads the queue
  without the mutex, at a moment when a push is inside its critical section.
\<close>

theorem empty_races:
  "\<exists>s. tsq_reach 2 (s :: nat tsq) \<and> raced s"
proof -
  have "map_option raced (tsq_exec [CallPush 0 (1::nat), LockPush 0, ReadEmpty 1] (tsq_init 2)) = Some True"
    by code_simp
  then obtain s where "tsq_exec [CallPush 0 (1::nat), LockPush 0, ReadEmpty 1] (tsq_init 2) = Some s" "raced s"
    by auto
  then show ?thesis by (metis run_reachable reach_start)
qed

end
