(* ===== verification/ThreadPool.thy ===== *)
theory ThreadPool
  imports Holdings Machine Decimal
begin

text \<open>
  The thread pool of include/quick/thread/ThreadPool.hpp: any number of workers and of threads
  that enqueue, and the thread that destroys the pool, interleaved at every access to the state
  they share. A task is an opaque value; running one takes any time and always ends. The threads
  that enqueue do so before the destruction begins, as the language demands of any member call.
\<close>

section \<open>State\<close>

text \<open>
  Before the two reads of the condition of the loop; before acquire; before the two reads of the
  test behind it; before the lock and behind it; running a task; returned.
\<close>

datatype 'a worker = Test | Load | Acquire | Check | Empty | Lock | Crit | Run 'a | Exited

datatype 'a client = Idle | Enter 'a | Inside 'a | Release

text \<open>
  The body of the destructor releases the semaphore and requests the stop of one worker after the
  other; then the members are destroyed, in the reverse order of their declarations: the flag, the
  semaphore and the mutex first, and the vector of workers, which joins them, after.
\<close>

datatype destructor = NotYet | ReleaseFor nat | RequestFor nat | Joining nat | Destroyed

datatype thread = W nat | C nat

record 'a pool =
  m_num_threads :: nat
  m_tasks :: "'a list"
  m_workers :: "'a worker list"
  m_mutex :: "thread option"
  m_semaphore :: nat
  m_stopping :: bool
  stop_requested :: "nat \<Rightarrow> bool"
  clients :: "'a client list"
  dtor :: destructor
  t_thread_id :: "thread \<Rightarrow> int"
  enqueued :: "'a list"
  pushed :: "'a list"
  taken :: "(nat \<times> 'a) list"
  finished :: "'a list"
  dead_access :: bool
  raced :: bool

text \<open>
  From enqueued on, the fields only record: what was given to enqueue, what went into the queue,
  which worker took what, what has run; whether a worker used a member that was destroyed; and
  whether one read the queue, without the mutex, while its owner was at it. The last two are undefined
  behaviour, and a run ends where one of them has happened.
\<close>

definition is_undefined :: "'a pool \<Rightarrow> bool" where
  [run_simps]: "is_undefined s \<longleftrightarrow> dead_access s \<or> raced s"

definition pool_init :: "nat \<Rightarrow> nat \<Rightarrow> 'a pool" where
  [run_simps]: "pool_init num_threads callers =
     \<lparr>m_num_threads = num_threads, m_tasks = [], m_workers = replicate num_threads Test, m_mutex = None, m_semaphore = 0, m_stopping = False,
      stop_requested = (\<lambda>_. False), clients = replicate callers Idle, dtor = NotYet, t_thread_id = (\<lambda>_. -1), enqueued = [],
      pushed = [], taken = [], finished = [], dead_access = False, raced = False\<rparr>"

text \<open>
  The constructor from a number of threads, in 64 bits. reserve throws when the room for as many
  is not granted (the left side); the workers are those of the range of the ints from 0 to the number
  converted to int, which is undefined when that is negative. Every thread can be created.
\<close>

definition ThreadPool_ctor :: "(u64 \<Rightarrow> bool) \<Rightarrow> u64 \<Rightarrow> nat \<Rightarrow> (unit + 'a pool) option" where
  [run_simps]: "ThreadPool_ctor reserved num_threads callers =
     (if \<not> reserved num_threads then Some (Inl ())
      else
        (let bound = sint (ucast num_threads :: 32 word)
         in if bound < 0 then None
            else Some (Inr ((pool_init (nat bound) callers)\<lparr>m_num_threads := unat num_threads\<rparr>))))"

definition ThreadPool_default :: "nat \<Rightarrow> 'a pool" where
  [run_simps]: "ThreadPool_default callers = pool_init 0 callers"

definition gone :: "'a pool \<Rightarrow> bool" where
  [run_simps]: "gone s \<longleftrightarrow> (case dtor s of Joining _ \<Rightarrow> True | Destroyed \<Rightarrow> True | _ \<Rightarrow> False)"

definition worker_at :: "nat \<Rightarrow> 'a pool \<Rightarrow> 'a worker option" where
  [run_simps]: "worker_at w s = (if w < length (m_workers s) then Some (m_workers s ! w) else None)"

definition client_at :: "nat \<Rightarrow> 'a pool \<Rightarrow> 'a client option" where
  [run_simps]: "client_at c s = (if c < length (clients s) then Some (clients s ! c) else None)"

abbreviation goto_worker :: "nat \<Rightarrow> 'a worker \<Rightarrow> 'a pool \<Rightarrow> 'a pool" where
  "goto_worker w p s \<equiv> s\<lparr>m_workers := (m_workers s)[w := p]\<rparr>"

abbreviation goto_client :: "nat \<Rightarrow> 'a client \<Rightarrow> 'a pool \<Rightarrow> 'a pool" where
  "goto_client c p s \<equiv> s\<lparr>clients := (clients s)[c := p]\<rparr>"

definition get_num_threads :: "'a pool \<Rightarrow> nat" where
  [run_simps]: "get_num_threads s = m_num_threads s"

definition get_num_active_tasks :: "'a pool \<Rightarrow> nat" where
  [run_simps]: "get_num_active_tasks s = length (m_tasks s)"

text \<open>The number of the worker that asks, -1 for a thread that runs no tasks.\<close>

definition get_thread_id :: "thread \<Rightarrow> 'a pool \<Rightarrow> string" where
  [run_simps]: "get_thread_id t s = decimal (t_thread_id s t)"

section \<open>Steps\<close>

datatype 'a pool_label =
    Call nat 'a | LockCall nat | Push nat | ReleaseSem nat
  | TestStop nat | LoadStop nat | AcquireSem nat | CheckStop nat | CheckEmpty nat | LockWorker nat | Take nat | Finish nat
  | SetStopping | DtorRelease | DtorRequest | DestroyMembers | Join

fun enqueue_step :: "'a pool_label \<Rightarrow> 'a pool \<Rightarrow> 'a pool option" where
  "enqueue_step (Call c x) s =
     (if client_at c s = Some Idle \<and> dtor s = NotYet
      then Some ((goto_client c (Enter x) s)\<lparr>enqueued := enqueued s @ [x]\<rparr>) else None)"
| "enqueue_step (LockCall c) s =
     (case client_at c s of
        Some (Enter x) \<Rightarrow> if m_mutex s = None then Some ((goto_client c (Inside x) s)\<lparr>m_mutex := Some (C c)\<rparr>) else None
      | _ \<Rightarrow> None)"
| "enqueue_step (Push c) s =
     (case client_at c s of
        Some (Inside x) \<Rightarrow>
          Some ((goto_client c Release s)\<lparr>m_tasks := m_tasks s @ [x], pushed := pushed s @ [x], m_mutex := None\<rparr>)
      | _ \<Rightarrow> None)"
| "enqueue_step (ReleaseSem c) s =
     (if client_at c s = Some Release
      then Some ((goto_client c Idle s)\<lparr>m_semaphore := m_semaphore s + 1\<rparr>) else None)"
| "enqueue_step _ s = None"

text \<open>The function of worker w; each step is one access to shared state.\<close>

fun worker_step :: "'a pool_label \<Rightarrow> 'a pool \<Rightarrow> 'a pool option" where
  "worker_step (TestStop w) s =
     (if worker_at w s = Some Test
      then Some (goto_worker w (if \<not> stop_requested s w then Load else Exited) s)
      else None)"
| "worker_step (LoadStop w) s =
     (if worker_at w s = Some Load
      then Some ((goto_worker w (if \<not> m_stopping s then Acquire else Exited) s)\<lparr>dead_access := (dead_access s \<or> gone s)\<rparr>)
      else None)"
| "worker_step (AcquireSem w) s =
     (if worker_at w s = Some Acquire \<and> m_semaphore s > 0
      then Some ((goto_worker w Check s)\<lparr>m_semaphore := m_semaphore s - 1, dead_access := (dead_access s \<or> gone s)\<rparr>)
      else None)"
| "worker_step (CheckStop w) s =
     (if worker_at w s = Some Check
      then Some (goto_worker w (if stop_requested s w then Empty else Lock) s)
      else None)"
| "worker_step (CheckEmpty w) s =
     (if worker_at w s = Some Empty
      then Some ((goto_worker w (if m_tasks s = [] then Exited else Lock) s)\<lparr>raced := (raced s \<or> m_mutex s \<noteq> None)\<rparr>)
      else None)"
| "worker_step (LockWorker w) s =
     (if worker_at w s = Some Lock \<and> m_mutex s = None
      then Some ((goto_worker w Crit s)\<lparr>m_mutex := Some (W w), dead_access := (dead_access s \<or> gone s)\<rparr>)
      else None)"
| "worker_step (Take w) s =
     (if worker_at w s = Some Crit
      then (case m_tasks s of
              [] \<Rightarrow> Some ((goto_worker w Test s)\<lparr>m_mutex := None, dead_access := (dead_access s \<or> gone s)\<rparr>)
            | task # rest \<Rightarrow>
                Some ((goto_worker w (Run task) s)
                  \<lparr>m_tasks := rest, taken := taken s @ [(w, task)], m_mutex := None,
                   t_thread_id := (t_thread_id s)(W w := int w), dead_access := (dead_access s \<or> gone s)\<rparr>))
      else None)"
| "worker_step (Finish w) s =
     (case worker_at w s of
        Some (Run task) \<Rightarrow> Some ((goto_worker w Test s)\<lparr>finished := finished s @ [task]\<rparr>)
      | _ \<Rightarrow> None)"
| "worker_step _ s = None"

fun dtor_step :: "'a pool_label \<Rightarrow> 'a pool \<Rightarrow> 'a pool option" where
  "dtor_step SetStopping s =
     (if dtor s = NotYet \<and> set (clients s) \<subseteq> {Idle}
      then Some (s\<lparr>m_stopping := True, dtor := ReleaseFor 0\<rparr>) else None)"
| "dtor_step DtorRelease s =
     (case dtor s of
        ReleaseFor k \<Rightarrow>
          if k < length (m_workers s) then Some (s\<lparr>m_semaphore := m_semaphore s + 1, dtor := RequestFor k\<rparr>) else None
      | _ \<Rightarrow> None)"
| "dtor_step DtorRequest s =
     (case dtor s of
        RequestFor k \<Rightarrow> Some (s\<lparr>stop_requested := (stop_requested s)(k := True), dtor := ReleaseFor (k + 1)\<rparr>)
      | _ \<Rightarrow> None)"
| "dtor_step DestroyMembers s =
     (case dtor s of
        ReleaseFor k \<Rightarrow> if k = length (m_workers s) then Some (s\<lparr>dtor := Joining 0\<rparr>) else None
      | _ \<Rightarrow> None)"
| "dtor_step Join s =
     (case dtor s of
        Joining k \<Rightarrow>
          if k = length (m_workers s) then Some (s\<lparr>dtor := Destroyed\<rparr>)
          else if worker_at k s = Some Exited then Some (s\<lparr>dtor := Joining (k + 1)\<rparr>) else None
      | _ \<Rightarrow> None)"
| "dtor_step _ s = None"

inductive pool_step :: "'a pool_label \<Rightarrow> 'a pool \<Rightarrow> 'a pool \<Rightarrow> bool" where
  enqueues: "\<not> is_undefined s \<Longrightarrow> enqueue_step l s = Some s' \<Longrightarrow> pool_step l s s'"
| works: "\<not> is_undefined s \<Longrightarrow> worker_step l s = Some s' \<Longrightarrow> pool_step l s s'"
| destroys: "\<not> is_undefined s \<Longrightarrow> dtor_step l s = Some s' \<Longrightarrow> pool_step l s s'"

definition pool_try :: "'a pool_label \<Rightarrow> 'a pool \<Rightarrow> 'a pool option" where
  [run_simps]: "pool_try l s =
     (if is_undefined s then None
      else
        (case enqueue_step l s of Some s' \<Rightarrow> Some s'
         | None \<Rightarrow> (case worker_step l s of Some s' \<Rightarrow> Some s' | None \<Rightarrow> dtor_step l s)))"

lemma pool_step_iff: "pool_step l s s' \<longleftrightarrow> pool_try l s = Some s'"
  by (cases l) (auto simp: pool_try_def pool_step.simps split: option.splits)

lemma pool_stepE [consumes 1, case_names enqueues works destroys]:
  assumes "pool_step l s s'"
  obtains "enqueue_step l s = Some s'" | "worker_step l s = Some s'" | "dtor_step l s = Some s'"
  using assms by (cases rule: pool_step.cases)

lemma pool_step_defined: "pool_step l s s' \<Longrightarrow> \<not> is_undefined s"
  by (cases rule: pool_step.cases)

text \<open>The thread that takes a step; None is the one that destroys the pool.\<close>

fun actor :: "'a pool_label \<Rightarrow> thread option" where
  "actor (Call c x) = Some (C c)"
| "actor (LockCall c) = Some (C c)"
| "actor (Push c) = Some (C c)"
| "actor (ReleaseSem c) = Some (C c)"
| "actor (TestStop w) = Some (W w)"
| "actor (LoadStop w) = Some (W w)"
| "actor (AcquireSem w) = Some (W w)"
| "actor (CheckStop w) = Some (W w)"
| "actor (CheckEmpty w) = Some (W w)"
| "actor (LockWorker w) = Some (W w)"
| "actor (Take w) = Some (W w)"
| "actor (Finish w) = Some (W w)"
| "actor _ = None"

abbreviation pool_reach :: "nat \<Rightarrow> nat \<Rightarrow> 'a pool \<Rightarrow> bool" where
  "pool_reach n m \<equiv> reachable (pool_init n m) pool_try"

abbreviation pool_exec :: "'a pool_label list \<Rightarrow> 'a pool \<Rightarrow> 'a pool option" where
  "pool_exec \<equiv> run_steps pool_try"

section \<open>Invariants\<close>

text \<open>The steps, with the place of the thread that moves and the state it leaves.\<close>

lemma enqueue_stepE [consumes 1, case_names Call LockCall Push ReleaseSem]:
  assumes "enqueue_step l s = Some s'"
  obtains c x where "l = Call c x" "c < length (clients s)" "clients s ! c = Idle" "dtor s = NotYet"
      "s' = (goto_client c (Enter x) s)\<lparr>enqueued := enqueued s @ [x]\<rparr>"
  | c x where "l = LockCall c" "c < length (clients s)" "clients s ! c = Enter x" "m_mutex s = None"
      "s' = (goto_client c (Inside x) s)\<lparr>m_mutex := Some (C c)\<rparr>"
  | c x where "l = Push c" "c < length (clients s)" "clients s ! c = Inside x"
      "s' = (goto_client c Release s)\<lparr>m_tasks := m_tasks s @ [x], pushed := pushed s @ [x], m_mutex := None\<rparr>"
  | c where "l = ReleaseSem c" "c < length (clients s)" "clients s ! c = Release"
      "s' = (goto_client c Idle s)\<lparr>m_semaphore := m_semaphore s + 1\<rparr>"
proof (cases l)
  case (Call c x) then show ?thesis using that(1) [of c x] assms by (auto simp: client_at_def split: if_split_asm)
next
  case (LockCall c)
  then show ?thesis using that(2) [of c] assms
    by (auto simp: client_at_def split: if_split_asm option.split_asm client.split_asm)
next
  case (Push c)
  then show ?thesis using that(3) [of c] assms
    by (auto simp: client_at_def split: if_split_asm option.split_asm client.split_asm)
next
  case (ReleaseSem c) then show ?thesis using that(4) [of c] assms by (auto simp: client_at_def split: if_split_asm)
qed (use assms in simp_all)

lemma worker_stepE [consumes 1, case_names TestStop LoadStop AcquireSem CheckStop CheckEmpty LockWorker Empty Take Finish]:
  assumes "worker_step l s = Some s'"
  obtains w where "l = TestStop w" "w < length (m_workers s)" "m_workers s ! w = Test"
      "s' = goto_worker w (if \<not> stop_requested s w then Load else Exited) s"
  | w where "l = LoadStop w" "w < length (m_workers s)" "m_workers s ! w = Load"
      "s' = (goto_worker w (if \<not> m_stopping s then Acquire else Exited) s)\<lparr>dead_access := (dead_access s \<or> gone s)\<rparr>"
  | w where "l = AcquireSem w" "w < length (m_workers s)" "m_workers s ! w = Acquire" "m_semaphore s > 0"
      "s' = (goto_worker w Check s)\<lparr>m_semaphore := m_semaphore s - 1, dead_access := (dead_access s \<or> gone s)\<rparr>"
  | w where "l = CheckStop w" "w < length (m_workers s)" "m_workers s ! w = Check"
      "s' = goto_worker w (if stop_requested s w then Empty else Lock) s"
  | w where "l = CheckEmpty w" "w < length (m_workers s)" "m_workers s ! w = Empty"
      "s' = (goto_worker w (if m_tasks s = [] then Exited else Lock) s)\<lparr>raced := (raced s \<or> m_mutex s \<noteq> None)\<rparr>"
  | w where "l = LockWorker w" "w < length (m_workers s)" "m_workers s ! w = Lock" "m_mutex s = None"
      "s' = (goto_worker w Crit s)\<lparr>m_mutex := Some (W w), dead_access := (dead_access s \<or> gone s)\<rparr>"
  | w where "l = Take w" "w < length (m_workers s)" "m_workers s ! w = Crit" "m_tasks s = []"
      "s' = (goto_worker w Test s)\<lparr>m_mutex := None, dead_access := (dead_access s \<or> gone s)\<rparr>"
  | w task rest where "l = Take w" "w < length (m_workers s)" "m_workers s ! w = Crit" "m_tasks s = task # rest"
      "s' = (goto_worker w (Run task) s)
         \<lparr>m_tasks := rest, taken := taken s @ [(w, task)], m_mutex := None,
          t_thread_id := (t_thread_id s)(W w := int w), dead_access := (dead_access s \<or> gone s)\<rparr>"
  | w task where "l = Finish w" "w < length (m_workers s)" "m_workers s ! w = Run task"
      "s' = (goto_worker w Test s)\<lparr>finished := finished s @ [task]\<rparr>"
proof (cases l)
  case (TestStop w) then show ?thesis using that(1) [of w] assms by (auto simp: worker_at_def split: if_split_asm)
next
  case (LoadStop w) then show ?thesis using that(2) [of w] assms by (auto simp: worker_at_def split: if_split_asm)
next
  case (AcquireSem w) then show ?thesis using that(3) [of w] assms by (auto simp: worker_at_def split: if_split_asm)
next
  case (CheckStop w) then show ?thesis using that(4) [of w] assms by (auto simp: worker_at_def split: if_split_asm)
next
  case (CheckEmpty w) then show ?thesis using that(5) [of w] assms by (auto simp: worker_at_def split: if_split_asm)
next
  case (LockWorker w) then show ?thesis using that(6) [of w] assms by (auto simp: worker_at_def split: if_split_asm)
next
  case (Take w)
  then show ?thesis using that(7) [of w] that(8) [of w] assms
    by (auto simp: worker_at_def split: if_split_asm list.split_asm)
next
  case (Finish w)
  then show ?thesis using that(9) [of w] assms
    by (auto simp: worker_at_def split: if_split_asm option.split_asm worker.split_asm)
qed (use assms in \<open>simp_all only: worker_step.simps option.distinct\<close>)

lemma dtor_step_SetStopping:
  "dtor_step SetStopping s = Some s' \<Longrightarrow> dtor s = NotYet \<and> set (clients s) \<subseteq> {Idle} \<and>
     s' = s\<lparr>m_stopping := True, dtor := ReleaseFor 0\<rparr>"
  by (auto split: if_split_asm)

lemma dtor_step_DtorRelease:
  "dtor_step DtorRelease s = Some s' \<Longrightarrow> \<exists>k. dtor s = ReleaseFor k \<and> k < length (m_workers s) \<and>
     s' = s\<lparr>m_semaphore := m_semaphore s + 1, dtor := RequestFor k\<rparr>"
  by (auto split: if_split_asm destructor.split_asm)

lemma dtor_step_DtorRequest:
  "dtor_step DtorRequest s = Some s' \<Longrightarrow> \<exists>k. dtor s = RequestFor k \<and>
     s' = s\<lparr>stop_requested := (stop_requested s)(k := True), dtor := ReleaseFor (k + 1)\<rparr>"
  by (auto split: destructor.split_asm)

lemma dtor_step_DestroyMembers:
  "dtor_step DestroyMembers s = Some s' \<Longrightarrow> dtor s = ReleaseFor (length (m_workers s)) \<and> s' = s\<lparr>dtor := Joining 0\<rparr>"
  by (auto split: if_split_asm destructor.split_asm)

lemma dtor_step_Join:
  "dtor_step Join s = Some s' \<Longrightarrow> \<exists>k. dtor s = Joining k \<and>
     (if k = length (m_workers s) then s' = s\<lparr>dtor := Destroyed\<rparr>
      else k < length (m_workers s) \<and> m_workers s ! k = Exited \<and> s' = s\<lparr>dtor := Joining (k + 1)\<rparr>)"
  by (cases "dtor s") (simp_all add: worker_at_def split: if_split_asm)

lemma dtor_stepE [consumes 1, case_names SetStopping DtorRelease DtorRequest DestroyMembers Joined Join]:
  assumes "dtor_step l s = Some s'"
  obtains "l = SetStopping" "dtor s = NotYet" "set (clients s) \<subseteq> {Idle}"
      "s' = s\<lparr>m_stopping := True, dtor := ReleaseFor 0\<rparr>"
  | k where "l = DtorRelease" "dtor s = ReleaseFor k" "k < length (m_workers s)"
      "s' = s\<lparr>m_semaphore := m_semaphore s + 1, dtor := RequestFor k\<rparr>"
  | k where "l = DtorRequest" "dtor s = RequestFor k"
      "s' = s\<lparr>stop_requested := (stop_requested s)(k := True), dtor := ReleaseFor (k + 1)\<rparr>"
  | k where "l = DestroyMembers" "dtor s = ReleaseFor (length (m_workers s))" "s' = s\<lparr>dtor := Joining 0\<rparr>"
  | k where "l = Join" "dtor s = Joining k" "k = length (m_workers s)" "s' = s\<lparr>dtor := Destroyed\<rparr>"
  | k where "l = Join" "dtor s = Joining k" "k < length (m_workers s)" "m_workers s ! k = Exited"
      "s' = s\<lparr>dtor := Joining (k + 1)\<rparr>"
proof -
  consider "l = SetStopping" | "l = DtorRelease" | "l = DtorRequest" | "l = DestroyMembers" | "l = Join"
    using assms by (cases l) simp_all
  then show thesis
  proof cases
    case 1 then show thesis using dtor_step_SetStopping assms that(1) by blast
  next
    case 2 then show thesis using dtor_step_DtorRelease assms that(2) by blast
  next
    case 3 then show thesis using dtor_step_DtorRequest assms that(3) by blast
  next
    case 4 then show thesis using dtor_step_DestroyMembers assms that(4) by blast
  next
    case 5
    then obtain k where "dtor s = Joining k" "if k = length (m_workers s) then s' = s\<lparr>dtor := Destroyed\<rparr>
        else k < length (m_workers s) \<and> m_workers s ! k = Exited \<and> s' = s\<lparr>dtor := Joining (k + 1)\<rparr>"
      using dtor_step_Join assms by blast
    then show thesis using 5 that(5,6) by (cases "k = length (m_workers s)") simp_all
  qed
qed

text \<open>The tasks leave in the order in which they entered.\<close>

definition order_inv :: "'a pool \<Rightarrow> bool" where
  "order_inv s \<longleftrightarrow> pushed s = map snd (taken s) @ m_tasks s"

lemma order_inv_step:
  assumes "order_inv s" and "pool_step l s s'"
  shows "order_inv s'"
  using assms(2)
proof (cases rule: pool_stepE)
  case enqueues
  then show ?thesis using assms(1) by (cases rule: enqueue_stepE) (simp_all add: order_inv_def)
next
  case works
  then show ?thesis using assms(1) by (cases rule: worker_stepE) (simp_all add: order_inv_def)
next
  case destroys
  then show ?thesis using assms(1) by (cases rule: dtor_stepE) (simp_all add: order_inv_def)
qed

text \<open>The mutex knows who is inside.\<close>

definition mutex_inv :: "'a pool \<Rightarrow> bool" where
  "mutex_inv s \<longleftrightarrow>
     (\<forall>w < length (m_workers s). m_workers s ! w = Crit \<longleftrightarrow> m_mutex s = Some (W w)) \<and>
     (\<forall>c < length (clients s). (\<exists>x. clients s ! c = Inside x) \<longleftrightarrow> m_mutex s = Some (C c)) \<and>
     (\<forall>w. m_mutex s = Some (W w) \<longrightarrow> w < length (m_workers s)) \<and>
     (\<forall>c. m_mutex s = Some (C c) \<longrightarrow> c < length (clients s))"

lemma mutex_inv_worker:
  assumes "mutex_inv s" and "w < length (m_workers s)" and "m_mutex s' = (if p = Crit then Some (W w) else if m_workers s ! w = Crit then None else m_mutex s)"
    and "p = Crit \<Longrightarrow> m_mutex s = None \<or> m_mutex s = Some (W w)" and "m_workers s' = (m_workers s)[w := p]" and "clients s' = clients s"
  shows "mutex_inv s'"
  using assms unfolding mutex_inv_def by (auto simp: nth_list_update split: if_splits)

lemma mutex_inv_client:
  assumes "mutex_inv s" and "c < length (clients s)"
    and "m_mutex s' = (if \<exists>x. p = Inside x then Some (C c) else if \<exists>x. clients s ! c = Inside x then None else m_mutex s)"
    and "\<exists>x. p = Inside x \<Longrightarrow> m_mutex s = None" and "clients s' = (clients s)[c := p]" and "m_workers s' = m_workers s"
  shows "mutex_inv s'"
  using assms unfolding mutex_inv_def by (auto simp: nth_list_update split: if_splits)

lemma mutex_inv_step:
  assumes "mutex_inv s" and "pool_step l s s'"
  shows "mutex_inv s'"
  using assms(2)
proof (cases rule: pool_stepE)
  case enqueues
  note change = mutex_inv_client [OF assms(1)]
  from enqueues show ?thesis
  proof (cases rule: enqueue_stepE)
    case (Call c x) then show ?thesis by (intro change [of c _ "Enter x"]) simp_all
  next
    case (LockCall c x) then show ?thesis by (intro change [of c _ "Inside x"]) simp_all
  next
    case (Push c x) then show ?thesis by (intro change [of c _ Release]) simp_all
  next
    case (ReleaseSem c) then show ?thesis by (intro change [of c _ Idle]) simp_all
  qed
next
  case works
  note change = mutex_inv_worker [OF assms(1)]
  from works show ?thesis
  proof (cases rule: worker_stepE)
    case (TestStop w)
    then show ?thesis
      by (intro change [of w _ "if \<not> stop_requested s w then Load else Exited"]) (simp_all split: if_splits)
  next
    case (LoadStop w)
    then show ?thesis by (intro change [of w _ "if \<not> m_stopping s then Acquire else Exited"]) (simp_all split: if_splits)
  next
    case (AcquireSem w) then show ?thesis by (intro change [of w _ Check]) simp_all
  next
    case (CheckStop w)
    then show ?thesis by (intro change [of w _ "if stop_requested s w then Empty else Lock"]) (simp_all split: if_splits)
  next
    case (CheckEmpty w)
    then show ?thesis by (intro change [of w _ "if m_tasks s = [] then Exited else Lock"]) (simp_all split: if_splits)
  next
    case (LockWorker w) then show ?thesis by (intro change [of w _ Crit]) simp_all
  next
    case (Empty w) then show ?thesis by (intro change [of w _ Test]) simp_all
  next
    case (Take w task rest) then show ?thesis by (intro change [of w _ "Run task"]) simp_all
  next
    case (Finish w task) then show ?thesis by (intro change [of w _ Test]) simp_all
  qed
next
  case destroys
  then show ?thesis using assms(1) by (cases rule: dtor_stepE) (simp_all add: mutex_inv_def)
qed

section \<open>Nothing is lost\<close>

fun client_part :: "'a client \<Rightarrow> 'a multiset" where
  "client_part (Enter x) = {#x#}"
| "client_part (Inside x) = {#x#}"
| "client_part _ = {#}"

fun worker_part :: "'a worker \<Rightarrow> 'a multiset" where
  "worker_part (Run x) = {#x#}"
| "worker_part _ = {#}"

definition content_inv :: "'a pool \<Rightarrow> bool" where
  "content_inv s \<longleftrightarrow> mset (enqueued s) = mset (pushed s) + held client_part (clients s) \<and>
     mset (map snd (taken s)) = mset (finished s) + held worker_part (m_workers s)"

lemma content_inv_step:
  assumes "content_inv s" and "pool_step l s s'"
  shows "content_inv s'"
  using assms(2)
proof (cases rule: pool_stepE)
  case enqueues
  then show ?thesis
  proof (cases rule: enqueue_stepE)
    case (Call c x)
    then show ?thesis using assms(1) held_upd [of c "clients s" client_part "Enter x"] by (simp add: content_inv_def)
  next
    case (LockCall c x)
    then show ?thesis using assms(1) held_upd [of c "clients s" client_part "Inside x"] by (simp add: content_inv_def)
  next
    case (Push c x)
    then show ?thesis using assms(1) held_upd [of c "clients s" client_part Release] by (simp add: content_inv_def)
  next
    case (ReleaseSem c)
    then show ?thesis using assms(1) held_upd [of c "clients s" client_part Idle] by (simp add: content_inv_def)
  qed
next
  case works
  have keep: "held worker_part ((m_workers s)[w := p]) = held worker_part (m_workers s)"
    if "w < length (m_workers s)" "worker_part (m_workers s ! w) = {#}" "worker_part p = {#}" for w p
    using held_upd [OF that(1), of worker_part p] that(2,3) by simp
  from works show ?thesis
  proof (cases rule: worker_stepE)
    case (Take w task rest)
    then show ?thesis using assms(1) held_upd [of w "m_workers s" worker_part "Run task"] by (simp add: content_inv_def)
  next
    case (Finish w task)
    then show ?thesis using assms(1) held_upd [of w "m_workers s" worker_part Test] by (simp add: content_inv_def)
  qed (use assms(1) keep in \<open>simp_all add: content_inv_def\<close>)
next
  case destroys
  then show ?thesis using assms(1) by (cases rule: dtor_stepE) (simp_all add: content_inv_def)
qed

section \<open>Tokens\<close>

text \<open>
  A number carried by every thread: the tokens of the semaphore that are on their way, the
  workers that wait for one, and the work that a run may still do.
\<close>

fun holds_token :: "'a worker \<Rightarrow> nat" where
  "holds_token Check = 1"
| "holds_token Empty = 1"
| "holds_token Lock = 1"
| "holds_token Crit = 1"
| "holds_token _ = 0"

fun owes_token :: "'a client \<Rightarrow> nat" where
  "owes_token Release = 1"
| "owes_token _ = 0"

text \<open>Until the destruction begins there is one token for every queued task.\<close>

definition token_inv :: "'a pool \<Rightarrow> bool" where
  "token_inv s \<longleftrightarrow> (dtor s = NotYet \<longrightarrow>
     m_semaphore s + total holds_token (m_workers s) + total owes_token (clients s) = length (m_tasks s) \<and>
     \<not> m_stopping s \<and> (\<forall>w. \<not> stop_requested s w) \<and> Exited \<notin> set (m_workers s) \<and> Empty \<notin> set (m_workers s) \<and>
     \<not> dead_access s \<and> \<not> raced s)"

lemma not_in_upd: "x \<notin> set xs \<Longrightarrow> y \<noteq> x \<Longrightarrow> x \<notin> set (xs[i := y])"
  using set_update_subset_insert [of xs i y] by blast

lemma token_inv_step:
  assumes "token_inv s" and "pool_step l s s'"
  shows "token_inv s'"
  using assms(2)
proof (cases rule: pool_stepE)
  case enqueues
  then show ?thesis
  proof (cases rule: enqueue_stepE)
    case (Call c x)
    then show ?thesis using assms(1) total_upd [of c "clients s" owes_token "Enter x"] by (auto simp: token_inv_def)
  next
    case (LockCall c x)
    then show ?thesis using assms(1) total_upd [of c "clients s" owes_token "Inside x"] by (auto simp: token_inv_def)
  next
    case (Push c x)
    then show ?thesis using assms(1) total_upd [of c "clients s" owes_token Release] by (auto simp: token_inv_def)
  next
    case (ReleaseSem c)
    then show ?thesis using assms(1) total_upd [of c "clients s" owes_token Idle] by (auto simp: token_inv_def)
  qed
next
  case works
  then show ?thesis
  proof (cases rule: worker_stepE)
    case (TestStop w)
    then show ?thesis using assms(1) total_upd [of w "m_workers s" holds_token Load]
      by (auto simp: token_inv_def dest: not_in_upd [of _ _ Load w])
  next
    case (LoadStop w)
    then show ?thesis using assms(1) total_upd [of w "m_workers s" holds_token Acquire]
      by (auto simp: token_inv_def gone_def dest: not_in_upd [of _ _ Acquire w])
  next
    case (AcquireSem w)
    then show ?thesis using assms(1) total_upd [of w "m_workers s" holds_token Check]
      by (auto simp: token_inv_def gone_def dest: not_in_upd [of _ _ Check w])
  next
    case (CheckStop w)
    then show ?thesis using assms(1) total_upd [of w "m_workers s" holds_token Lock]
      by (auto simp: token_inv_def dest: not_in_upd [of _ _ Lock w])
  next
    case (CheckEmpty w)
    then show ?thesis using assms(1) nth_mem [of w "m_workers s"] by (auto simp: token_inv_def)
  next
    case (LockWorker w)
    then show ?thesis using assms(1) total_upd [of w "m_workers s" holds_token Crit]
      by (auto simp: token_inv_def gone_def dest: not_in_upd [of _ _ Crit w])
  next
    case (Empty w)
    then show ?thesis using assms(1) total_nth [of w "m_workers s" holds_token]
      by (auto simp: token_inv_def)
  next
    case (Take w task rest)
    then show ?thesis using assms(1) total_upd [of w "m_workers s" holds_token "Run task"]
      by (auto simp: token_inv_def gone_def dest: not_in_upd [of _ _ "Run task" w])
  next
    case (Finish w task)
    then show ?thesis using assms(1) total_upd [of w "m_workers s" holds_token Test]
      by (auto simp: token_inv_def dest: not_in_upd [of _ _ Test w])
  qed
next
  case destroys
  then show ?thesis using assms(1) by (cases rule: dtor_stepE) (simp_all add: token_inv_def)
qed

fun waits :: "'a worker \<Rightarrow> nat" where
  "waits Acquire = 1"
| "waits _ = 0"

text \<open>
  From then on no caller is left, no worker goes back to wait, and the tokens there are and those
  that the destructor still adds are enough for the workers that wait.
\<close>

fun to_come :: "destructor \<Rightarrow> nat \<Rightarrow> nat" where
  "to_come (ReleaseFor k) n = n - k"
| "to_come (RequestFor k) n = n - (k + 1)"
| "to_come _ n = 0"

fun in_range :: "destructor \<Rightarrow> nat \<Rightarrow> bool" where
  "in_range (ReleaseFor k) n \<longleftrightarrow> k \<le> n"
| "in_range (RequestFor k) n \<longleftrightarrow> k < n"
| "in_range (Joining k) n \<longleftrightarrow> k \<le> n"
| "in_range _ n \<longleftrightarrow> True"

definition stop_inv :: "'a pool \<Rightarrow> bool" where
  "stop_inv s \<longleftrightarrow> in_range (dtor s) (length (m_workers s)) \<and> (dtor s \<noteq> NotYet \<longrightarrow> m_stopping s \<and> set (clients s) \<subseteq> {Idle} \<and>
     total waits (m_workers s) \<le> m_semaphore s + to_come (dtor s) (length (m_workers s))) \<and>
     (dtor s = Destroyed \<longrightarrow> set (m_workers s) \<subseteq> {Exited}) \<and>
     (\<forall>k i. dtor s = Joining k \<longrightarrow> i < k \<longrightarrow> m_workers s ! i = Exited)"

lemma total_waits_length: "total waits ws \<le> length ws"
proof (induction ws)
  case (Cons p ws)
  then show ?case by (cases p) auto
qed simp

lemma stop_inv_worker:
  assumes "stop_inv s" and "w < length (m_workers s)" and "m_workers s ! w \<noteq> Exited"
    and "waits p + m_semaphore s \<le> waits (m_workers s ! w) + m_semaphore s' \<or> dtor s = NotYet"
    and "m_workers s' = (m_workers s)[w := p]" and "clients s' = clients s" and "dtor s' = dtor s" and "m_stopping s' = m_stopping s"
  shows "stop_inv s'"
proof -
  have "dtor s \<noteq> Destroyed"
    using assms(3) nth_mem [OF assms(2)] subsetD [of "set (m_workers s)" "{Exited}"] assms(1) by (auto simp: stop_inv_def)
  moreover have "i \<noteq> w" if "dtor s = Joining k" "i < k" for i k using assms(1,3) that by (auto simp: stop_inv_def)
  ultimately show ?thesis
    using assms total_upd [of w "m_workers s" waits p] by (auto simp: stop_inv_def nth_list_update)
qed

lemma stop_inv_step:
  assumes "stop_inv s" and "pool_step l s s'"
  shows "stop_inv s'"
  using assms(2)
proof (cases rule: pool_stepE)
  case enqueues
  then obtain c p where c: "clients s' = (clients s)[c := p]" "c < length (clients s)"
      "dtor s = NotYet \<or> clients s ! c \<noteq> Idle" "m_workers s' = m_workers s" "dtor s' = dtor s"
    by (cases rule: enqueue_stepE) auto
  then have "dtor s = NotYet"
    using assms(1) nth_mem [OF c(2)] subsetD [of "set (clients s)" "{Idle}"] by (auto simp: stop_inv_def)
  then show ?thesis using c by (simp add: stop_inv_def)
next
  case works
  note change = stop_inv_worker [OF assms(1)]
  from works show ?thesis
  proof (cases rule: worker_stepE)
    case (TestStop w)
    then show ?thesis
      by (intro change [of w "if \<not> stop_requested s w then Load else Exited"]) simp_all
  next
    case (LoadStop w)
    then show ?thesis
      using assms(1) by (intro change [of w "if \<not> m_stopping s then Acquire else Exited"]) (auto simp: stop_inv_def)
  next
    case (AcquireSem w) then show ?thesis by (intro change [of w Check]) simp_all
  next
    case (CheckStop w)
    then show ?thesis by (intro change [of w "if stop_requested s w then Empty else Lock"]) simp_all
  next
    case (CheckEmpty w)
    then show ?thesis by (intro change [of w "if m_tasks s = [] then Exited else Lock"]) simp_all
  next
    case (LockWorker w) then show ?thesis by (intro change [of w Crit]) simp_all
  next
    case (Empty w) then show ?thesis by (intro change [of w Test]) simp_all
  next
    case (Take w task rest) then show ?thesis by (intro change [of w "Run task"]) simp_all
  next
    case (Finish w task) then show ?thesis by (intro change [of w Test]) simp_all
  qed
next
  case destroys
  then show ?thesis
  proof (cases rule: dtor_stepE)
    case SetStopping
    then show ?thesis using total_waits_length [of "m_workers s"] by (simp add: stop_inv_def trans_le_add2)
  next
    case (Joined k)
    then show ?thesis using assms(1) by (auto simp: stop_inv_def set_conv_nth)
  next
    case (Join k)
    then show ?thesis using assms(1) by (auto simp: stop_inv_def less_Suc_eq)
  qed (use assms(1) in \<open>auto simp: stop_inv_def\<close>)
qed

section \<open>Work that is left\<close>

text \<open>
  A bound on the steps of a run in which nobody calls enqueue and the destruction does not begin.
  A token is worth one more step than the way of a worker from the semaphore back to it.
\<close>

fun worker_work :: "'a worker \<Rightarrow> nat" where
  "worker_work Test = 2"
| "worker_work Load = 1"
| "worker_work Acquire = 0"
| "worker_work Check = 7"
| "worker_work Empty = 6"
| "worker_work Lock = 5"
| "worker_work Crit = 4"
| "worker_work (Run _) = 3"
| "worker_work Exited = 0"

fun client_work :: "'a client \<Rightarrow> nat" where
  "client_work Idle = 0"
| "client_work (Enter _) = 11"
| "client_work (Inside _) = 10"
| "client_work Release = 9"

fun dtor_work :: "destructor \<Rightarrow> nat \<Rightarrow> nat" where
  "dtor_work NotYet n = 0"
| "dtor_work (ReleaseFor k) n = 12 * (n - k) + n + 3"
| "dtor_work (RequestFor k) n = 12 * (n - (k + 1)) + n + 5"
| "dtor_work (Joining k) n = n - k + 1"
| "dtor_work Destroyed n = 0"

definition pool_work :: "'a pool \<Rightarrow> nat" where
  "pool_work s = 8 * m_semaphore s + total worker_work (m_workers s) + total client_work (clients s) +
     dtor_work (dtor s) (length (m_workers s))"

fun quiet :: "'a pool_label \<Rightarrow> bool" where
  "quiet (Call _ _) = False"
| "quiet SetStopping = False"
| "quiet _ = True"

lemma pool_work_client:
  assumes "c < length (clients s)" and "clients s' = (clients s)[c := p]"
    and "8 * m_semaphore s' + client_work p < 8 * m_semaphore s + client_work (clients s ! c)"
    and "m_workers s' = m_workers s" and "dtor s' = dtor s"
  shows "pool_work s' < pool_work s"
  using assms total_upd [OF assms(1), of client_work p] by (simp add: pool_work_def)

lemma pool_work_worker:
  assumes "w < length (m_workers s)" and "m_workers s' = (m_workers s)[w := p]"
    and "8 * m_semaphore s' + worker_work p < 8 * m_semaphore s + worker_work (m_workers s ! w)"
    and "clients s' = clients s" and "dtor s' = dtor s"
  shows "pool_work s' < pool_work s"
  using assms total_upd [OF assms(1), of worker_work p] by (simp add: pool_work_def)

lemma pool_work_step:
  assumes "pool_step l s s'" and "quiet l"
  shows "pool_work s' < pool_work s"
  using assms(1)
proof (cases rule: pool_stepE)
  case enqueues
  then show ?thesis
  proof (cases rule: enqueue_stepE)
    case (LockCall c x) then show ?thesis by (intro pool_work_client [of c _ _ "Inside x"]) simp_all
  next
    case (Push c x) then show ?thesis by (intro pool_work_client [of c _ _ Release]) simp_all
  next
    case (ReleaseSem c) then show ?thesis by (intro pool_work_client [of c _ _ Idle]) simp_all
  qed (use assms(2) in simp)
next
  case works
  then show ?thesis
  proof (cases rule: worker_stepE)
    case (TestStop w)
    then show ?thesis
      by (intro pool_work_worker [of w _ _ "if \<not> stop_requested s w then Load else Exited"]) simp_all
  next
    case (LoadStop w)
    then show ?thesis by (intro pool_work_worker [of w _ _ "if \<not> m_stopping s then Acquire else Exited"]) simp_all
  next
    case (AcquireSem w) then show ?thesis by (intro pool_work_worker [of w _ _ Check]) simp_all
  next
    case (CheckStop w)
    then show ?thesis by (intro pool_work_worker [of w _ _ "if stop_requested s w then Empty else Lock"]) simp_all
  next
    case (CheckEmpty w)
    then show ?thesis by (intro pool_work_worker [of w _ _ "if m_tasks s = [] then Exited else Lock"]) simp_all
  next
    case (LockWorker w) then show ?thesis by (intro pool_work_worker [of w _ _ Crit]) simp_all
  next
    case (Empty w) then show ?thesis by (intro pool_work_worker [of w _ _ Test]) simp_all
  next
    case (Take w task rest) then show ?thesis by (intro pool_work_worker [of w _ _ "Run task"]) simp_all
  next
    case (Finish w task) then show ?thesis by (intro pool_work_worker [of w _ _ Test]) simp_all
  qed
next
  case destroys
  then show ?thesis using assms(2) by (cases rule: dtor_stepE) (auto simp: pool_work_def)
qed

section \<open>Runs\<close>

definition pool_inv :: "nat \<Rightarrow> 'a pool \<Rightarrow> bool" where
  "pool_inv n s \<longleftrightarrow> order_inv s \<and> mutex_inv s \<and> content_inv s \<and> token_inv s \<and> stop_inv s \<and> length (m_workers s) = n"

lemma pool_inv_start: "pool_inv n (pool_init n m)"
proof -
  have "held client_part (replicate m Idle) = {#}" "held worker_part (replicate n Test) = {#}"
    by (rule held_none, simp)+
  moreover have "total holds_token (replicate n Test) = 0" "total owes_token (replicate m Idle) = 0"
    by (rule total_none, simp)+
  ultimately show ?thesis
    by (simp add: pool_init_def pool_inv_def order_inv_def mutex_inv_def content_inv_def token_inv_def stop_inv_def)
qed

lemma pool_inv_step:
  assumes "pool_inv n s" and "pool_step l s s'"
  shows "pool_inv n s'"
proof -
  have "length (m_workers s') = length (m_workers s)"
    using assms(2) by (cases rule: pool_stepE) (auto elim: enqueue_stepE worker_stepE dtor_stepE)
  then show ?thesis
    using assms(1) order_inv_step [OF _ assms(2)] mutex_inv_step [OF _ assms(2)]
      content_inv_step [OF _ assms(2)] token_inv_step [OF _ assms(2)] stop_inv_step [OF _ assms(2)]
    by (simp add: pool_inv_def)
qed

interpretation pool: terminating_machine "pool_init n m" pool_try "pool_inv n" quiet pool_work for n m
proof
  show "pool_inv n (pool_init n m)" by (rule pool_inv_start)
  show "pool_inv n s'" if "pool_inv n s" "pool_try l s = Some s'" for l s s'
    using that by (auto simp: pool_step_iff [symmetric] intro: pool_inv_step)
  show "pool_work s' < pool_work s" if "pool_inv n s" "quiet l" "pool_try l s = Some s'" for l s s'
    using that(2,3) by (auto simp: pool_step_iff [symmetric] intro: pool_work_step)
qed

text \<open>Where the tasks that were given to enqueue are.\<close>

lemma enqueued_split:
  assumes "pool_inv n s"
  shows "mset (enqueued s) = held client_part (clients s) + mset (m_tasks s) + held worker_part (m_workers s) + mset (finished s)"
proof -
  have "mset (pushed s) = mset (map snd (taken s)) + mset (m_tasks s)" using assms by (simp add: pool_inv_def order_inv_def)
  then show ?thesis using assms by (simp add: pool_inv_def content_inv_def ac_simps)
qed

text \<open>Nothing moves any more in a pool that was destroyed.\<close>

lemma destroyed_stuck:
  assumes "pool_inv n s" and "dtor s = Destroyed"
  shows "pool_try l s = None"
proof (rule ccontr)
  assume "pool_try l s \<noteq> None"
  then obtain s' where "pool_step l s s'" by (auto simp: pool_step_iff)
  moreover have "clients s ! c = Idle" if "c < length (clients s)" for c
    using assms nth_mem [OF that] by (auto simp: pool_inv_def stop_inv_def)
  moreover have "m_workers s ! w = Exited" if "w < length (m_workers s)" for w
    using assms nth_mem [OF that] by (auto simp: pool_inv_def stop_inv_def)
  ultimately show False
    using assms(2) by (cases rule: pool_stepE) (auto elim!: enqueue_stepE worker_stepE dtor_stepE)
qed

section \<open>Where a pool can rest\<close>

definition resting :: "'a pool \<Rightarrow> bool" where
  "resting s \<longleftrightarrow> (\<forall>l s'. quiet l \<longrightarrow> \<not> pool_step l s s')"

lemma pool_rests: "pool_inv n s \<Longrightarrow> \<exists>ls r. pool_exec ls s = Some r \<and> list_all quiet ls \<and> resting r"
  using pool.own_run_rests [of n s] by (fastforce simp: resting_def pool_step_iff list_all_iff)

text \<open>
  A schedule under which the destruction is defined: the members are not destroyed before every
  worker has returned, and no worker looks at the queue while another thread has the mutex. The
  lemmas on states at rest hold already when only the steps of this schedule are impossible.
\<close>

definition polite_try :: "'a pool_label \<Rightarrow> 'a pool \<Rightarrow> 'a pool option" where
  "polite_try l s =
     (if l = DestroyMembers \<and> \<not> set (m_workers s) \<subseteq> {Exited} \<or> (\<exists>w. l = CheckEmpty w) \<and> m_mutex s \<noteq> None
      then None else pool_try l s)"

definition polite_resting :: "'a pool \<Rightarrow> bool" where
  "polite_resting s \<longleftrightarrow> \<not> is_undefined s \<and> (\<forall>l. quiet l \<longrightarrow> polite_try l s = None)"

lemma resting_polite: "resting s \<Longrightarrow> \<not> is_undefined s \<Longrightarrow> polite_resting s"
  by (auto simp: polite_resting_def polite_try_def resting_def pool_step_iff)

lemma polite_no_step:
  assumes "polite_resting s" and "quiet l" and "l = DestroyMembers \<Longrightarrow> set (m_workers s) \<subseteq> {Exited}"
    and "\<And>w. l = CheckEmpty w \<Longrightarrow> m_mutex s = None"
  shows "enqueue_step l s = None" and "worker_step l s = None" and "dtor_step l s = None"
proof -
  have "polite_try l s = None" "\<not> is_undefined s" using assms(1,2) by (simp_all add: polite_resting_def)
  then have "pool_try l s = None" using assms(3,4) by (auto simp: polite_try_def split: if_splits)
  then show "enqueue_step l s = None" "worker_step l s = None" "dtor_step l s = None"
    using \<open>\<not> is_undefined s\<close> by (auto simp: pool_try_def split: option.splits)
qed

lemma resting_client:
  assumes "polite_resting s" and "c < length (clients s)"
  shows "clients s ! c = Idle \<or> (\<exists>x. clients s ! c = Enter x \<and> m_mutex s \<noteq> None)"
  using polite_no_step(1) [OF assms(1), of "LockCall c"] polite_no_step(1) [OF assms(1), of "Push c"]
    polite_no_step(1) [OF assms(1), of "ReleaseSem c"] assms(2)
  by (cases "clients s ! c") (auto simp: client_at_def split: if_split_asm)

lemma resting_worker:
  assumes "polite_resting s" and "w < length (m_workers s)"
  shows "m_workers s ! w = Exited \<or> m_workers s ! w = Acquire \<and> m_semaphore s = 0 \<or>
    (m_workers s ! w = Lock \<or> m_workers s ! w = Empty) \<and> m_mutex s \<noteq> None"
  using polite_no_step(2) [OF assms(1), of "TestStop w"] polite_no_step(2) [OF assms(1), of "LoadStop w"]
    polite_no_step(2) [OF assms(1), of "AcquireSem w"] polite_no_step(2) [OF assms(1), of "CheckStop w"]
    polite_no_step(2) [OF assms(1), of "CheckEmpty w"] polite_no_step(2) [OF assms(1), of "LockWorker w"]
    polite_no_step(2) [OF assms(1), of "Take w"] polite_no_step(2) [OF assms(1), of "Finish w"] assms(2)
  by (cases "m_workers s ! w") (auto simp: worker_at_def split: list.split_asm if_split_asm)

lemma resting_free:
  assumes "polite_resting s" and "mutex_inv s"
  shows "m_mutex s = None"
proof (cases "m_mutex s")
  case (Some t)
  then show ?thesis
  proof (cases t)
    case (W w)
    then have "w < length (m_workers s)" "m_workers s ! w = Crit" using Some assms(2) by (auto simp: mutex_inv_def)
    then show ?thesis using resting_worker [OF assms(1)] by force
  next
    case (C c)
    then have "c < length (clients s)" "\<exists>x. clients s ! c = Inside x" using Some assms(2) by (auto simp: mutex_inv_def)
    then show ?thesis using resting_client [OF assms(1)] by force
  qed
qed

lemma resting_dtor:
  assumes "polite_resting s" and "stop_inv s" and "set (m_workers s) \<subseteq> {Exited}"
  shows "dtor s = NotYet \<or> dtor s = Destroyed"
proof -
  have "m_workers s ! k = Exited" if "k < length (m_workers s)" for k using assms(3) that nth_mem by blast
  then show ?thesis
    using polite_no_step(3) [OF assms(1), of DtorRelease] polite_no_step(3) [OF assms(1), of DtorRequest]
      polite_no_step(3) [OF assms(1), of DestroyMembers] polite_no_step(3) [OF assms(1), of Join] assms(2,3)
    by (cases "dtor s") (auto simp: stop_inv_def worker_at_def split: if_split_asm)
qed

lemma resting_pool:
  assumes "polite_resting s" and "mutex_inv s" and "stop_inv s" and "token_inv s"
  shows "set (clients s) \<subseteq> {Idle} \<and>
    (if dtor s = NotYet then \<forall>p\<in>set (m_workers s). p = Acquire \<and> m_semaphore s = 0
     else dtor s = Destroyed \<and> set (m_workers s) \<subseteq> {Exited})"
proof -
  note free = resting_free [OF assms(1,2)]
  have idle: "set (clients s) \<subseteq> {Idle}"
    using resting_client [OF assms(1)] free by (auto simp: set_conv_nth)
  have rest: "p = Exited \<or> p = Acquire \<and> m_semaphore s = 0" if "p \<in> set (m_workers s)" for p
    using that resting_worker [OF assms(1)] free by (auto simp: set_conv_nth)
  show ?thesis
  proof (cases "dtor s = NotYet")
    case True
    then show ?thesis using idle rest assms(4) by (auto simp: token_inv_def)
  next
    case False
    have "to_come (dtor s) (length (m_workers s)) = 0"
      using polite_no_step(3) [OF assms(1), of DtorRelease] polite_no_step(3) [OF assms(1), of DtorRequest] assms(3)
      by (cases "dtor s") (auto simp: stop_inv_def split: if_split_asm)
    then have "total waits (m_workers s) \<le> m_semaphore s" using assms(3) False by (simp add: stop_inv_def)
    moreover have "waits p \<le> total waits (m_workers s)" if "p \<in> set (m_workers s)" for p
      using that total_nth [of _ "m_workers s" waits] by (auto simp: set_conv_nth)
    ultimately have "set (m_workers s) \<subseteq> {Exited}" using rest by fastforce
    then show ?thesis using idle resting_dtor [OF assms(1,3)] False by simp
  qed
qed

text \<open>Where the schedule has come to rest, nothing else is possible either.\<close>

lemma polite_resting_resting:
  assumes "pool_inv n s" and "polite_resting s"
  shows "resting s"
  unfolding resting_def
proof (intro allI impI notI)
  fix l s' assume l: "quiet l" "pool_step l s s'"
  have inv: "mutex_inv s" "token_inv s" "stop_inv s" using assms(1) by (simp_all add: pool_inv_def)
  note rest = resting_pool [OF assms(2) inv(1,3,2)]
  have idle: "clients s ! c = Idle" if "c < length (clients s)" for c using rest nth_mem [OF that] by blast
  show False
  proof (cases "dtor s = NotYet")
    case True
    then have wait: "m_workers s ! w = Acquire \<and> m_semaphore s = 0" if "w < length (m_workers s)" for w
      using rest nth_mem [OF that] by simp
    show False
      using l(2,1) True idle wait by (cases rule: pool_stepE) (auto elim!: enqueue_stepE worker_stepE dtor_stepE)
  next
    case False
    then show False using rest destroyed_stuck [OF assms(1), of l] l(2) by (simp add: pool_step_iff)
  qed
qed

text \<open>The schedule meets nothing undefined.\<close>

definition polite_inv :: "nat \<Rightarrow> 'a pool \<Rightarrow> bool" where
  "polite_inv n s \<longleftrightarrow> pool_inv n s \<and> \<not> is_undefined s \<and> (gone s \<longrightarrow> set (m_workers s) \<subseteq> {Exited})"

lemma polite_try_step: "polite_try l s = Some s' \<Longrightarrow> pool_step l s s'"
  by (auto simp: polite_try_def pool_step_iff split: if_splits)

lemma polite_inv_step:
  assumes "polite_inv n s" and "polite_try l s = Some s'"
  shows "polite_inv n s'"
proof -
  note step = polite_try_step [OF assms(2)]
  have inv: "pool_inv n s'" using pool_inv_step [OF _ step] assms(1) by (simp add: polite_inv_def)
  have out: "\<not> gone s" if "w < length (m_workers s)" "m_workers s ! w \<noteq> Exited" for w
    using assms(1) nth_mem [OF that(1)] that(2) by (auto simp: polite_inv_def)
  from step show ?thesis
  proof (cases rule: pool_stepE)
    case enqueues
    then show ?thesis using assms(1) inv by (cases rule: enqueue_stepE) (auto simp: polite_inv_def is_undefined_def gone_def)
  next
    case works
    then show ?thesis
      using assms inv out
      by (cases rule: worker_stepE) (auto simp: polite_inv_def is_undefined_def gone_def polite_try_def split: if_splits)
  next
    case destroys
    then show ?thesis
      using assms inv
      by (cases rule: dtor_stepE) (auto simp: polite_inv_def is_undefined_def gone_def polite_try_def split: if_splits)
  qed
qed

interpretation polite: terminating_machine "pool_init n m" polite_try "polite_inv n" quiet pool_work for n m
proof
  show "polite_inv n (pool_init n m)"
    using pool_inv_start [of n m] by (simp add: polite_inv_def is_undefined_def gone_def pool_init_def)
  show "polite_inv n s'" if "polite_inv n s" "polite_try l s = Some s'" for l s s' using that by (rule polite_inv_step)
  show "pool_work s' < pool_work s" if "polite_inv n s" "quiet l" "polite_try l s = Some s'" for l s s'
    using that(2,3) by (auto dest: polite_try_step intro: pool_work_step)
qed

lemma polite_exec: "run_steps polite_try ls s = Some s' \<Longrightarrow> pool_exec ls s = Some s'"
  by (induction ls arbitrary: s) (auto simp: polite_try_def split: option.splits if_splits)

lemma pool_rests_defined:
  assumes "pool_inv n s" and "\<not> is_undefined s" and "\<not> gone s"
  shows "\<exists>ls r. pool_exec ls s = Some r \<and> list_all quiet ls \<and> resting r \<and> \<not> is_undefined r"
proof -
  have start: "polite_inv n s" using assms by (simp add: polite_inv_def)
  then obtain ls r where r: "run_steps polite_try ls s = Some r" "\<forall>l\<in>set ls. quiet l" "\<forall>l. quiet l \<longrightarrow> polite_try l r = None"
    using polite.own_run_rests by blast
  then have "polite_inv n r" using polite.run_inv start by blast
  then have "pool_inv n r" "polite_resting r" using r(3) by (simp_all add: polite_inv_def polite_resting_def)
  then show ?thesis
    using polite_resting_resting polite_exec [OF r(1)] r(2) \<open>polite_inv n r\<close> by (auto simp: polite_inv_def list_all_iff)
qed

text \<open>A pool with a worker that rests before its destruction has run everything.\<close>

lemma resting_all_run:
  assumes "pool_inv n s" and "resting s" and "dtor s = NotYet" and "n > 0"
  shows "m_tasks s = [] \<and> mset (finished s) = mset (enqueued s)"
proof -
  have inv: "mutex_inv s" "token_inv s" "stop_inv s" "length (m_workers s) = n"
    using assms(1) by (simp_all add: pool_inv_def)
  have "polite_resting s" using resting_polite [OF assms(2)] inv(2) assms(3) by (simp add: token_inv_def is_undefined_def)
  then have all: "set (clients s) \<subseteq> {Idle}" "\<forall>p\<in>set (m_workers s). p = Acquire \<and> m_semaphore s = 0"
    using resting_pool [OF _ inv(1,3,2)] assms(3) by simp_all
  have "m_workers s ! 0 \<in> set (m_workers s)" using inv(4) assms(4) by simp
  then have "m_semaphore s = 0" using bspec [OF all(2)] by blast
  moreover have "total holds_token (m_workers s) = 0" "total owes_token (clients s) = 0"
    using all by (auto intro!: total_none)
  ultimately have "m_tasks s = []" using inv(2) assms(3) by (simp add: token_inv_def)
  moreover have "held client_part (clients s) = {#}" "held worker_part (m_workers s) = {#}"
    using all by (auto intro!: held_none)
  ultimately show ?thesis using enqueued_split [OF assms(1)] by simp
qed

section \<open>Properties\<close>

text \<open>The threads that are behind the lock, callers of enqueue and workers alike.\<close>

definition inside :: "'a pool \<Rightarrow> thread set" where
  "inside s = {W w |w. worker_at w s = Some Crit} \<union> {C c |c. \<exists>x. client_at c s = Some (Inside x)}"

lemma inside_owner: "mutex_inv s \<Longrightarrow> inside s = set_option (m_mutex s)"
proof (rule set_eqI)
  fix t assume "mutex_inv s"
  then show "t \<in> inside s \<longleftrightarrow> t \<in> set_option (m_mutex s)"
    by (cases t) (auto simp: inside_def mutex_inv_def worker_at_def client_at_def split: if_splits)
qed

lemma queue_by_owner:
  assumes "mutex_inv s" and "pool_step l s s'" and "m_tasks s' \<noteq> m_tasks s"
  shows "\<exists>t. actor l = Some t \<and> m_mutex s = Some t"
  using assms(2)
proof (cases rule: pool_stepE)
  case enqueues
  then show ?thesis using assms(1,3) by (cases rule: enqueue_stepE) (auto simp: mutex_inv_def)
next
  case works
  then show ?thesis using assms(1,3) by (cases rule: worker_stepE) (auto simp: mutex_inv_def)
next
  case destroys
  then show ?thesis using assms(3) by (cases rule: dtor_stepE) auto
qed

text \<open>
  C32: whatever the interleaving, the workers take the tasks in the order in which they entered the
  queue, each once; every task that was given to enqueue is on its way into the queue, waits in
  it, runs or has run. At most one thread, caller of enqueue or worker, is behind the lock, namely
  the owner of the mutex, and only the owner changes the queue. Before the destruction begins
  nothing is read without the mutex and no destroyed member is used.
\<close>

theorem pool_fifo_once:
  assumes "pool_reach n m s"
  shows "pushed s = map snd (taken s) @ m_tasks s \<and>
    mset (enqueued s) = held client_part (clients s) + mset (m_tasks s) + held worker_part (m_workers s) + mset (finished s) \<and>
    inside s = set_option (m_mutex s) \<and>
    (\<forall>l s'. pool_try l s = Some s' \<and> m_tasks s' \<noteq> m_tasks s \<longrightarrow> (\<exists>t. actor l = Some t \<and> m_mutex s = Some t)) \<and>
    (dtor s = NotYet \<longrightarrow> \<not> dead_access s \<and> \<not> raced s)"
proof -
  have inv: "order_inv s" "mutex_inv s" "token_inv s" using pool.reachable_inv [OF assms] by (simp_all add: pool_inv_def)
  have "\<forall>l s'. pool_try l s = Some s' \<and> m_tasks s' \<noteq> m_tasks s \<longrightarrow> (\<exists>t. actor l = Some t \<and> m_mutex s = Some t)"
    using queue_by_owner [OF inv(2)] unfolding pool_step_iff by blast
  then show ?thesis
    using enqueued_split [OF pool.reachable_inv [OF assms]] inside_owner [OF inv(2)] inv(1,3)
    by (auto simp: order_inv_def token_inv_def)
qed

text \<open>One worker and one caller; the caller gives two tasks, the worker has taken one.\<close>

abbreviation give :: "nat \<Rightarrow> 'a \<Rightarrow> 'a pool_label list" where
  "give c x \<equiv> [Call c x, LockCall c, Push c, ReleaseSem c]"

abbreviation work_on :: "nat \<Rightarrow> 'a pool_label list" where
  "work_on w \<equiv> [TestStop w, LoadStop w, AcquireSem w, CheckStop w, LockWorker w, Take w]"

definition demo_pool :: "nat pool" where
  "demo_pool = the (pool_exec (give 0 7 @ give 0 8 @ work_on 0) (pool_init 1 1))"

lemma demo_pool_reach: "pool_reach 1 1 demo_pool"
proof -
  have "\<not> Option.is_none (pool_exec (give 0 7 @ give 0 8 @ work_on 0) (pool_init 1 1) :: nat pool option)"
    by code_simp
  then show ?thesis unfolding demo_pool_def by (rule the_run_reachable)
qed

theorem pool_fifo_once_witness:
  "pushed demo_pool = [7, 8] \<and> taken demo_pool = [(0, 7)] \<and> mset (enqueued demo_pool) = {#7, 8#}"
proof -
  have a: "pushed demo_pool = [7, 8]" "m_tasks demo_pool = [8]" "taken demo_pool = [(0, 7)]" "finished demo_pool = []"
    "clients demo_pool = [Idle]" "m_workers demo_pool = [Run 7]"
    unfolding demo_pool_def by code_simp+
  from pool_fifo_once [OF demo_pool_reach] a show ?thesis by (simp add: add_mset_commute)
qed



text \<open>
  The destructor breaks what the pool promises. A task that was enqueued before it can be
  dropped, so that its future never gets a value; a worker can use the semaphore after it was
  destroyed, since the members declared after the workers are destroyed before the workers are
  joined; and a worker can read the queue without the mutex while another one takes from it.
\<close>

theorem pool_destruction_flaws:
  "(\<exists>s :: nat pool. pool_reach 1 1 s \<and> dtor s = Destroyed \<and> enqueued s = [7] \<and> taken s = [] \<and> m_tasks s = [7]) \<and>
   (\<exists>s :: nat pool. pool_reach 1 1 s \<and> dead_access s) \<and>
   (\<exists>s :: nat pool. pool_reach 2 1 s \<and> \<not> dead_access s \<and> raced s)"
proof (intro conjI)
  let ?stop = "[DtorRelease, DtorRequest] :: nat pool_label list"
  have run: "pool_reach n m (the (pool_exec ls (pool_init n m)))" if "\<not> Option.is_none (pool_exec ls (pool_init n m))" for n m and ls :: "nat pool_label list"
    using that by (rule the_run_reachable)
  let ?a = "give 0 7 @ SetStopping # TestStop 0 # LoadStop 0 # ?stop @ [DestroyMembers, Join, Join]"
  have "\<not> Option.is_none (pool_exec ?a (pool_init 1 1))" "dtor (the (pool_exec ?a (pool_init 1 1))) = Destroyed"
    "enqueued (the (pool_exec ?a (pool_init 1 1))) = [7]" "taken (the (pool_exec ?a (pool_init 1 1))) = []"
    "m_tasks (the (pool_exec ?a (pool_init 1 1))) = [7]"
    by code_simp+
  then show "\<exists>s :: nat pool. pool_reach 1 1 s \<and> dtor s = Destroyed \<and> enqueued s = [7] \<and> taken s = [] \<and> m_tasks s = [7]"
    using run by blast
  let ?b = "TestStop 0 # LoadStop 0 # SetStopping # ?stop @ [DestroyMembers, AcquireSem 0]"
  have "\<not> Option.is_none (pool_exec ?b (pool_init 1 1))" "dead_access (the (pool_exec ?b (pool_init 1 1)))"
    by code_simp+
  then show "\<exists>s :: nat pool. pool_reach 1 1 s \<and> dead_access s" using run by blast
  let ?c = "[TestStop 0, LoadStop 0, TestStop 1, LoadStop 1] @ give 0 7 @ [AcquireSem 0, CheckStop 0, SetStopping] @ ?stop @ ?stop @
    [AcquireSem 1, LockWorker 0, CheckStop 1, CheckEmpty 1]"
  have "\<not> Option.is_none (pool_exec ?c (pool_init 2 1))" "\<not> dead_access (the (pool_exec ?c (pool_init 2 1)))"
    "raced (the (pool_exec ?c (pool_init 2 1)))"
    by code_simp+
  then show "\<exists>s :: nat pool. pool_reach 2 1 s \<and> \<not> dead_access s \<and> raced s" using run by blast
qed

text \<open>A task that asks for its thread gets the number of the worker that runs it; other threads get -1.\<close>

definition ids_inv :: "'a pool \<Rightarrow> bool" where
  "ids_inv s \<longleftrightarrow> (\<forall>c. t_thread_id s (C c) = -1) \<and> (\<forall>w task. worker_at w s = Some (Run task) \<longrightarrow> t_thread_id s (W w) = int w)"

lemma ids_inv_step:
  assumes "ids_inv s" and "pool_step l s s'"
  shows "ids_inv s'"
  using assms(2)
proof (cases rule: pool_stepE)
  case enqueues
  then show ?thesis using assms(1) by (cases rule: enqueue_stepE) (simp_all add: ids_inv_def worker_at_def)
next
  case works
  then show ?thesis
    using assms(1) by (cases rule: worker_stepE) (auto simp: ids_inv_def worker_at_def nth_list_update split: if_splits)
next
  case destroys
  then show ?thesis using assms(1) by (cases rule: dtor_stepE) (simp_all add: ids_inv_def worker_at_def)
qed

interpretation pool_ids: machine "pool_init n m" pool_try ids_inv for n m
proof
  show "ids_inv (pool_init n m)" by (simp add: ids_inv_def pool_init_def worker_at_def)
  show "ids_inv s'" if "ids_inv s" "pool_try l s = Some s'" for l s s'
    using that by (auto simp: pool_step_iff [symmetric] intro: ids_inv_step)
qed

lemma thread_id_of_task:
  assumes "pool_reach n m s" and "worker_at w s = Some (Run task)"
  shows "get_thread_id (W w) s = decimal (int w) \<and> get_thread_id (C c) s = ''-1''"
proof -
  have "t_thread_id s (W w) = int w" "t_thread_id s (C c) = -1"
    using pool_ids.reachable_inv [OF assms(1)] assms(2) by (simp_all add: ids_inv_def)
  moreover have "decimal (-1) = ''-1''" by (simp add: decimal_def decimal_nat.simps digit_def char_of_def)
  ultimately show ?thesis by (simp add: get_thread_id_def)
qed

text \<open>The pool calls active the tasks that wait, not those that run.\<close>

lemma active_tasks_are_waiting:
  "get_num_active_tasks demo_pool = 1 \<and> m_workers demo_pool = [Run 7]"
  unfolding demo_pool_def by code_simp

lemma small_int32:
  fixes w :: u64
  assumes "unat w < 2 ^ 31"
  shows "sint (ucast w :: 32 word) = int (unat w)"
proof -
  have "int (unat w) < int (2 ^ 31)" using assms by (simp only: of_nat_less_iff)
  then have small: "uint w < 2 ^ 31" by simp
  have "uint (ucast w :: 32 word) = take_bit 32 (uint w)" by (simp add: unsigned_ucast_eq)
  also have "\<dots> = uint w" by (rule take_bit_int_eq_self) (use small in simp_all)
  finally have "uint (ucast w :: 32 word) = uint w" .
  moreover have "signed_take_bit 31 (uint w) = uint w"
    by (rule signed_take_bit_int_eq_self) (use small uint_ge_0 [of w] in linarith)+
  ultimately show ?thesis by (simp add: sint_uint)
qed

text \<open>
  A number of threads that an int can hold gives a pool of as many workers. One that it cannot hold
  is undefined, or gives fewer workers than get_num_threads says.
\<close>

lemma ThreadPool_ctor_small:
  assumes "reserved num_threads" and "unat num_threads < 2 ^ 31"
  shows "ThreadPool_ctor reserved num_threads callers = Some (Inr (pool_init (unat num_threads) callers))"
  using assms small_int32 [OF assms(2)] by (simp add: ThreadPool_ctor_def pool_init_def Let_def)

lemma ThreadPool_ctor_narrows:
  "\<exists>s. ThreadPool_ctor (\<lambda>_. True) (2 ^ 32 + 2) 1 = Some (Inr s) \<and> length (m_workers s) = 2 \<and> get_num_threads s = 2 ^ 32 + 2"
  "ThreadPool_ctor (\<lambda>_. True) (2 ^ 31) 1 = None"
proof -
  have "sint (ucast (2 ^ 32 + 2 :: u64) :: 32 word) = 2" "sint (ucast (2 ^ 31 :: u64) :: 32 word) < 0"
    "unat (2 ^ 32 + 2 :: u64) = 2 ^ 32 + 2"
    by simp_all
  then show "\<exists>s. ThreadPool_ctor (\<lambda>_. True) (2 ^ 32 + 2) 1 = Some (Inr s) \<and> length (m_workers s) = 2 \<and> get_num_threads s = 2 ^ 32 + 2"
    "ThreadPool_ctor (\<lambda>_. True) (2 ^ 31) 1 = None"
    by (simp_all add: ThreadPool_ctor_def pool_init_def get_num_threads_def Let_def)
qed

end
