(* ===== verification/PoolFutures.thy ===== *)
theory PoolFutures
  imports ThreadPool
begin

text \<open>
  The futures of include/quick/thread/ThreadPool.hpp. enqueue binds the function and its arguments,
  wraps the bound call in a packaged_task and returns the future of that. A task of the pool is
  here the number of a packaged_task, and a promise what its future sees: the outcome of the call
  (what it returned or threw) once a worker has run it, and a broken promise when the task is
  destroyed before that, which happens to those that are in the queue when the pool destroys it.
  The steps are those of the pool underneath.
\<close>

section \<open>State and steps\<close>

datatype ('e, 'r) promise = Unset | Ready "'e + 'r" | Broken

datatype 'e future_error = Thrown 'e | Broken_promise

record ('j, 'e, 'r) futures =
  tp :: "nat pool"
  bound_calls :: "'j list"
  promises :: "nat \<Rightarrow> ('e, 'r) promise"
  outcomes :: "(nat \<times> ('e + 'r)) list"

text \<open>The outcomes only record what the tasks have returned or thrown, in the order in which they ended.\<close>

definition futures_init :: "nat \<Rightarrow> nat \<Rightarrow> ('j, 'e, 'r) futures" where
  [run_simps]: "futures_init num_threads callers =
     \<lparr>tp = pool_init num_threads callers, bound_calls = [], promises = (\<lambda>_. Unset), outcomes = []\<rparr>"

text \<open>The destruction of the queue: the tasks in it give up the promises that are not set.\<close>

definition abandon :: "nat list \<Rightarrow> (nat \<Rightarrow> ('e, 'r) promise) \<Rightarrow> nat \<Rightarrow> ('e, 'r) promise" where
  [run_simps]: "abandon ks pr k = (if k \<in> set ks \<and> pr k = Unset then Broken else pr k)"

text \<open>
  Enqueue c j: caller c makes a packaged_task of the bound call j, with its future, and goes on to
  the lock. Ends w o: the call that worker w runs ends with o, and run_task catches what it throws.
\<close>

datatype ('j, 'e, 'r) future_label = Enqueue nat 'j | Ends nat "'e + 'r" | In_pool "nat pool_label"

fun future_step :: "('j, 'e, 'r) future_label \<Rightarrow> ('j, 'e, 'r) futures \<Rightarrow> ('j, 'e, 'r) futures option" where
  "future_step (Enqueue c j) s =
     (case pool_try (Call c (length (bound_calls s))) (tp s) of
        None \<Rightarrow> None
      | Some p \<Rightarrow> Some (s\<lparr>tp := p, bound_calls := bound_calls s @ [j]\<rparr>))"
| "future_step (Ends w r) s =
     (case worker_at w (tp s) of
        Some (Run k) \<Rightarrow>
          (case pool_try (Finish w) (tp s) of
             None \<Rightarrow> None
           | Some p \<Rightarrow> Some (s\<lparr>tp := p, promises := (promises s)(k := Ready r), outcomes := outcomes s @ [(k, r)]\<rparr>))
      | _ \<Rightarrow> None)"
| "future_step (In_pool l) s =
     (case l of
        Call _ _ \<Rightarrow> None
      | Finish _ \<Rightarrow> None
      | _ \<Rightarrow>
          (case pool_try l (tp s) of
             None \<Rightarrow> None
           | Some p \<Rightarrow>
               Some (s\<lparr>tp := p,
                  promises := (if dtor p = Destroyed \<and> dtor (tp s) \<noteq> Destroyed then abandon (m_tasks p) (promises s)
                               else promises s)\<rparr>)))"

text \<open>get on the future of task k: None while it blocks.\<close>

definition future_get :: "nat \<Rightarrow> ('j, 'e, 'r) futures \<Rightarrow> ('e future_error + 'r) option" where
  [run_simps]: "future_get k s =
     (case promises s k of
        Unset \<Rightarrow> None
      | Ready (Inr r) \<Rightarrow> Some (Inr r)
      | Ready (Inl e) \<Rightarrow> Some (Inl (Thrown e))
      | Broken \<Rightarrow> Some (Inl Broken_promise))"

abbreviation future_reach :: "nat \<Rightarrow> nat \<Rightarrow> ('j, 'e, 'r) futures \<Rightarrow> bool" where
  "future_reach n m \<equiv> reachable (futures_init n m) future_step"

lemma pool_try_parts:
  "pool_try (Call c x) p = (if is_undefined p then None else enqueue_step (Call c x) p)"
  "pool_try (Finish w) p = (if is_undefined p then None else worker_step (Finish w) p)"
  by (simp_all add: pool_try_def split: option.splits)

lemma future_stepE [consumes 1, case_names Enqueue Ends In_pool]:
  assumes "future_step l s = Some s'"
  obtains c j p where "pool_try (Call c (length (bound_calls s))) (tp s) = Some p"
      "enqueue_step (Call c (length (bound_calls s))) (tp s) = Some p"
      "s' = s\<lparr>tp := p, bound_calls := bound_calls s @ [j]\<rparr>"
  | w r k p where "worker_at w (tp s) = Some (Run k)" "pool_try (Finish w) (tp s) = Some p" "worker_step (Finish w) (tp s) = Some p"
      "s' = s\<lparr>tp := p, promises := (promises s)(k := Ready r), outcomes := outcomes s @ [(k, r)]\<rparr>"
  | l p where "\<And>c x. l \<noteq> Call c x" "\<And>w. l \<noteq> Finish w" "pool_try l (tp s) = Some p"
      "s' = s\<lparr>tp := p, promises := (if dtor p = Destroyed \<and> dtor (tp s) \<noteq> Destroyed
         then abandon (m_tasks p) (promises s) else promises s)\<rparr>"
proof (cases l)
  case (Enqueue c j)
  then show ?thesis using that(1) [of c _ j] assms by (auto simp: pool_try_parts split: option.splits if_splits)
next
  case (Ends w r)
  then show ?thesis using that(2) [of w _ _ r] assms by (auto simp: pool_try_parts split: option.splits worker.splits if_splits)
next
  case (In_pool m)
  then show ?thesis using that(3) [of m] assms by (cases m) (auto split: option.splits)
qed

interpretation futures_pool: layered_machine "futures_init n m" future_step tp "pool_init n m" pool_try for n m
proof
  show "tp s' = tp s \<or> (\<exists>l. pool_try l (tp s) = Some (tp s'))" if "future_step l s = Some s'" for l and s s' :: "('j, 'e, 'r) futures"
    using that
  proof (cases rule: future_stepE)
    case (Enqueue c j p)
    then show ?thesis by auto
  next
    case (Ends w r k p)
    then show ?thesis by auto
  qed auto
qed (simp add: futures_init_def)

section \<open>The invariant\<close>

definition futures_inv :: "('j, 'e, 'r) futures \<Rightarrow> bool" where
  "futures_inv s \<longleftrightarrow> enqueued (tp s) = [0..<length (bound_calls s)] \<and> finished (tp s) = map fst (outcomes s) \<and>
     (\<forall>k r. promises s k = Ready r \<longleftrightarrow> (k, r) \<in> set (outcomes s)) \<and>
     (\<forall>k. promises s k = Broken \<longleftrightarrow> dtor (tp s) = Destroyed \<and> k \<in> set (m_tasks (tp s)))"

lemma pool_step_record:
  assumes "pool_try l s = Some s'"
  shows "(\<And>c x. l \<noteq> Call c x) \<Longrightarrow> enqueued s' = enqueued s" "(\<And>w. l \<noteq> Finish w) \<Longrightarrow> finished s' = finished s"
    "dtor s \<noteq> Destroyed \<Longrightarrow> dtor s' = Destroyed \<Longrightarrow> m_tasks s' = m_tasks s"
  using assms unfolding pool_step_iff [symmetric]
  by (cases rule: pool_step.cases; auto elim!: enqueue_stepE worker_stepE dtor_stepE)+

text \<open>A task that waits or runs has not ended.\<close>

lemma not_ended:
  assumes "pool_inv n p" and "distinct (enqueued p)"
    and "k \<in> set (m_tasks p) \<or> worker_at w p = Some (Run k) \<or> k \<in># held client_part (clients p)"
  shows "k \<notin> set (finished p)"
proof -
  have run: "k \<in># held worker_part (m_workers p)" if "worker_at w p = Some (Run k)"
    using that held_part [of w "m_workers p" worker_part] by (auto simp: worker_at_def split: if_splits dest: mset_subset_eqD)
  have "count (mset (enqueued p)) k \<le> 1" using assms(2) by (simp add: distinct_count_atmost_1)
  then have "count (held client_part (clients p)) k + count (mset (m_tasks p)) k +
      count (held worker_part (m_workers p)) k + count (mset (finished p)) k \<le> 1"
    unfolding enqueued_split [OF assms(1)] by simp
  moreover have "count (held client_part (clients p)) k + count (mset (m_tasks p)) k + count (held worker_part (m_workers p)) k > 0"
    using assms(3) run by auto
  ultimately have "count (mset (finished p)) k = 0" by linarith
  then show ?thesis by simp
qed

lemma futures_inv_step:
  assumes inv: "futures_inv s" "pool_inv n (tp s)" and step: "future_step l s = Some s'"
  shows "futures_inv s'"
  using step
proof (cases rule: future_stepE)
  case (Enqueue c j p)
  from Enqueue(2) show ?thesis using inv(1) Enqueue(3) by (cases rule: enqueue_stepE) (auto simp: futures_inv_def)
next
  case (Ends w r k p)
  have "distinct (enqueued (tp s))" using inv(1) by (simp add: futures_inv_def)
  then have new: "k \<notin> fst ` set (outcomes s)"
    using not_ended [OF inv(2), of k w] Ends(1) inv(1) by (simp add: futures_inv_def)
  have p: "enqueued p = enqueued (tp s)" "finished p = finished (tp s) @ [k]" "dtor p = dtor (tp s)" "m_tasks p = m_tasks (tp s)"
    using Ends(1,3) by (auto simp: worker_at_def split: if_splits)
  have "dtor (tp s) \<noteq> Destroyed" using destroyed_stuck [OF inv(2), of "Finish w"] Ends(2) by auto
  then show ?thesis using inv(1) new p Ends(4) by (force simp: futures_inv_def)
next
  case (In_pool m p)
  have alive: "dtor (tp s) \<noteq> Destroyed" using destroyed_stuck [OF inv(2), of m] In_pool(3) by auto
  have same: "enqueued p = enqueued (tp s)" "finished p = finished (tp s)"
    using pool_step_record(1,2) [OF In_pool(3)] In_pool(1,2) by blast+
  have unset: "promises s k = Unset" if "k \<in> set (m_tasks (tp s))" for k
  proof -
    have "k \<notin> fst ` set (outcomes s)" using not_ended [OF inv(2), of k] that inv(1) by (simp add: futures_inv_def)
    then have "promises s k \<noteq> Ready r" for r using inv(1) by (force simp: futures_inv_def)
    moreover have "promises s k \<noteq> Broken" using inv(1) alive by (simp add: futures_inv_def)
    ultimately show ?thesis by (cases "promises s k") auto
  qed
  then have not_ready: "(k, r) \<notin> set (outcomes s)" if "k \<in> set (m_tasks (tp s))" for k r
    using that inv(1) by (force simp: futures_inv_def)
  show ?thesis
  proof (cases "dtor p = Destroyed")
    case True
    have "m_tasks p = m_tasks (tp s)" using pool_step_record(3) [OF In_pool(3) alive True] .
    moreover have "abandon (m_tasks (tp s)) (promises s) k = (if k \<in> set (m_tasks (tp s)) then Broken else promises s k)" for k
      using unset by (simp add: abandon_def)
    ultimately show ?thesis using inv(1) not_ready True alive same In_pool(4) by (auto simp: futures_inv_def)
  next
    case False
    then show ?thesis using inv(1) alive same In_pool(4) by (simp add: futures_inv_def)
  qed
qed

interpretation futures: machine "futures_init n m" future_step "\<lambda>s. pool_inv n (tp s) \<and> futures_inv s" for n m
proof
  show "pool_inv n (tp (futures_init n m)) \<and> futures_inv (futures_init n m)"
    by (simp add: futures_inv_def run_simps pool_inv_start [unfolded pool_init_def])
next
  fix l and s s' :: "('j, 'e, 'r) futures"
  assume inv: "pool_inv n (tp s) \<and> futures_inv s" and step: "future_step l s = Some s'"
  have "pool_inv n (tp s')"
    using futures_pool.step_below [OF step] inv by (auto intro: pool_inv_step simp: pool_step_iff)
  with inv step show "pool_inv n (tp s') \<and> futures_inv s'" by (blast intro: futures_inv_step)
qed

section \<open>Properties\<close>

text \<open>
  C34: What a future gives is what became of its task. get returns what the bound call returned and
  throws what it threw, of one execution only; it reports a broken promise when, and only when, the
  pool was destroyed with the task in its queue; and it blocks for ever neither on a pool that was
  destroyed nor, before the destruction begins, on one that has come to rest and has a worker.
\<close>

theorem futures_kept:
  assumes "future_reach n m s" and "k < length (bound_calls s)"
  shows "distinct (map fst (outcomes s)) \<and>
    (future_get k s = Some (Inr x) \<longleftrightarrow> (k, Inr x) \<in> set (outcomes s)) \<and>
    (future_get k s = Some (Inl (Thrown e)) \<longleftrightarrow> (k, Inl e) \<in> set (outcomes s)) \<and>
    (future_get k s = Some (Inl Broken_promise) \<longleftrightarrow> dtor (tp s) = Destroyed \<and> k \<in> set (m_tasks (tp s))) \<and>
    (future_get k s = None \<longrightarrow> dtor (tp s) \<noteq> Destroyed \<and> (dtor (tp s) = NotYet \<and> n > 0 \<longrightarrow> \<not> resting (tp s)))"
proof -
  have inv: "pool_inv n (tp s)" "futures_inv s" using futures.reachable_inv [OF assms(1)] by simp_all
  have split: "mset [0..<length (bound_calls s)] = held client_part (clients (tp s)) + mset (m_tasks (tp s)) +
      held worker_part (m_workers (tp s)) + mset (finished (tp s))"
    using enqueued_split [OF inv(1)] inv(2) by (simp add: futures_inv_def)
  have ended: "promises s k \<noteq> Unset" if "k \<in> set (finished (tp s))"
    using that inv(2) by (force simp: futures_inv_def)
  have "distinct (finished (tp s))" by (rule distinct_part [OF split]) simp
  moreover have "dtor (tp s) \<noteq> Destroyed" if "promises s k = Unset"
  proof
    assume d: "dtor (tp s) = Destroyed"
    then have "held client_part (clients (tp s)) = {#}" "held worker_part (m_workers (tp s)) = {#}"
      using inv(1) by (auto simp: pool_inv_def stop_inv_def intro!: held_none)
    then have "k \<in> set (m_tasks (tp s)) \<or> k \<in> set (finished (tp s))"
      using arg_cong [OF split, of set_mset] assms(2) by auto
    moreover have "k \<notin> set (m_tasks (tp s))" using that d inv(2) by (force simp: futures_inv_def)
    ultimately show False using ended that by blast
  qed
  moreover have "\<not> resting (tp s)" if "promises s k = Unset" "dtor (tp s) = NotYet" "n > 0"
  proof
    assume "resting (tp s)"
    then have "mset (finished (tp s)) = mset [0..<length (bound_calls s)]"
      using resting_all_run [OF inv(1) _ that(2,3)] inv(2) by (simp add: futures_inv_def)
    from arg_cong [OF this, of set_mset] have "k \<in> set (finished (tp s))" using assms(2) by simp
    then show False using ended that(1) by blast
  qed
  moreover have "finished (tp s) = map fst (outcomes s)" "\<And>r. (k, r) \<in> set (outcomes s) \<longleftrightarrow> promises s k = Ready r"
    "promises s k = Broken \<longleftrightarrow> dtor (tp s) = Destroyed \<and> k \<in> set (m_tasks (tp s))"
    using inv(2) by (simp_all add: futures_inv_def)
  ultimately show ?thesis
    by (cases "promises s k") (auto simp: future_get_def split: sum.splits)
qed

text \<open>
  One worker and one caller, that enqueues three calls. The first returns, the second throws, and
  the third is still in the queue when the pool is destroyed.
\<close>

abbreviation demo_give :: "string \<Rightarrow> (string, string, nat) future_label list" where
  "demo_give j \<equiv> Enqueue 0 j # map In_pool [LockCall 0, Push 0, ReleaseSem 0]"

abbreviation demo_work :: "string + nat \<Rightarrow> (string, string, nat) future_label list" where
  "demo_work r \<equiv> map In_pool (work_on 0) @ [Ends 0 r]"

definition demo_futures :: "(string, string, nat) futures" where
  "demo_futures = the (run_steps future_step
     (demo_give ''f'' @ demo_give ''g'' @ demo_give ''h'' @ demo_work (Inr 5) @ demo_work (Inl ''bad'') @
      map In_pool [SetStopping, TestStop 0, LoadStop 0, DtorRelease, DtorRequest, DestroyMembers, Join, Join]) (futures_init 1 1))"

lemma demo_futures_reach: "future_reach 1 1 demo_futures"
proof -
  have "\<not> Option.is_none (run_steps future_step
     (demo_give ''f'' @ demo_give ''g'' @ demo_give ''h'' @ demo_work (Inr 5) @ demo_work (Inl ''bad'') @
      map In_pool [SetStopping, TestStop 0, LoadStop 0, DtorRelease, DtorRequest, DestroyMembers, Join, Join]) (futures_init 1 1))"
    by code_simp
  then show ?thesis unfolding demo_futures_def by (rule the_run_reachable)
qed

theorem futures_kept_witness:
  "future_get 0 demo_futures = Some (Inr 5) \<and> future_get 1 demo_futures = Some (Inl (Thrown ''bad'')) \<and>
   future_get 2 demo_futures = Some (Inl Broken_promise)"
proof -
  have "outcomes demo_futures = [(0, Inr 5), (1, Inl ''bad'')]" "length (bound_calls demo_futures) = 3"
    "dtor (tp demo_futures) = Destroyed" "m_tasks (tp demo_futures) = [2]"
    unfolding demo_futures_def by code_simp+
  then show ?thesis
    using futures_kept [OF demo_futures_reach, of 0 5] futures_kept [OF demo_futures_reach, of 1 _ "''bad''"]
      futures_kept [OF demo_futures_reach, of 2] by simp
qed

end
