(* ===== verification/Logger.thy ===== *)
theory Logger
  imports Decimal "HOL-Library.Signed_Division"
begin

text \<open>
  Logger of include/quick/utils/Logger.hh and its facade of SimpleLogger.hh: the text of a line,
  the singleton of each tag, and the threads that write lines to the one standard output. The
  clock and its conversion to local time are parameters of a call; the arguments to be printed
  come as the strings that their operator<< writes.
\<close>

section \<open>A line\<close>

datatype Level = INFO | DEBUG | ERROR | WARN

fun level_to_string :: "Level \<Rightarrow> string" where
  "level_to_string INFO = ''INFO''"
| "level_to_string DEBUG = ''DEBUG''"
| "level_to_string ERROR = ''ERROR''"
| "level_to_string WARN = ''WARN''"

definition esc :: string where
  "esc = [CHR 0x1B]"

fun level_to_color :: "Level \<Rightarrow> string" where
  "level_to_color INFO = esc @ ''[32m''"
| "level_to_color DEBUG = esc @ ''[36m''"
| "level_to_color ERROR = esc @ ''[31m''"
| "level_to_color WARN = esc @ ''[33m''"

text \<open>Local time, and the milliseconds of the current second.\<close>

record log_time =
  tm_hour :: int
  tm_min :: int
  tm_sec :: int
  millis :: int

text \<open>
  The reading of the system clock, in nanoseconds since the epoch: the seconds go through the
  library's conversion to local time, the milliseconds are those of the remainder. Both divisions
  of the clock's library truncate.
\<close>

definition log_now :: "(int \<Rightarrow> int \<times> int \<times> int) \<Rightarrow> int \<Rightarrow> log_time" where
  [run_simps]: "log_now localtime now =
     (let curr_time = now sdiv 10 ^ 9; ms = (now smod 10 ^ 9) sdiv 10 ^ 6
      in case localtime curr_time of (h, m, s) \<Rightarrow> \<lparr>tm_hour = h, tm_min = m, tm_sec = s, millis = ms\<rparr>)"

definition two_digits :: "int \<Rightarrow> string" where
  [run_simps]: "two_digits n = (if n < 10 then ''0'' else []) @ decimal n"

definition log_line :: "string \<Rightarrow> Level \<Rightarrow> log_time \<Rightarrow> string \<Rightarrow> int \<Rightarrow> string list \<Rightarrow> string" where
  [run_simps]: "log_line m_name level now func line args =
     level_to_color level @ ''['' @
     two_digits (tm_hour now) @ '':'' @ two_digits (tm_min now) @ '':'' @ two_digits (tm_sec now) @ ''.'' @ decimal (millis now) @
     '']'' @ ''['' @ level_to_string level @ '']'' @ ''['' @ m_name @ ''::'' @ func @ '':'' @ decimal line @ ''] '' @
     concat args @ esc @ ''[0m'' @ [CHR 0x0A]"

section \<open>The loggers\<close>

text \<open>One object for each tag, made by the first call, which also gives it its name.\<close>

type_synonym 'g loggers = "'g \<Rightarrow> string option"

definition get_instance :: "'g \<Rightarrow> string \<Rightarrow> 'g loggers \<Rightarrow> string \<times> 'g loggers" where
  [run_simps]: "get_instance tag name ls =
     (case ls tag of Some m_name \<Rightarrow> (m_name, ls) | None \<Rightarrow> (name, ls(tag \<mapsto> name)))"

text \<open>The four levels of a logger, named by the object's name, append a line to the output.\<close>

definition info :: "string \<Rightarrow> log_time \<Rightarrow> string \<Rightarrow> int \<Rightarrow> string list \<Rightarrow> string \<Rightarrow> string" where
  [run_simps]: "info m_name now func line args out = out @ log_line m_name INFO now func line args"

definition error :: "string \<Rightarrow> log_time \<Rightarrow> string \<Rightarrow> int \<Rightarrow> string list \<Rightarrow> string \<Rightarrow> string" where
  [run_simps]: "error m_name now func line args out = out @ log_line m_name ERROR now func line args"

definition debug :: "string \<Rightarrow> log_time \<Rightarrow> string \<Rightarrow> int \<Rightarrow> string list \<Rightarrow> string \<Rightarrow> string" where
  [run_simps]: "debug m_name now func line args out = out @ log_line m_name DEBUG now func line args"

definition warn :: "string \<Rightarrow> log_time \<Rightarrow> string \<Rightarrow> int \<Rightarrow> string list \<Rightarrow> string \<Rightarrow> string" where
  [run_simps]: "warn m_name now func line args out = out @ log_line m_name WARN now func line args"

section \<open>The facade\<close>

text \<open>The facade keeps one logger, of a tag of its own; the output is part of the state.\<close>

definition impl_logger :: "unit loggers \<Rightarrow> string \<times> unit loggers" where
  [run_simps]: "impl_logger ls = get_instance () ''GenericLogger'' ls"

definition init :: "string \<Rightarrow> unit loggers \<Rightarrow> unit loggers" where
  [run_simps]: "init name ls = snd (get_instance () name ls)"

text \<open>Where a call stands: the function and the line of its source location.\<close>

record source_location =
  function_name :: string
  loc_line :: "32 word"

definition simple_info :: "log_time \<Rightarrow> source_location \<Rightarrow> string list \<Rightarrow> unit loggers \<times> string \<Rightarrow> unit loggers \<times> string" where
  [run_simps]: "simple_info now loc args = (\<lambda>(ls, out).
     case impl_logger ls of (m_name, ls) \<Rightarrow> (ls, info m_name now (function_name loc) (sint (loc_line loc)) args out))"

definition simple_debug :: "log_time \<Rightarrow> source_location \<Rightarrow> string list \<Rightarrow> unit loggers \<times> string \<Rightarrow> unit loggers \<times> string" where
  [run_simps]: "simple_debug now loc args = (\<lambda>(ls, out).
     case impl_logger ls of (m_name, ls) \<Rightarrow> (ls, debug m_name now (function_name loc) (sint (loc_line loc)) args out))"

definition simple_error :: "log_time \<Rightarrow> source_location \<Rightarrow> string list \<Rightarrow> unit loggers \<times> string \<Rightarrow> unit loggers \<times> string" where
  [run_simps]: "simple_error now loc args = (\<lambda>(ls, out).
     case impl_logger ls of (m_name, ls) \<Rightarrow> (ls, error m_name now (function_name loc) (sint (loc_line loc)) args out))"

definition simple_warn :: "log_time \<Rightarrow> source_location \<Rightarrow> string list \<Rightarrow> unit loggers \<times> string \<Rightarrow> unit loggers \<times> string" where
  [run_simps]: "simple_warn now loc args = (\<lambda>(ls, out).
     case impl_logger ls of (m_name, ls) \<Rightarrow> (ls, warn m_name now (function_name loc) (sint (loc_line loc)) args out))"

datatype log_call = Init string | Say Level log_time source_location "string list"

fun log_exec :: "log_call \<Rightarrow> unit loggers \<times> string \<Rightarrow> unit loggers \<times> string" where
  "log_exec (Init name) (ls, out) = (init name ls, out)"
| "log_exec (Say INFO now loc args) s = simple_info now loc args s"
| "log_exec (Say DEBUG now loc args) s = simple_debug now loc args s"
| "log_exec (Say ERROR now loc args) s = simple_error now loc args s"
| "log_exec (Say WARN now loc args) s = simple_warn now loc args s"

text \<open>The name that a sequence of calls prints: that of its first call.\<close>

fun first_name :: "log_call list \<Rightarrow> string" where
  "first_name (Init name # _) = name"
| "first_name _ = ''GenericLogger''"

fun spoken :: "string \<Rightarrow> log_call \<Rightarrow> string" where
  "spoken name (Init _) = []"
| "spoken name (Say level now loc args) = log_line name level now (function_name loc) (sint (loc_line loc)) args"

lemma log_exec_named:
  "ls () = Some name \<Longrightarrow> fold log_exec cs (ls, out) = (ls, out @ concat (map (spoken name) cs))"
proof (induction cs arbitrary: out)
  case (Cons c cs)
  then show ?case
    by (cases "(c, (ls, out))" rule: log_exec.cases) (auto simp: run_simps)
qed simp

lemma log_exec_first:
  "log_exec c (\<lambda>_. None, out) = ([() \<mapsto> first_name (c # cs)], out @ spoken (first_name (c # cs)) c)"
  by (cases "(c, (\<lambda>_ :: unit. None :: string option, out))" rule: log_exec.cases) (auto simp: run_simps)

section \<open>A line says what was logged\<close>

definition time_ok :: "log_time \<Rightarrow> bool" where
  "time_ok t \<longleftrightarrow> 0 \<le> tm_hour t \<and> 0 \<le> tm_min t \<and> 0 \<le> tm_sec t \<and> 0 \<le> millis t"

definition plain :: "string \<Rightarrow> bool" where
  "plain s \<longleftrightarrow> CHR '':'' \<notin> set s"

lemma level_to_color_inject: "level_to_color a @ x = level_to_color b @ y \<Longrightarrow> a = b \<and> x = y"
  by (cases a; cases b) (simp_all add: esc_def)

lemma two_digits_chars: "0 \<le> n \<Longrightarrow> c \<in> set (two_digits n) \<Longrightarrow> is_digit c"
  using decimal_chars [of n c] by (auto simp: two_digits_def is_digit_def char_code_def split: if_splits)

lemma two_digits_inject:
  assumes "two_digits m = two_digits n" and "0 \<le> m" and "0 \<le> n"
  shows "m = n"
proof -
  have reads: "digits_value (two_digits k) = k" if "0 \<le> k" for k
    using that decimal_nat_digits [of "nat k"] by (simp add: two_digits_def decimal_def digits_value_def char_code_def)
  have "digits_value (two_digits m) = digits_value (two_digits n)" by (simp only: assms(1))
  then show ?thesis by (simp only: reads [OF assms(2)] reads [OF assms(3)])
qed

lemma cut_two_digits:
  assumes "two_digits m @ c # ys = two_digits n @ c # ys'" and "0 \<le> m" and "0 \<le> n" and "\<not> is_digit c"
  shows "m = n \<and> ys = ys'"
  using cut [OF assms(1)] two_digits_chars [of m c] two_digits_chars [of n c] two_digits_inject [of m n] assms(2-4) by blast

lemma cut_decimal:
  assumes "decimal m @ c # ys = decimal n @ c # ys'" and "0 \<le> m" and "0 \<le> n" and "\<not> is_digit c"
  shows "m = n \<and> ys = ys'"
  using cut [OF assms(1)] decimal_chars [of m c] decimal_chars [of n c] decimal_inject [of m n] assms(2-4) by blast

lemma separators: "\<not> is_digit CHR '':''" "\<not> is_digit CHR ''.''" "\<not> is_digit CHR '']''"
  by code_simp+

lemma time_inject:
  assumes "two_digits (tm_hour t) @ CHR '':'' # two_digits (tm_min t) @ CHR '':'' # two_digits (tm_sec t) @
      CHR ''.'' # decimal (millis t) @ CHR '']'' # rest =
    two_digits (tm_hour t') @ CHR '':'' # two_digits (tm_min t') @ CHR '':'' # two_digits (tm_sec t') @
      CHR ''.'' # decimal (millis t') @ CHR '']'' # rest'"
    and "time_ok t" and "time_ok t'"
  shows "t = t' \<and> rest = rest'"
proof -
  note ok = assms(2,3) [unfolded time_ok_def]
  have h: "tm_hour t = tm_hour t' \<and>
    two_digits (tm_min t) @ CHR '':'' # two_digits (tm_sec t) @ CHR ''.'' # decimal (millis t) @ CHR '']'' # rest =
    two_digits (tm_min t') @ CHR '':'' # two_digits (tm_sec t') @ CHR ''.'' # decimal (millis t') @ CHR '']'' # rest'"
    by (rule cut_two_digits [OF assms(1)]) (use ok separators in simp_all)
  have m: "tm_min t = tm_min t' \<and>
    two_digits (tm_sec t) @ CHR ''.'' # decimal (millis t) @ CHR '']'' # rest =
    two_digits (tm_sec t') @ CHR ''.'' # decimal (millis t') @ CHR '']'' # rest'"
    by (rule cut_two_digits [OF conjunct2 [OF h]]) (use ok separators in simp_all)
  have s: "tm_sec t = tm_sec t' \<and> decimal (millis t) @ CHR '']'' # rest = decimal (millis t') @ CHR '']'' # rest'"
    by (rule cut_two_digits [OF conjunct2 [OF m]]) (use ok separators in simp_all)
  have "millis t = millis t' \<and> rest = rest'"
    by (rule cut_decimal [OF conjunct2 [OF s]]) (use ok separators in simp_all)
  then show ?thesis using h m s by (cases t; cases t') simp
qed

lemma location_inject:
  assumes "name @ CHR '':'' # CHR '':'' # func @ CHR '':'' # decimal line @ CHR '']'' # rest =
      name' @ CHR '':'' # CHR '':'' # func' @ CHR '':'' # decimal line' @ CHR '']'' # rest'"
    and "plain name" and "plain name'" and "plain func" and "plain func'" and "0 \<le> line" and "0 \<le> line'"
  shows "name = name' \<and> func = func' \<and> line = line' \<and> rest = rest'"
proof -
  have n: "name = name' \<and> CHR '':'' # func @ CHR '':'' # decimal line @ CHR '']'' # rest =
      CHR '':'' # func' @ CHR '':'' # decimal line' @ CHR '']'' # rest'"
    by (rule cut [OF assms(1)]) (use assms(2,3) in \<open>simp_all add: plain_def\<close>)
  then have f: "func = func' \<and> decimal line @ CHR '']'' # rest = decimal line' @ CHR '']'' # rest'"
    by (intro cut) (use assms(4,5) in \<open>simp_all add: plain_def\<close>)
  have "line = line' \<and> rest = rest'"
    by (rule cut_decimal [OF conjunct2 [OF f] assms(6,7) separators(3)])
  then show ?thesis using n f by blast
qed

lemma log_line_cons:
  "log_line m_name level now func line args = level_to_color level @ CHR ''['' #
     two_digits (tm_hour now) @ CHR '':'' # two_digits (tm_min now) @ CHR '':'' # two_digits (tm_sec now) @
     CHR ''.'' # decimal (millis now) @ CHR '']'' # CHR ''['' # level_to_string level @ CHR '']'' # CHR ''['' #
     m_name @ CHR '':'' # CHR '':'' # func @ CHR '':'' # decimal line @ CHR '']'' # CHR '' '' # concat args @ esc @ ''[0m'' @ [CHR 0x0A]"
  by (simp add: log_line_def)

text \<open>
  A line of the log determines everything that was logged: two calls write the same text only
  with the same level, the same time, the same logger and function, the same line number and the
  same printed arguments, as long as the names hold no colon.
\<close>

theorem log_line_faithful:
  assumes "log_line name level now func line args = log_line name' level' now' func' line' args'"
    and "plain name" and "plain name'" and "plain func" and "plain func'"
    and "time_ok now" and "time_ok now'" and "0 \<le> line" and "0 \<le> line'"
  shows "name = name' \<and> level = level' \<and> now = now' \<and> func = func' \<and> line = line' \<and> concat args = concat args'"
proof -
  note line = conjunct2 [OF level_to_color_inject [OF assms(1) [unfolded log_line_cons]]]
  have level: "level = level'" using level_to_color_inject [OF assms(1) [unfolded log_line_cons]] by blast
  have "now = now' \<and> CHR ''['' # level_to_string level @ CHR '']'' # CHR ''['' #
     name @ CHR '':'' # CHR '':'' # func @ CHR '':'' # decimal line @ CHR '']'' # CHR '' '' # concat args @ esc @ ''[0m'' @ [CHR 0x0A] =
     CHR ''['' # level_to_string level' @ CHR '']'' # CHR ''['' #
     name' @ CHR '':'' # CHR '':'' # func' @ CHR '':'' # decimal line' @ CHR '']'' # CHR '' '' # concat args' @ esc @ ''[0m'' @ [CHR 0x0A]"
    by (rule time_inject [OF _ assms(6,7)]) (use line in simp)
  then have time: "now = now'" and rest:
    "name @ CHR '':'' # CHR '':'' # func @ CHR '':'' # decimal line @ CHR '']'' # CHR '' '' # concat args @ esc @ ''[0m'' @ [CHR 0x0A] =
     name' @ CHR '':'' # CHR '':'' # func' @ CHR '':'' # decimal line' @ CHR '']'' # CHR '' '' # concat args' @ esc @ ''[0m'' @ [CHR 0x0A]"
    using level by simp_all
  from location_inject [OF rest assms(2-5,8,9)] show ?thesis using level time by simp
qed

theorem log_line_faithful_witness:
  "log_line ''TcpServer'' INFO \<lparr>tm_hour = 9, tm_min = 5, tm_sec = 30, millis = 7\<rparr> ''start'' 86 [''up''] \<noteq>
   log_line ''TcpServer'' INFO \<lparr>tm_hour = 9, tm_min = 5, tm_sec = 30, millis = 70\<rparr> ''start'' 86 [''up'']"
  using log_line_faithful [of "''TcpServer''" INFO "\<lparr>tm_hour = 9, tm_min = 5, tm_sec = 30, millis = 7\<rparr>" "''start''" 86 "[''up'']"
    "''TcpServer''" INFO "\<lparr>tm_hour = 9, tm_min = 5, tm_sec = 30, millis = 70\<rparr>" "''start''" 86 "[''up'']"]
  by (auto simp: plain_def time_ok_def)

text \<open>
  the facade prints every line, of every level, under one name: the one that init gave when it
  was the first call, and GenericLogger otherwise. A later init changes nothing.
\<close>

theorem facade_one_name:
  assumes "cs \<noteq> []"
  shows "fold log_exec cs (\<lambda>_. None, out) = ([() \<mapsto> first_name cs], out @ concat (map (spoken (first_name cs)) cs))"
proof -
  obtain c rest where cs: "cs = c # rest" using assms by (cases cs) auto
  show ?thesis
    using log_exec_named [of "[() \<mapsto> first_name cs]" "first_name cs" rest "out @ spoken (first_name cs) c"]
    by (simp add: cs log_exec_first [of c out rest])
qed

theorem facade_one_name_witness:
  "fst (fold log_exec [Say WARN \<lparr>tm_hour = 1, tm_min = 2, tm_sec = 3, millis = 4\<rparr> \<lparr>function_name = ''main'', loc_line = 5\<rparr> [''x''],
     Init ''Late''] (\<lambda>_. None, [])) () = Some ''GenericLogger''"
  using facade_one_name [of "[Say WARN \<lparr>tm_hour = 1, tm_min = 2, tm_sec = 3, millis = 4\<rparr> \<lparr>function_name = ''main'', loc_line = 5\<rparr> [''x''],
     Init ''Late'']" "[]"] by simp

text \<open>The milliseconds of a clock at or after the epoch are below 1000, and the time can be read back.\<close>

lemma log_now_ok:
  assumes "0 \<le> now" and "localtime (now div 10 ^ 9) = (h, m, s)" and "0 \<le> h" and "0 \<le> m" and "0 \<le> s"
  shows "time_ok (log_now localtime now) \<and> millis (log_now localtime now) < 1000"
proof -
  have pos: "k sdiv l = k div l" "k smod l = k mod l" if "0 \<le> k" "0 < l" for k l :: int
    using that by (simp_all add: signed_divide_int_def signed_modulo_int_def sgn_if)
  have "now sdiv 10 ^ 9 = now div 10 ^ 9" "(now smod 10 ^ 9) sdiv 10 ^ 6 = (now mod 10 ^ 9) div 10 ^ 6"
    using assms(1) by (simp_all add: pos)
  moreover have "(now mod 10 ^ 9) div 10 ^ 6 < 1000" "0 \<le> (now mod 10 ^ 9) div 10 ^ 6" by simp_all
  ultimately show ?thesis using assms by (simp add: log_now_def time_ok_def)
qed

text \<open>The milliseconds are not padded: half a second and five milliseconds look alike to a reader of decimals.\<close>

lemma millis_not_padded:
  "log_line ''L'' INFO \<lparr>tm_hour = 1, tm_min = 2, tm_sec = 3, millis = 5\<rparr> ''f'' 1 [] =
     esc @ ''[32m[01:02:03.5][INFO][L::f:1] '' @ esc @ ''[0m'' @ [CHR 0x0A]"
  by code_simp

end
