(* ===== verification/LogThreads.thy ===== *)
theory LogThreads
  imports Logger Machine
begin

text \<open>
  Threads that log through the loggers of include/quick/utils/Logger.hh. A call formats its line
  first, takes the mutex of its logger, writes the line to the standard output and flushes it, and
  lets the mutex go. Each logger (each tag) has a mutex of its own and the output is one: a step
  puts one character, marked with the logger it comes from.
\<close>

datatype log_pc = Out | Locking nat string | Writing nat string

record log_threads =
  pcs :: "log_pc list"
  m_log_mutex :: "nat \<Rightarrow> nat option"
  cout :: "(nat \<times> char) list"
  log_lines :: "(nat \<times> string) list"

text \<open>log_lines only records which lines got the mutex of their logger, in this order.\<close>

definition log_threads_init :: "nat \<Rightarrow> log_threads" where
  [run_simps]: "log_threads_init n = \<lparr>pcs = replicate n Out, m_log_mutex = (\<lambda>_. None), cout = [], log_lines = []\<rparr>"

definition pc_of :: "nat \<Rightarrow> log_threads \<Rightarrow> log_pc option" where
  [run_simps]: "pc_of t s = (if t < length (pcs s) then Some (pcs s ! t) else None)"

datatype log_label = CallLog nat nat string | LockLog nat | Put nat | UnlockLog nat

fun log_step :: "log_label \<Rightarrow> log_threads \<Rightarrow> log_threads option" where
  "log_step (CallLog t g line) s =
     (if pc_of t s = Some Out then Some (s\<lparr>pcs := (pcs s)[t := Locking g line]\<rparr>) else None)"
| "log_step (LockLog t) s =
     (case pc_of t s of
        Some (Locking g line) \<Rightarrow>
          if m_log_mutex s g = None
          then Some (s\<lparr>pcs := (pcs s)[t := Writing g line], m_log_mutex := (m_log_mutex s)(g \<mapsto> t),
                 log_lines := log_lines s @ [(g, line)]\<rparr>)
          else None
      | _ \<Rightarrow> None)"
| "log_step (Put t) s =
     (case pc_of t s of
        Some (Writing g (c # line)) \<Rightarrow> Some (s\<lparr>pcs := (pcs s)[t := Writing g line], cout := cout s @ [(g, c)]\<rparr>)
      | _ \<Rightarrow> None)"
| "log_step (UnlockLog t) s =
     (case pc_of t s of
        Some (Writing g []) \<Rightarrow> Some (s\<lparr>pcs := (pcs s)[t := Out], m_log_mutex := (m_log_mutex s)(g := None)\<rparr>)
      | _ \<Rightarrow> None)"

abbreviation log_reach :: "nat \<Rightarrow> log_threads \<Rightarrow> bool" where
  "log_reach n \<equiv> reachable (log_threads_init n) log_step"

abbreviation log_run :: "log_label list \<Rightarrow> log_threads \<Rightarrow> log_threads option" where
  "log_run \<equiv> run_steps log_step"

section \<open>What one logger has written\<close>

definition written_by :: "nat \<Rightarrow> log_threads \<Rightarrow> string" where
  "written_by g s = map snd (filter (\<lambda>e. fst e = g) (cout s))"

definition lines_of :: "nat \<Rightarrow> log_threads \<Rightarrow> string list" where
  "lines_of g s = map snd (filter (\<lambda>e. fst e = g) (log_lines s))"

text \<open>What the owner of the mutex of g has still to write.\<close>

definition unwritten :: "nat \<Rightarrow> log_threads \<Rightarrow> string" where
  "unwritten g s = (case m_log_mutex s g of None \<Rightarrow> []
     | Some t \<Rightarrow> (case pcs s ! t of Writing _ line \<Rightarrow> line | _ \<Rightarrow> []))"

text \<open>The mutex of a logger belongs to the thread that writes with it.\<close>

fun writes :: "log_pc \<Rightarrow> nat option" where
  "writes (Writing g _) = Some g"
| "writes _ = None"

definition writers_inv :: "log_threads \<Rightarrow> bool" where
  "writers_inv s \<longleftrightarrow> (\<forall>t g. m_log_mutex s g = Some t \<longleftrightarrow> t < length (pcs s) \<and> writes (pcs s ! t) = Some g)"

lemma writers_invD: "writers_inv s \<Longrightarrow> t < length (pcs s) \<Longrightarrow> m_log_mutex s g = Some t \<longleftrightarrow> writes (pcs s ! t) = Some g"
  by (simp add: writers_inv_def)

lemma writers_inv_change:
  assumes inv: "writers_inv s" and t: "t < length (pcs s)" and pcs: "pcs s' = (pcs s)[t := p]"
    and mutex: "\<And>g. m_log_mutex s' g = (if writes p = Some g then Some t else if writes (pcs s ! t) = Some g then None else m_log_mutex s g)"
    and free: "\<And>g. writes p = Some g \<Longrightarrow> m_log_mutex s g = None \<or> m_log_mutex s g = Some t"
  shows "writers_inv s'"
  unfolding writers_inv_def
proof (intro allI)
  fix t' g
  have old: "m_log_mutex s g = Some t' \<longleftrightarrow> t' < length (pcs s) \<and> writes (pcs s ! t') = Some g"
    using inv by (simp add: writers_inv_def)
  show "m_log_mutex s' g = Some t' \<longleftrightarrow> t' < length (pcs s') \<and> writes (pcs s' ! t') = Some g"
  proof (cases "t' = t")
    case True
    then show ?thesis using t old by (simp add: pcs mutex)
  next
    case False
    then have "writes (pcs s ! t) = Some g \<Longrightarrow> m_log_mutex s g = Some t" using inv t by (simp add: writers_inv_def)
    then show ?thesis using False old free [of g] by (auto simp: pcs mutex)
  qed
qed

text \<open>What is written and what is left to write are whole lines, the unwritten part of the last one.\<close>

definition text_inv :: "nat \<Rightarrow> log_threads \<Rightarrow> bool" where
  "text_inv g s \<longleftrightarrow> written_by g s @ unwritten g s = concat (lines_of g s) \<and>
     (m_log_mutex s g = None \<or> (\<exists>done. lines_of g s \<noteq> [] \<and> last (lines_of g s) = done @ unwritten g s))"

lemma log_stepE [consumes 1, case_names CallLog LockLog Put UnlockLog]:
  assumes "log_step l s = Some s'"
  obtains t g line where "l = CallLog t g line" "t < length (pcs s)" "pcs s ! t = Out"
      "s' = s\<lparr>pcs := (pcs s)[t := Locking g line]\<rparr>"
  | t g line where "l = LockLog t" "t < length (pcs s)" "pcs s ! t = Locking g line" "m_log_mutex s g = None"
      "s' = s\<lparr>pcs := (pcs s)[t := Writing g line], m_log_mutex := (m_log_mutex s)(g \<mapsto> t),
              log_lines := log_lines s @ [(g, line)]\<rparr>"
  | t g c line where "l = Put t" "t < length (pcs s)" "pcs s ! t = Writing g (c # line)"
      "s' = s\<lparr>pcs := (pcs s)[t := Writing g line], cout := cout s @ [(g, c)]\<rparr>"
  | t g where "l = UnlockLog t" "t < length (pcs s)" "pcs s ! t = Writing g []"
      "s' = s\<lparr>pcs := (pcs s)[t := Out], m_log_mutex := (m_log_mutex s)(g := None)\<rparr>"
proof (cases l)
  case (CallLog t g line) then show ?thesis using that(1) [of t g line] assms by (auto simp: pc_of_def split: if_split_asm)
next
  case (LockLog t)
  then show ?thesis using that(2) [of t] assms
    by (auto simp: pc_of_def split: if_split_asm option.split_asm log_pc.split_asm)
next
  case (Put t)
  then show ?thesis using that(3) [of t] assms
    by (auto simp: pc_of_def split: if_split_asm option.split_asm log_pc.split_asm list.split_asm)
next
  case (UnlockLog t)
  then show ?thesis using that(4) [of t] assms
    by (auto simp: pc_of_def split: if_split_asm option.split_asm log_pc.split_asm list.split_asm)
qed

lemma writers_inv_step:
  assumes "writers_inv s" and "log_step l s = Some s'"
  shows "writers_inv s'"
  using assms(2)
proof (cases rule: log_stepE)
  case (CallLog t g line)
  then show ?thesis by (intro writers_inv_change [OF assms(1), of t _ "Locking g line"]) simp_all
next
  case (LockLog t g line)
  then show ?thesis by (intro writers_inv_change [OF assms(1), of t _ "Writing g line"]) simp_all
next
  case (Put t g c line)
  then show ?thesis using writers_invD [OF assms(1), of t]
    by (intro writers_inv_change [OF assms(1), of t _ "Writing g line"]) (simp_all split: if_split)
next
  case (UnlockLog t g)
  then show ?thesis by (intro writers_inv_change [OF assms(1), of t _ Out]) simp_all
qed

text \<open>A step of a thread that does not own the mutex of g before or after it.\<close>

lemma text_inv_other:
  assumes "text_inv g s" and "m_log_mutex s' g = m_log_mutex s g" and "m_log_mutex s g \<noteq> Some t"
    and "pcs s' = (pcs s)[t := p]" and "written_by g s' = written_by g s" and "lines_of g s' = lines_of g s"
  shows "text_inv g s'"
proof -
  have "unwritten g s' = unwritten g s"
    using assms(2-4) by (auto simp: unwritten_def nth_list_update split: option.splits)
  then show ?thesis using assms by (simp add: text_inv_def)
qed

lemma text_inv_step:
  assumes "text_inv g s" and "writers_inv s" and "log_step l s = Some s'"
  shows "text_inv g s'"
  using assms(3)
proof (cases rule: log_stepE)
  case (CallLog t g' line)
  have "m_log_mutex s g \<noteq> Some t" using assms(2) CallLog by (simp add: writers_invD)
  with CallLog show ?thesis by (intro text_inv_other [OF assms(1)]) (simp_all add: written_by_def lines_of_def)
next
  case (LockLog t g' line)
  show ?thesis
  proof (cases "g' = g")
    case True
    then have "unwritten g s = []" "unwritten g s' = line" using LockLog by (simp_all add: unwritten_def)
    then show ?thesis using assms(1) LockLog True by (auto simp: text_inv_def written_by_def lines_of_def)
  next
    case False
    have "m_log_mutex s g \<noteq> Some t" using assms(2) LockLog by (simp add: writers_invD)
    with LockLog False show ?thesis by (intro text_inv_other [OF assms(1)]) (simp_all add: written_by_def lines_of_def)
  qed
next
  case (Put t g' c line)
  then have m: "m_log_mutex s g' = Some t" using assms(2) by (simp add: writers_invD)
  show ?thesis
  proof (cases "g' = g")
    case True
    then have "unwritten g s = c # line" "unwritten g s' = line" using Put m by (simp_all add: unwritten_def)
    then show ?thesis using assms(1) Put True m
      by (auto simp: text_inv_def written_by_def lines_of_def intro: exI [of _ "done @ [c]" for "done"])
  next
    case False
    have "m_log_mutex s g \<noteq> Some t" using assms(2) Put False by (simp add: writers_invD)
    with Put False show ?thesis by (intro text_inv_other [OF assms(1)]) (simp_all add: written_by_def lines_of_def)
  qed
next
  case (UnlockLog t g')
  then have m: "m_log_mutex s g' = Some t" using assms(2) by (simp add: writers_invD)
  show ?thesis
  proof (cases "g' = g")
    case True
    then have "unwritten g s = []" "unwritten g s' = []" using UnlockLog m by (auto simp: unwritten_def)
    then show ?thesis using assms(1) UnlockLog True by (simp add: text_inv_def written_by_def lines_of_def)
  next
    case False
    have "m_log_mutex s g \<noteq> Some t" using assms(2) UnlockLog False by (simp add: writers_invD)
    with UnlockLog False show ?thesis by (intro text_inv_other [OF assms(1)]) (simp_all add: written_by_def lines_of_def)
  qed
qed

interpretation loggers: machine "log_threads_init n" log_step "\<lambda>s. writers_inv s \<and> (\<forall>g. text_inv g s)" for n
proof
  show "writers_inv (log_threads_init n) \<and> (\<forall>g. text_inv g (log_threads_init n))"
    by (simp add: log_threads_init_def writers_inv_def text_inv_def written_by_def unwritten_def lines_of_def)
qed (use writers_inv_step text_inv_step in blast)

section \<open>Properties\<close>

text \<open>
  C36: the lines of one logger are never mixed with each other: what a logger has written is, in
  the order in which its mutex was taken, all its lines, whole, but for the end of the last one
  that the owner of the mutex has still to write. When one logger alone writes, that is the
  output.
\<close>

theorem log_lines_whole:
  assumes "log_reach n s"
  shows "\<exists>rest. written_by g s @ rest = concat (lines_of g s) \<and>
    (if m_log_mutex s g = None then rest = [] else \<exists>done. last (lines_of g s) = done @ rest) \<and>
    (fst ` set (cout s) \<subseteq> {g} \<longrightarrow> map snd (cout s) = written_by g s)"
proof -
  have inv: "writers_inv s" "text_inv g s" using loggers.reachable_inv [OF assms] by simp_all
  have "filter (\<lambda>e. fst e = g) (cout s) = cout s" if "fst ` set (cout s) \<subseteq> {g}"
    using that by (auto intro!: filter_True)
  then have "fst ` set (cout s) \<subseteq> {g} \<longrightarrow> map snd (cout s) = written_by g s" by (simp add: written_by_def)
  moreover have "m_log_mutex s g = None \<Longrightarrow> unwritten g s = []" by (simp add: unwritten_def)
  ultimately show ?thesis using inv(2) by (intro exI [of _ "unwritten g s"]) (auto simp: text_inv_def)
qed

definition demo_log :: "nat \<Rightarrow> log_threads" where
  "demo_log g = the (log_run [CallLog 0 0 ''ab'', CallLog 1 g ''cd'', LockLog 0, Put 0, Put 0, UnlockLog 0, LockLog 1, Put 1]
     (log_threads_init 2))"

lemma demo_log_reach: "log_reach 2 (demo_log 0)"
proof -
  have "\<not> Option.is_none (log_run [CallLog 0 0 ''ab'', CallLog 1 0 ''cd'', LockLog 0, Put 0, Put 0, UnlockLog 0, LockLog 1, Put 1]
     (log_threads_init 2))" by code_simp
  then show ?thesis unfolding demo_log_def by (rule the_run_reachable)
qed

theorem log_lines_whole_witness: "map snd (cout (demo_log 0)) = ''abc'' \<and> written_by 0 (demo_log 0) = ''abc''"
proof -
  have c: "cout (demo_log 0) = [(0, CHR ''a''), (0, CHR ''b''), (0, CHR ''c'')]" by code_simp
  then show ?thesis using log_lines_whole [OF demo_log_reach, of 0] by auto
qed

text \<open>Two loggers have two mutexes: their lines can be mixed character by character.\<close>

lemma log_lines_mix:
  "\<exists>s. log_reach 2 s \<and> log_lines s = [(0, ''ab''), (1, ''cd'')] \<and> map snd (cout s) = ''acbd''"
proof -
  let ?ls = "[CallLog 0 0 ''ab'', CallLog 1 1 ''cd'', LockLog 0, LockLog 1, Put 0, Put 1, Put 0, Put 1]"
  let ?s = "the (log_run ?ls (log_threads_init 2))"
  have "\<not> Option.is_none (log_run ?ls (log_threads_init 2))" by code_simp
  then have "log_reach 2 ?s" by (rule the_run_reachable)
  moreover have "log_lines ?s = [(0, ''ab''), (1, ''cd'')]" "map snd (cout ?s) = ''acbd''" by code_simp+
  ultimately show ?thesis by (intro exI [of _ ?s] conjI)
qed

end
