(* ===== verification/LoggerImpl.thy ===== *)
theory LoggerImpl
  imports Logger Machine
begin

text \<open>
  The older implementation of the logger in include/quick/utils/LoggerImpl.hpp, read as members of
  a class Logger that is no template and has the levels of Logger.hh. One object, made by the first
  call with its source location, serves all; a line is written straight to the standard output, in
  several insertions and without a mutex. What an insertion puts there can be interleaved with
  that of other threads character by character.
\<close>

section \<open>A line\<close>

fun impl_level_to_string :: "Level \<Rightarrow> string" where
  "impl_level_to_string INFO = ''INFO''"
| "impl_level_to_string DEBUG = ''DEBUG''"
| "impl_level_to_string ERROR = ''ERROR''"
| "impl_level_to_string _ = ''UNKNOWN''"

fun impl_level_to_color :: "Level \<Rightarrow> string" where
  "impl_level_to_color INFO = esc @ ''[32m''"
| "impl_level_to_color DEBUG = esc @ ''[36m''"
| "impl_level_to_color ERROR = esc @ ''[31m''"
| "impl_level_to_color _ = esc @ ''[0m''"

text \<open>The object keeps the location that the first call of get_instance came from.\<close>

definition impl_get_instance :: "source_location \<Rightarrow> source_location option \<Rightarrow> source_location \<times> source_location option" where
  [run_simps]: "impl_get_instance location st = (case st of Some loc \<Rightarrow> (loc, st) | None \<Rightarrow> (location, Some location))"

text \<open>std::put_time with the format %H:%M:%S.00: the fraction is text of the format.\<close>

definition formatted_time :: "log_time \<Rightarrow> string" where
  [run_simps]: "formatted_time now =
     two_digits (tm_hour now) @ '':'' @ two_digits (tm_min now) @ '':'' @ two_digits (tm_sec now) @ ''.00''"

definition impl_head :: "Level \<Rightarrow> log_time \<Rightarrow> string \<Rightarrow> int \<Rightarrow> string" where
  [run_simps]: "impl_head level now func line =
     ''['' @ formatted_time now @ '']'' @ ''['' @ func @ '':'' @ decimal line @ '']'' @ ''['' @ impl_level_to_string level @ ''] ''"

text \<open>The insertions into std::cout that one call makes, in their order.\<close>

definition impl_log :: "Level \<Rightarrow> log_time \<Rightarrow> string \<Rightarrow> int \<Rightarrow> string list \<Rightarrow> string list" where
  [run_simps]: "impl_log level now func line args =
     [impl_level_to_color level, impl_head level now func line] @ args @ [esc @ ''[0m'', [CHR 0x0A]]"

section \<open>Threads\<close>

text \<open>
  Each thread has the insertions of its call still to make, the first of them perhaps in part; the
  output marks each character with its thread, and said only records what the threads logged.
\<close>

record impl_threads =
  to_insert :: "nat \<Rightarrow> string list"
  impl_cout :: "(nat \<times> char) list"
  said :: "nat \<Rightarrow> string"

definition impl_init :: impl_threads where
  [run_simps]: "impl_init = \<lparr>to_insert = (\<lambda>_. []), impl_cout = [], said = (\<lambda>_. [])\<rparr>"

datatype impl_label = Call_log nat Level log_time string int "string list" | Insert nat

fun impl_step :: "impl_label \<Rightarrow> impl_threads \<Rightarrow> impl_threads option" where
  "impl_step (Call_log t level now func line args) s =
     (if to_insert s t = []
      then Some (s\<lparr>to_insert := (to_insert s)(t := impl_log level now func line args),
             said := (said s)(t := said s t @ concat (impl_log level now func line args))\<rparr>)
      else None)"
| "impl_step (Insert t) s =
     (case to_insert s t of
        [] \<Rightarrow> None
      | [] # rest \<Rightarrow> Some (s\<lparr>to_insert := (to_insert s)(t := rest)\<rparr>)
      | (c # cs) # rest \<Rightarrow> Some (s\<lparr>to_insert := (to_insert s)(t := cs # rest), impl_cout := impl_cout s @ [(t, c)]\<rparr>))"

abbreviation impl_reach :: "impl_threads \<Rightarrow> bool" where
  "impl_reach \<equiv> reachable impl_init impl_step"

section \<open>What the threads have written\<close>

definition inserted_by :: "nat \<Rightarrow> impl_threads \<Rightarrow> string" where
  "inserted_by t s = map snd (filter (\<lambda>e. fst e = t) (impl_cout s))"

definition impl_inv :: "impl_threads \<Rightarrow> bool" where
  "impl_inv s \<longleftrightarrow> (\<forall>t. inserted_by t s @ concat (to_insert s t) = said s t)"

interpretation impl_loggers: machine impl_init impl_step impl_inv
proof
  show "impl_inv impl_init" by (simp add: impl_inv_def impl_init_def inserted_by_def)
  show "impl_inv s'" if "impl_inv s" "impl_step l s = Some s'" for l s s'
    using that
  proof (cases l)
    case (Call_log t level now func line args)
    have "inserted_by t s = said s t" if "to_insert s t = []" using \<open>impl_inv s\<close> that by (auto simp: impl_inv_def dest: spec [of _ t])
    then show ?thesis using that Call_log by (auto simp: impl_inv_def inserted_by_def split: if_split_asm)
  next
    case (Insert t)
    have now: "said s t = map snd (filter (\<lambda>e. fst e = t) (impl_cout s)) @ concat (to_insert s t)"
      using \<open>impl_inv s\<close> by (simp add: impl_inv_def inserted_by_def)
    show ?thesis using that Insert by (auto simp: impl_inv_def inserted_by_def now split: list.split_asm)
  qed
qed

text \<open>
  Nothing is lost and each thread's text comes out in order: what a thread has inserted is what it
  logged, but for what it has still to insert, and all of it once its calls have returned.
\<close>

lemma impl_text_of_thread:
  assumes "impl_reach s"
  shows "inserted_by t s @ concat (to_insert s t) = said s t"
  using impl_loggers.reachable_inv [OF assms] by (simp add: impl_inv_def)

text \<open>
  But lines are not kept whole: two threads that log through the one object can leave an output
  that begins with both of their colour codes and is no line of either.
\<close>

lemma impl_lines_mix:
  "\<exists>s. impl_reach s \<and> map snd (impl_cout s) = esc @ esc @ ''[31m[32m'' \<and>
     (\<forall>t\<in>{0, 1}. concat (to_insert s t) \<noteq> [])"
proof -
  let ?now = "\<lparr>tm_hour = 1, tm_min = 2, tm_sec = 3, millis = 4\<rparr>"
  let ?ls = "[Call_log 0 INFO ?now ''f'' 1 [], Call_log 1 ERROR ?now ''g'' 2 [], Insert 0, Insert 1, Insert 1, Insert 1, Insert 1,
     Insert 1, Insert 0, Insert 0, Insert 0, Insert 0]"
  let ?s = "the (run_steps impl_step ?ls impl_init)"
  have "\<not> Option.is_none (run_steps impl_step ?ls impl_init)" by code_simp
  then have "impl_reach ?s" by (rule the_run_reachable)
  moreover have "map snd (impl_cout ?s) = esc @ esc @ ''[31m[32m''" "concat (to_insert ?s 0) \<noteq> []" "concat (to_insert ?s 1) \<noteq> []"
    by code_simp+
  ultimately show ?thesis by (intro exI [of _ ?s]) simp
qed

text \<open>
  Beside Logger.hh: the three levels it knows have the same names and colours, a warning is
  written as UNKNOWN without a colour, and a line tells neither the milliseconds nor the logger.
\<close>

lemma impl_levels:
  "level \<noteq> WARN \<Longrightarrow> impl_level_to_string level = level_to_string level \<and> impl_level_to_color level = level_to_color level"
  "impl_level_to_string WARN = ''UNKNOWN''" "impl_level_to_color WARN = esc @ ''[0m''"
  by (cases level) simp_all

lemma impl_forgets_millis:
  "impl_log level (now\<lparr>millis := m\<rparr>) func line args = impl_log level now func line args"
  by (simp add: impl_log_def impl_head_def formatted_time_def)

end
