(* ===== verification/Timer.thy ===== *)
theory Timer
  imports Decimal
begin

text \<open>
  Timer of include/quick/utils/Timer.hh, on a steady clock that counts nanoseconds. What
  std::chrono::utc_clock::now() prints is a parameter.
\<close>

record timer =
  m_scope_name :: string
  m_start_timepoint :: int

definition Timer_default :: "int \<Rightarrow> timer" where
  [run_simps]: "Timer_default now = \<lparr>m_scope_name = ''Unspecified'', m_start_timepoint = now\<rparr>"

definition Timer_ctor :: "string \<Rightarrow> int \<Rightarrow> timer" where
  [run_simps]: "Timer_ctor scope_name now = \<lparr>m_scope_name = scope_name, m_start_timepoint = now\<rparr>"

text \<open>duration_cast truncates; the clock is steady, so that the difference is not negative.\<close>

definition elapsed :: "timer \<Rightarrow> int \<Rightarrow> int" where
  [run_simps]: "elapsed this now = (now - m_start_timepoint this) div 1000"

definition stop :: "string \<Rightarrow> timer \<Rightarrow> int \<Rightarrow> string" where
  [run_simps]: "stop utc this now =
     utc @ ''[Timer] '' @ m_scope_name this @ '' took '' @ decimal (elapsed this now) @ ''ns''"

definition reset :: "timer \<Rightarrow> int \<Rightarrow> timer" where
  [run_simps]: "reset this now = this\<lparr>m_start_timepoint := now\<rparr>"

definition Timer_dtor :: "string \<Rightarrow> timer \<Rightarrow> int \<Rightarrow> string" where
  [run_simps]: "Timer_dtor utc this now = stop utc this now"

text \<open>
  The number that the destructor prints, read back, is the elapsed time in microseconds, rounded
  down, whatever the label ns says: an hour is 3600000000 of them.
\<close>

lemma timer_prints_microseconds:
  assumes "start \<le> now" and "now - start < 2 ^ 40"
  shows "\<exists>us. Timer_dtor utc (Timer_ctor name start) now = utc @ ''[Timer] '' @ name @ '' took '' @ decimal us @ ''ns'' \<and>
    us * 1000 \<le> now - start \<and> now - start < us * 1000 + 1000 \<and> stoi (decimal us @ ''ns'') = Inr us"
proof -
  let ?us = "(now - start) div 1000"
  have us: "0 \<le> ?us" "?us * 1000 \<le> now - start" "now - start < ?us * 1000 + 1000" using assms(1) by linarith+
  have "in_int32 ?us" using us assms(2) by (simp add: in_int32_def)
  moreover have "\<not> is_digit CHR ''n''" by code_simp
  ultimately have "stoi (decimal ?us @ ''ns'') = Inr ?us" using us(1) by (intro stoi_decimal) simp_all
  then show ?thesis
    using us by (intro exI [of _ ?us]) (simp add: Timer_dtor_def stop_def Timer_ctor_def elapsed_def)
qed

end
