(* ===== verification/Traces.thy ===== *)
theory Traces
  imports Prelude
begin

text \<open>
  Traces of calls to a library that hands out handles: which calls a state of the handles permits
  and what they make of it are given by the component. Used for the system calls of the sockets
  and for the calls of the database driver.
\<close>

fun follows :: "('e \<Rightarrow> 's \<Rightarrow> bool) \<Rightarrow> ('e \<Rightarrow> 's \<Rightarrow> 's) \<Rightarrow> 'e list \<Rightarrow> 's \<Rightarrow> bool" where
  "follows permitted after [] A = True"
| "follows permitted after (e # tr) A \<longleftrightarrow> permitted e A \<and> follows permitted after tr (after e A)"

lemma follows_append [simp]:
  "follows permitted after (tr @ tr') A \<longleftrightarrow> follows permitted after tr A \<and> follows permitted after tr' (fold after tr A)"
  by (induction tr arbitrary: A) auto

end
