(* ===== verification/Sockets.thy ===== *)
theory Sockets
  imports Holdings Traces
begin

text \<open>
  The descriptors of the program and the handle that owns one, SocketRAII of
  include/quick/io/SocketRAII.hh. The kernel is outside the program: its answers are a parameter,
  functions of the calls made so far, and a state of the program carries those calls, in order,
  each with its arguments and its answer.
\<close>

section \<open>System calls\<close>

record sockaddr =
  sin_port :: "16 word"
  sin_addr :: "32 word"

datatype sys =
    Socket int | Bind int sockaddr int | Listen int int int | Accept int int | Connect int sockaddr int
  | Send int nat u64 int int | Recv int nat u64 int int | Close int

record os =
  os_socket :: "sys list \<Rightarrow> int"
  os_bind :: "sys list \<Rightarrow> int \<Rightarrow> sockaddr \<Rightarrow> int"
  os_listen :: "sys list \<Rightarrow> int \<Rightarrow> int \<Rightarrow> int"
  os_accept :: "sys list \<Rightarrow> int \<Rightarrow> int"
  os_connect :: "sys list \<Rightarrow> int \<Rightarrow> sockaddr \<Rightarrow> int"
  os_send :: "sys list \<Rightarrow> int \<Rightarrow> nat \<Rightarrow> u64 \<Rightarrow> int \<Rightarrow> int"
  os_recv :: "sys list \<Rightarrow> int \<Rightarrow> nat \<Rightarrow> u64 \<Rightarrow> int \<Rightarrow> int"

definition sys_socket :: "os \<Rightarrow> sys list \<Rightarrow> int \<times> sys list" where
  [run_simps]: "sys_socket k tr = (let r = os_socket k tr in (r, tr @ [Socket r]))"

definition sys_bind :: "os \<Rightarrow> int \<Rightarrow> sockaddr \<Rightarrow> sys list \<Rightarrow> int \<times> sys list" where
  [run_simps]: "sys_bind k fd a tr = (let r = os_bind k tr fd a in (r, tr @ [Bind fd a r]))"

definition sys_listen :: "os \<Rightarrow> int \<Rightarrow> int \<Rightarrow> sys list \<Rightarrow> int \<times> sys list" where
  [run_simps]: "sys_listen k fd n tr = (let r = os_listen k tr fd n in (r, tr @ [Listen fd n r]))"

definition sys_accept :: "os \<Rightarrow> int \<Rightarrow> sys list \<Rightarrow> int \<times> sys list" where
  [run_simps]: "sys_accept k fd tr = (let r = os_accept k tr fd in (r, tr @ [Accept fd r]))"

definition sys_connect :: "os \<Rightarrow> int \<Rightarrow> sockaddr \<Rightarrow> sys list \<Rightarrow> int \<times> sys list" where
  [run_simps]: "sys_connect k fd a tr = (let r = os_connect k tr fd a in (r, tr @ [Connect fd a r]))"

definition sys_send :: "os \<Rightarrow> int \<Rightarrow> nat \<Rightarrow> u64 \<Rightarrow> int \<Rightarrow> sys list \<Rightarrow> int \<times> sys list" where
  [run_simps]: "sys_send k fd buf len flags tr =
     (let r = os_send k tr fd buf len flags in (r, tr @ [Send fd buf len flags r]))"

definition sys_recv :: "os \<Rightarrow> int \<Rightarrow> nat \<Rightarrow> u64 \<Rightarrow> int \<Rightarrow> sys list \<Rightarrow> int \<times> sys list" where
  [run_simps]: "sys_recv k fd buf len flags tr =
     (let r = os_recv k tr fd buf len flags in (r, tr @ [Recv fd buf len flags r]))"

section \<open>SocketRAII\<close>

record socket =
  sock_fd :: int

definition socket_default :: socket where
  [run_simps]: "socket_default = \<lparr>sock_fd = -1\<rparr>"

definition socket_ctor :: "int \<Rightarrow> socket" where
  [run_simps]: "socket_ctor fd = \<lparr>sock_fd = fd\<rparr>"

definition socket_move_ctor :: "socket \<Rightarrow> socket \<times> socket" where
  [run_simps]: "socket_move_ctor other = (\<lparr>sock_fd = sock_fd other\<rparr>, other\<lparr>sock_fd := -1\<rparr>)"

text \<open>The assignment from another socket, where this is not other.\<close>

definition socket_move_assign :: "socket \<Rightarrow> socket \<Rightarrow> sys list \<Rightarrow> socket \<times> socket \<times> sys list" where
  [run_simps]: "socket_move_assign this other tr =
     (let tr = (if sock_fd this \<ge> 0 then tr @ [Close (sock_fd this)] else tr)
      in (this\<lparr>sock_fd := sock_fd other\<rparr>, other\<lparr>sock_fd := -1\<rparr>, tr))"

definition socket_dtor :: "socket \<Rightarrow> sys list \<Rightarrow> sys list" where
  [run_simps]: "socket_dtor this tr = (if sock_fd this \<ge> 0 then tr @ [Close (sock_fd this)] else tr)"

definition as_int :: "socket \<Rightarrow> int" where
  [run_simps]: "as_int this = sock_fd this"

definition assign_fd :: "int \<Rightarrow> socket \<Rightarrow> sys list \<Rightarrow> socket \<times> sys list" where
  [run_simps]: "assign_fd newfd this tr =
     (let tr = (if sock_fd this \<ge> 0 then tr @ [Close (sock_fd this)] else tr)
      in (this\<lparr>sock_fd := newfd\<rparr>, tr))"

definition valid :: "socket \<Rightarrow> bool" where
  [run_simps]: "valid this \<longleftrightarrow> sock_fd this \<ge> 0"

definition socket_reset :: "int \<Rightarrow> socket \<Rightarrow> sys list \<Rightarrow> socket \<times> sys list" where
  [run_simps]: "socket_reset newfd this tr =
     (let tr = (if sock_fd this \<ge> 0 then tr @ [Close (sock_fd this)] else tr)
      in (this\<lparr>sock_fd := newfd\<rparr>, tr))"

section \<open>Descriptors that are open\<close>

fun after :: "sys \<Rightarrow> int set \<Rightarrow> int set" where
  "after (Socket fd) A = (if fd \<ge> 0 then insert fd A else A)"
| "after (Accept _ fd) A = (if fd \<ge> 0 then insert fd A else A)"
| "after (Close fd) A = A - {fd}"
| "after _ A = A"

definition open_fds :: "sys list \<Rightarrow> int set" where
  "open_fds tr = fold after tr {}"

text \<open>A call may name a descriptor that is open, or a negative one, which the kernel refuses.\<close>

definition usable :: "int \<Rightarrow> int set \<Rightarrow> bool" where
  "usable fd A \<longleftrightarrow> fd < 0 \<or> fd \<in> A"

fun permitted :: "sys \<Rightarrow> int set \<Rightarrow> bool" where
  "permitted (Socket fd) A \<longleftrightarrow> fd \<notin> A"
| "permitted (Accept l fd) A \<longleftrightarrow> usable l A \<and> fd \<notin> A"
| "permitted (Close fd) A \<longleftrightarrow> fd \<in> A"
| "permitted (Bind fd _ _) A \<longleftrightarrow> usable fd A"
| "permitted (Listen fd _ _) A \<longleftrightarrow> usable fd A"
| "permitted (Connect fd _ _) A \<longleftrightarrow> usable fd A"
| "permitted (Send fd _ _ _ _) A \<longleftrightarrow> usable fd A"
| "permitted (Recv fd _ _ _ _) A \<longleftrightarrow> usable fd A"

abbreviation disciplined :: "sys list \<Rightarrow> int set \<Rightarrow> bool" where
  "disciplined \<equiv> follows permitted after"

lemma open_fds_append: "open_fds (tr @ tr') = fold after tr' (open_fds tr)"
  by (simp add: open_fds_def)

lemma open_fds_simps [simp]:
  "open_fds [] = {}" "open_fds (tr @ [e]) = after e (open_fds tr)"
  by (simp_all add: open_fds_def)

lemma open_fds_nonneg: "fd \<in> open_fds tr \<Longrightarrow> 0 \<le> fd"
proof (induction tr rule: rev_induct)
  case (snoc e tr)
  then show ?case by (cases e) (auto split: if_splits)
qed simp

lemma open_fds_finite [simp]: "finite (open_fds tr)"
proof (induction tr rule: rev_induct)
  case (snoc e tr)
  then show ?case by (cases e) auto
qed simp

text \<open>How often the trace opens and closes a descriptor: under discipline the difference tells whether it is open.\<close>

fun opens :: "int \<Rightarrow> sys \<Rightarrow> bool" where
  "opens fd (Socket r) \<longleftrightarrow> r = fd"
| "opens fd (Accept _ r) \<longleftrightarrow> r = fd"
| "opens fd _ \<longleftrightarrow> False"

definition times_opened :: "int \<Rightarrow> sys list \<Rightarrow> nat" where
  "times_opened fd tr = length (filter (opens fd) tr)"

definition times_closed :: "int \<Rightarrow> sys list \<Rightarrow> nat" where
  "times_closed fd tr = count_list tr (Close fd)"

lemma disciplined_balance:
  assumes "disciplined tr {}" and "0 \<le> fd"
  shows "times_opened fd tr = times_closed fd tr + (if fd \<in> open_fds tr then 1 else 0)"
  using assms(1)
proof (induction tr rule: rev_induct)
  case (snoc e tr)
  then show ?case
    using assms(2) by (cases e) (auto simp: times_opened_def times_closed_def open_fds_def)
qed (simp add: times_opened_def times_closed_def)

text \<open>The kernel hands out no descriptor that is still open.\<close>

definition fresh_fds :: "os \<Rightarrow> bool" where
  "fresh_fds k \<longleftrightarrow> (\<forall>tr. os_socket k tr \<notin> open_fds tr \<and> (\<forall>fd. os_accept k tr fd \<notin> open_fds tr))"

end
