(* ===== verification/Tcp.thy ===== *)
theory Tcp
  imports Sockets ErrorCodes Machine
begin

text \<open>
  Tcp, TcpClient and TcpServer of include/quick/io. The address conversions of the C library are
  parameters; std::expected is a sum, its error on the left. Logging and timers are left out, and
  so are the bytes behind a buffer, which the kernel reads or writes.
\<close>

section \<open>Tcp\<close>

record tcp =
  ip :: string
  port :: "16 word"
  m_sock :: socket
  running :: bool

definition tcp_default :: tcp where
  [run_simps]: "tcp_default = \<lparr>ip = '''', port = 0, m_sock = socket_ctor (-1), running = False\<rparr>"

definition tcp_ctor :: "string \<Rightarrow> 16 word \<Rightarrow> tcp" where
  [run_simps]: "tcp_ctor i p = \<lparr>ip = i, port = p, m_sock = socket_ctor (-1), running = False\<rparr>"

text \<open>The defaulted moves; gone is what the standard library leaves in a string that was moved from.\<close>

definition tcp_move_ctor :: "(string \<Rightarrow> string) \<Rightarrow> tcp \<Rightarrow> tcp \<times> tcp" where
  [run_simps]: "tcp_move_ctor gone other =
     (case socket_move_ctor (m_sock other) of
        (s, s') \<Rightarrow> (\<lparr>ip = ip other, port = port other, m_sock = s, running = running other\<rparr>,
                    other\<lparr>ip := gone (ip other), m_sock := s'\<rparr>))"

definition tcp_move_assign :: "(string \<Rightarrow> string) \<Rightarrow> tcp \<Rightarrow> tcp \<Rightarrow> sys list \<Rightarrow> tcp \<times> tcp \<times> sys list" where
  [run_simps]: "tcp_move_assign gone this other tr =
     (case socket_move_assign (m_sock this) (m_sock other) tr of
        (s, s', tr) \<Rightarrow> (\<lparr>ip = ip other, port = port other, m_sock = s, running = running other\<rparr>,
                        other\<lparr>ip := gone (ip other), m_sock := s'\<rparr>, tr))"

definition tcp_dtor :: "tcp \<Rightarrow> sys list \<Rightarrow> sys list" where
  [run_simps]: "tcp_dtor this tr = socket_dtor (m_sock this) tr"

definition create_socket :: "os \<Rightarrow> tcp \<Rightarrow> sys list \<Rightarrow> (TcpError + unit) \<times> tcp \<times> sys list" where
  [run_simps]: "create_socket k this tr =
     (case sys_socket k tr of
        (fd, tr) \<Rightarrow>
          if fd < 0 then (Inl BAD_SOCKET, this, tr)
          else (case assign_fd fd (m_sock this) tr of (s, tr) \<Rightarrow> (Inr (), this\<lparr>m_sock := s\<rparr>, tr)))"

definition get_fd :: "tcp \<Rightarrow> int" where
  [run_simps]: "get_fd this = as_int (m_sock this)"

definition send_data :: "os \<Rightarrow> nat \<Rightarrow> u64 \<Rightarrow> int \<Rightarrow> tcp \<Rightarrow> sys list \<Rightarrow> int \<times> sys list" where
  [run_simps]: "send_data k buf len flags this tr = sys_send k (as_int (m_sock this)) buf len flags tr"

definition recv_data :: "os \<Rightarrow> nat \<Rightarrow> u64 \<Rightarrow> int \<Rightarrow> tcp \<Rightarrow> sys list \<Rightarrow> int \<times> sys list" where
  [run_simps]: "recv_data k buf len flags this tr = sys_recv k (as_int (m_sock this)) buf len flags tr"

text \<open>Host to network order on a little-endian machine, and the characters a C function sees.\<close>

definition htons :: "16 word \<Rightarrow> 16 word" where
  [run_simps]: "htons p = push_bit 8 p OR drop_bit 8 p"

definition c_str :: "string \<Rightarrow> string" where
  [run_simps]: "c_str s = takeWhile (\<lambda>c. c \<noteq> CHR 0x00) s"

lemma htons_htons [simp]: "htons (htons p) = p"
  unfolding htons_def
  by (rule bit_word_eqI) (auto simp: bit_simps)

section \<open>TcpClient\<close>

definition client_ctor :: "string \<Rightarrow> 16 word \<Rightarrow> tcp" where
  [simp, run_simps]: "client_ctor i p = tcp_ctor i p"

text \<open>inet_pton gives its answer and the address it stores.\<close>

definition connect_to_server ::
  "os \<Rightarrow> (string \<Rightarrow> int \<times> 32 word) \<Rightarrow> tcp \<Rightarrow> sys list \<Rightarrow> (TcpError + unit) \<times> tcp \<times> sys list" where
  [run_simps]: "connect_to_server k inet_pton this tr =
     (case create_socket k this tr of
        (Inl _, this, tr) \<Rightarrow> (Inl BAD_SOCKET, this, tr)
      | (Inr _, this, tr) \<Rightarrow>
          (case inet_pton (c_str (ip this)) of
             (r, addr) \<Rightarrow>
               if r \<le> 0 then (Inl INVALID_IP, this, tr)
               else (case sys_connect k (as_int (m_sock this)) \<lparr>sin_port = htons (port this), sin_addr = addr\<rparr> tr of
                       (r, tr) \<Rightarrow> (if r < 0 then Inl CONNECT_FAIL else Inr (), this, tr))))"

definition client_send :: "os \<Rightarrow> nat \<Rightarrow> u64 \<Rightarrow> tcp \<Rightarrow> sys list \<Rightarrow> (TcpError + u64) \<times> sys list" where
  [run_simps]: "client_send k buf len this tr =
     (case send_data k buf len 0 this tr of
        (r, tr) \<Rightarrow> (if r < 0 then Inl SEND_FAIL else Inr (word_of_int r), tr))"

definition client_recv :: "os \<Rightarrow> nat \<Rightarrow> u64 \<Rightarrow> tcp \<Rightarrow> sys list \<Rightarrow> (TcpError + u64) \<times> sys list" where
  [run_simps]: "client_recv k buf len this tr =
     (case recv_data k buf len 0 this tr of
        (r, tr) \<Rightarrow> (if r < 0 then Inl RECV_FAIL else Inr (word_of_int r), tr))"

section \<open>TcpServer\<close>

definition server_ctor :: "string \<Rightarrow> 16 word \<Rightarrow> tcp" where
  [simp, run_simps]: "server_ctor i p = tcp_ctor i p"

definition MAX_LISTEN_NUM :: int where
  [run_simps]: "MAX_LISTEN_NUM = 10"

definition MSG_NOSIGNAL :: int where
  [run_simps]: "MSG_NOSIGNAL = 0x4000"

definition start :: "os \<Rightarrow> (string \<Rightarrow> 32 word) \<Rightarrow> tcp \<Rightarrow> sys list \<Rightarrow> (TcpError + unit) \<times> tcp \<times> sys list" where
  [run_simps]: "start k inet_addr this tr =
     (case create_socket k this tr of
        (Inl _, this, tr) \<Rightarrow> (Inl BAD_SOCKET, this, tr)
      | (Inr _, this, tr) \<Rightarrow>
          (case sys_bind k (as_int (m_sock this))
                  \<lparr>sin_port = htons (port this), sin_addr = inet_addr (c_str (ip this))\<rparr> tr of
             (r, tr) \<Rightarrow>
               if r < 0 then (Inl BIND_FAIL, this, tr)
               else (case sys_listen k (as_int (m_sock this)) MAX_LISTEN_NUM tr of
                       (r, tr) \<Rightarrow>
                         if r < 0 then (Inl LISTEN_FAIL, this, tr)
                         else (Inr (), this\<lparr>running := True\<rparr>, tr))))"

definition accept_client :: "os \<Rightarrow> tcp \<Rightarrow> sys list \<Rightarrow> (TcpError + socket) \<times> sys list" where
  [run_simps]: "accept_client k this tr =
     (case sys_accept k (as_int (m_sock this)) tr of
        (fd, tr) \<Rightarrow> (if fd < 0 then Inl BAD_SOCKET else Inr (socket_ctor fd), tr))"

definition server_send :: "os \<Rightarrow> socket \<Rightarrow> nat \<Rightarrow> u64 \<Rightarrow> sys list \<Rightarrow> (TcpError + u64) \<times> sys list" where
  [run_simps]: "server_send k client buf len tr =
     (case sys_send k (as_int client) buf len MSG_NOSIGNAL tr of
        (r, tr) \<Rightarrow> (if r < 0 then Inl SEND_FAIL else Inr (word_of_int r), tr))"

definition server_recv :: "os \<Rightarrow> socket \<Rightarrow> nat \<Rightarrow> u64 \<Rightarrow> sys list \<Rightarrow> (TcpError + u64) \<times> sys list" where
  [run_simps]: "server_recv k client buf len tr =
     (case sys_recv k (as_int client) buf len 0 tr of
        (r, tr) \<Rightarrow> (if r < 0 then Inl RECV_FAIL else Inr (word_of_int r), tr))"

section \<open>Programs over sockets, clients and servers\<close>

datatype obj = Sock socket | Client tcp | Server tcp

type_synonym objs = "obj option list"

datatype net_op =
    NewSocket nat | WrapNew nat | MoveInit nat nat | MoveInto nat nat | AssignNew nat | ResetNew nat | ResetEmpty nat
  | NewClient nat string "16 word" | NewServer nat string "16 word" | StartServer nat | ConnectClient nat
  | AcceptInto nat nat | SendTo nat nat u64 | RecvFrom nat nat u64 | Destroy nat

definition obj_at :: "nat \<Rightarrow> objs \<Rightarrow> obj option" where
  [run_simps]: "obj_at i vs = (if i < length vs then vs ! i else None)"

definition free_at :: "nat \<Rightarrow> objs \<Rightarrow> bool" where
  [run_simps]: "free_at i vs \<longleftrightarrow> i < length vs \<and> vs ! i = None"

record names =
  inet_addr :: "string \<Rightarrow> 32 word"
  inet_pton :: "string \<Rightarrow> int \<times> 32 word"
  moved_from :: "string \<Rightarrow> string"

text \<open>
  One statement of a program whose variables are vs: WrapNew, AssignNew and ResetNew hand a
  socket just obtained from the kernel to the constructor, the assignment and reset. A statement
  on a variable that does not exist or has another type is None.
\<close>

fun net_exec :: "os \<Rightarrow> names \<Rightarrow> net_op \<Rightarrow> objs \<times> sys list \<Rightarrow> (objs \<times> sys list) option" where
  "net_exec k n (NewSocket i) (vs, tr) =
     (if free_at i vs then Some (vs[i := Some (Sock socket_default)], tr) else None)"
| "net_exec k n (WrapNew i) (vs, tr) =
     (if free_at i vs
      then (case sys_socket k tr of (fd, tr) \<Rightarrow> Some (vs[i := Some (Sock (socket_ctor fd))], tr)) else None)"
| "net_exec k n (MoveInit i j) (vs, tr) =
     (if free_at i vs
      then (case obj_at j vs of
              Some (Sock other) \<Rightarrow>
                (case socket_move_ctor other of (this, other) \<Rightarrow>
                   Some (vs[i := Some (Sock this), j := Some (Sock other)], tr))
            | Some (Client other) \<Rightarrow>
                (case tcp_move_ctor (moved_from n) other of (this, other) \<Rightarrow>
                   Some (vs[i := Some (Client this), j := Some (Client other)], tr))
            | Some (Server other) \<Rightarrow>
                (case tcp_move_ctor (moved_from n) other of (this, other) \<Rightarrow>
                   Some (vs[i := Some (Server this), j := Some (Server other)], tr))
            | None \<Rightarrow> None)
      else None)"
| "net_exec k n (MoveInto i j) (vs, tr) =
     (case (obj_at i vs, obj_at j vs) of
        (Some (Sock this), Some (Sock other)) \<Rightarrow>
          if i = j then Some (vs, tr)
          else (case socket_move_assign this other tr of (this, other, tr) \<Rightarrow>
                  Some (vs[i := Some (Sock this), j := Some (Sock other)], tr))
      | (Some (Client this), Some (Client other)) \<Rightarrow>
          if i = j then None
          else (case tcp_move_assign (moved_from n) this other tr of (this, other, tr) \<Rightarrow>
                  Some (vs[i := Some (Client this), j := Some (Client other)], tr))
      | (Some (Server this), Some (Server other)) \<Rightarrow>
          if i = j then None
          else (case tcp_move_assign (moved_from n) this other tr of (this, other, tr) \<Rightarrow>
                  Some (vs[i := Some (Server this), j := Some (Server other)], tr))
      | _ \<Rightarrow> None)"
| "net_exec k n (AssignNew i) (vs, tr) =
     (case obj_at i vs of
        Some (Sock this) \<Rightarrow>
          (case sys_socket k tr of (fd, tr) \<Rightarrow>
             (case assign_fd fd this tr of (this, tr) \<Rightarrow> Some (vs[i := Some (Sock this)], tr)))
      | _ \<Rightarrow> None)"
| "net_exec k n (ResetNew i) (vs, tr) =
     (case obj_at i vs of
        Some (Sock this) \<Rightarrow>
          (case sys_socket k tr of (fd, tr) \<Rightarrow>
             (case socket_reset fd this tr of (this, tr) \<Rightarrow> Some (vs[i := Some (Sock this)], tr)))
      | _ \<Rightarrow> None)"
| "net_exec k n (ResetEmpty i) (vs, tr) =
     (case obj_at i vs of
        Some (Sock this) \<Rightarrow> (case socket_reset (-1) this tr of (this, tr) \<Rightarrow> Some (vs[i := Some (Sock this)], tr))
      | _ \<Rightarrow> None)"
| "net_exec k n (NewClient i a p) (vs, tr) =
     (if free_at i vs then Some (vs[i := Some (Client (client_ctor a p))], tr) else None)"
| "net_exec k n (NewServer i a p) (vs, tr) =
     (if free_at i vs then Some (vs[i := Some (Server (server_ctor a p))], tr) else None)"
| "net_exec k n (StartServer i) (vs, tr) =
     (case obj_at i vs of
        Some (Server this) \<Rightarrow>
          (case start k (inet_addr n) this tr of (_, this, tr) \<Rightarrow> Some (vs[i := Some (Server this)], tr))
      | _ \<Rightarrow> None)"
| "net_exec k n (ConnectClient i) (vs, tr) =
     (case obj_at i vs of
        Some (Client this) \<Rightarrow>
          (case connect_to_server k (inet_pton n) this tr of (_, this, tr) \<Rightarrow> Some (vs[i := Some (Client this)], tr))
      | _ \<Rightarrow> None)"
| "net_exec k n (AcceptInto i j) (vs, tr) =
     (case obj_at i vs of
        Some (Server this) \<Rightarrow>
          if free_at j vs
          then (case accept_client k this tr of
                  (Inl _, tr) \<Rightarrow> Some (vs, tr)
                | (Inr client, tr) \<Rightarrow> Some (vs[j := Some (Sock client)], tr))
          else None
      | _ \<Rightarrow> None)"
| "net_exec k n (SendTo i buf len) (vs, tr) =
     (case obj_at i vs of
        Some (Sock client) \<Rightarrow> Some (vs, snd (server_send k client buf len tr))
      | Some (Client this) \<Rightarrow> Some (vs, snd (client_send k buf len this tr))
      | _ \<Rightarrow> None)"
| "net_exec k n (RecvFrom i buf len) (vs, tr) =
     (case obj_at i vs of
        Some (Sock client) \<Rightarrow> Some (vs, snd (server_recv k client buf len tr))
      | Some (Client this) \<Rightarrow> Some (vs, snd (client_recv k buf len this tr))
      | _ \<Rightarrow> None)"
| "net_exec k n (Destroy i) (vs, tr) =
     (case obj_at i vs of
        Some (Sock this) \<Rightarrow> Some (vs[i := None], socket_dtor this tr)
      | Some (Client this) \<Rightarrow> Some (vs[i := None], tcp_dtor this tr)
      | Some (Server this) \<Rightarrow> Some (vs[i := None], tcp_dtor this tr)
      | None \<Rightarrow> None)"

definition net_reach :: "os \<Rightarrow> names \<Rightarrow> objs \<Rightarrow> sys list \<Rightarrow> bool" where
  "net_reach k n vs tr \<longleftrightarrow> reachable (replicate (length vs) None, []) (net_exec k n) (vs, tr)"

section \<open>Every descriptor has one owner\<close>

fun obj_fd :: "obj \<Rightarrow> int" where
  "obj_fd (Sock s) = sock_fd s"
| "obj_fd (Client t) = sock_fd (m_sock t)"
| "obj_fd (Server t) = sock_fd (m_sock t)"

definition fds_of :: "int \<Rightarrow> int multiset" where
  "fds_of fd = (if fd < 0 then {#} else {#fd#})"

fun fd_part :: "obj option \<Rightarrow> int multiset" where
  "fd_part None = {#}"
| "fd_part (Some x) = fds_of (obj_fd x)"

fun closing :: "obj option \<Rightarrow> sys list" where
  "closing None = []"
| "closing (Some x) = (if obj_fd x \<ge> 0 then [Close (obj_fd x)] else [])"

definition net_inv :: "objs \<Rightarrow> sys list \<Rightarrow> bool" where
  "net_inv vs tr \<longleftrightarrow> disciplined tr {} \<and> held fd_part vs = mset_set (open_fds tr)"

lemma fds_of_simps [simp]: "fd < 0 \<Longrightarrow> fds_of fd = {#}" "0 \<le> fd \<Longrightarrow> fds_of fd = {#fd#}"
  by (simp_all add: fds_of_def)

lemma mset_set_minus:
  assumes "H + {#f#} = mset_set A" and "finite A"
  shows "f \<in> A" "H = mset_set (A - {f})"
proof -
  show f: "f \<in> A" using assms by (metis add_mset_add_single elem_mset_set union_single_eq_member)
  show "H = mset_set (A - {f})"
    using assms mset_set.remove [OF assms(2) f] by simp
qed

lemma net_replace:
  assumes "disciplined (tr @ es) {}" and "held fd_part vs + fd_part x = mset_set (open_fds (tr @ es))" and "i < length vs"
  shows "net_inv (vs[i := x]) (tr @ es @ closing (vs ! i))"
proof -
  have h: "held fd_part (vs[i := x]) + fd_part (vs ! i) = mset_set (open_fds (tr @ es))"
    using held_upd [OF assms(3), of fd_part x] assms(2) by simp
  show ?thesis
  proof (cases "closing (vs ! i) = []")
    case True
    then have "fd_part (vs ! i) = {#}" by (cases "vs ! i") (auto split: if_splits)
    then show ?thesis using h assms(1) True by (simp add: net_inv_def)
  next
    case False
    then obtain f where f: "closing (vs ! i) = [Close f]" "fd_part (vs ! i) = {#f#}"
      by (cases "vs ! i") (auto split: if_splits)
    have o: "f \<in> open_fds (tr @ es)" "held fd_part (vs[i := x]) = mset_set (open_fds (tr @ es) - {f})"
      using mset_set_minus [of "held fd_part (vs[i := x])" f "open_fds (tr @ es)"] h f(2) by simp_all
    have "disciplined ((tr @ es) @ [Close f]) {}"
      using assms(1) o(1) by (simp add: open_fds_def)
    moreover have "open_fds ((tr @ es) @ [Close f]) = open_fds (tr @ es) - {f}"
      unfolding open_fds_simps by simp
    ultimately show ?thesis using o(2) f(1) by (simp add: net_inv_def)
  qed
qed

lemma net_close:
  assumes "net_inv vs tr" and "i < length vs" and "fd_part x = {#}"
  shows "net_inv (vs[i := x]) (tr @ closing (vs ! i))"
  using net_replace [of tr "[]" vs x i] assms by (simp add: net_inv_def)

lemma net_obtain:
  assumes "net_inv vs tr" and "i < length vs" and "permitted e (open_fds tr)" and "e = Socket fd \<or> e = Accept l fd"
    and "fd_part x = fds_of fd"
  shows "net_inv (vs[i := x]) (tr @ e # closing (vs ! i))"
proof -
  have "disciplined (tr @ [e]) {}" using assms(1,3) by (simp add: net_inv_def open_fds_def)
  moreover have "held fd_part vs + fds_of fd = mset_set (open_fds (tr @ [e]))"
    using assms(1,3,4) by (cases "fd < 0") (auto simp: net_inv_def not_less)
  ultimately show ?thesis using net_replace [of tr "[e]" vs x i] assms(2,5) by simp
qed

lemma net_use:
  assumes "net_inv vs tr" and "permitted e (open_fds tr)" and "after e (open_fds tr) = open_fds tr"
  shows "net_inv vs (tr @ [e])"
  using assms by (simp add: net_inv_def) (simp add: open_fds_def)

lemma net_same: "net_inv vs tr \<Longrightarrow> held fd_part vs' = held fd_part vs \<Longrightarrow> net_inv vs' tr"
  by (simp add: net_inv_def)

lemma net_put:
  "net_inv vs tr \<Longrightarrow> i < length vs \<Longrightarrow> fd_part x = fd_part (vs ! i) \<Longrightarrow> net_inv (vs[i := x]) tr"
  by (erule net_same) (simp add: held_same)

lemma net_usable:
  assumes "net_inv vs tr" and "i < length vs" and "vs ! i = Some x"
  shows "usable (obj_fd x) (open_fds tr)"
proof (cases "obj_fd x < 0")
  case False
  then have "fd_part (vs ! i) = {#obj_fd x#}" using assms(3) by simp
  then have "obj_fd x \<in># held fd_part vs" using held_part [OF assms(2), of fd_part] by simp
  then show ?thesis using assms(1) by (simp add: net_inv_def usable_def)
qed (simp add: usable_def)

lemma obj_atD: "obj_at i vs = Some x \<Longrightarrow> i < length vs \<and> vs ! i = Some x"
  by (auto simp: obj_at_def split: if_splits)

lemma free_atD: "free_at i vs \<Longrightarrow> i < length vs \<and> vs ! i = None"
  by (simp add: free_at_def)

lemma net_move_init:
  assumes "net_inv vs tr" and "free_at i vs" and "obj_at j vs = Some z" and "obj_fd x = obj_fd z" and "obj_fd y < 0"
  shows "net_inv (vs[i := Some x, j := Some y]) tr"
proof (rule net_same [OF assms(1)], rule held_move)
  show "i < length vs" "j < length vs" "i \<noteq> j" using free_atD [OF assms(2)] obj_atD [OF assms(3)] by auto
qed (use free_atD [OF assms(2)] obj_atD [OF assms(3)] assms(4,5) in simp_all)

lemma net_move_into:
  assumes "net_inv vs tr" and "obj_at i vs = Some u" and "obj_at j vs = Some z" and "i \<noteq> j"
    and "obj_fd x = obj_fd z" and "obj_fd y < 0"
  shows "net_inv (vs[i := Some x, j := Some y]) (tr @ closing (Some u))"
proof -
  have "net_inv (vs[i := None]) (tr @ closing (vs ! i))"
    using assms obj_atD [OF assms(2)] by (intro net_close) auto
  then have "net_inv ((vs[i := None])[i := Some x, j := Some y]) (tr @ closing (Some u))"
    by (intro net_move_init [where z = z])
      (use obj_atD [OF assms(2)] obj_atD [OF assms(3)] assms(4-6) in \<open>auto simp: free_at_def obj_at_def\<close>)
  then show ?thesis by simp
qed

section \<open>The operations keep it\<close>

lemma fresh_socket: "fresh_fds k \<Longrightarrow> permitted (Socket (os_socket k tr)) (open_fds tr)"
  by (simp add: fresh_fds_def)

lemma create_socket_inv:
  assumes inv: "net_inv vs tr" "fresh_fds k" and i: "i < length vs" "vs ! i = Some u" "obj_fd u = sock_fd (m_sock t)"
    and K: "\<And>t. obj_fd (K t) = sock_fd (m_sock t)" and run: "create_socket k t tr = (r, t', tr')"
  shows "net_inv (vs[i := Some (K t')]) tr'"
proof (cases "os_socket k tr < 0")
  case True
  then have "tr' = tr @ [Socket (os_socket k tr)]" "t' = t" using run by (auto simp: create_socket_def sys_socket_def Let_def)
  moreover from True have "net_inv vs (tr @ [Socket (os_socket k tr)])"
    using inv fresh_socket by (intro net_use) auto
  ultimately show ?thesis using i K by (auto intro: net_put)
next
  case False
  then have "tr' = tr @ Socket (os_socket k tr) # closing (vs ! i)" "sock_fd (m_sock t') = os_socket k tr"
    using run i by (auto simp: create_socket_def sys_socket_def assign_fd_def Let_def)
  then show ?thesis using net_obtain [OF inv(1) i(1) fresh_socket [OF inv(2)], of "os_socket k tr" _ "Some (K t')"] K by simp
qed

definition uses :: "sys \<Rightarrow> int \<Rightarrow> bool" where
  "uses e fd \<longleftrightarrow> (\<forall>A. permitted e A = usable fd A \<and> after e A = A)"

lemma uses_simps [simp]:
  "uses (Bind fd a r) fd" "uses (Listen fd m r) fd" "uses (Connect fd a r) fd"
  "uses (Send fd b l f r) fd" "uses (Recv fd b l f r) fd"
  by (simp_all add: uses_def)

lemma net_use_own:
  assumes "net_inv vs tr" and "i < length vs" and "vs ! i = Some x" and "uses e (obj_fd x)"
  shows "net_inv vs (tr @ [e])"
  using assms(4) net_usable [OF assms(1-3)] by (intro net_use [OF assms(1)]) (simp_all add: uses_def)

lemma start_inv:
  assumes inv: "net_inv vs tr" "fresh_fds k" and i: "i < length vs" "vs ! i = Some (Server t)"
    and run: "start k addr t tr = (r, t', tr')"
  shows "net_inv (vs[i := Some (Server t')]) tr'"
proof -
  obtain r1 t1 tr1 where c: "create_socket k t tr = (r1, t1, tr1)" by (cases "create_socket k t tr")
  let ?vs = "vs[i := Some (Server t1)]"
  have inv1: "net_inv ?vs tr1" using create_socket_inv [OF inv i(1,2) _ _ c, of Server] by simp
  note use = net_use_own [of ?vs _ i "Server t1"]
  show ?thesis
  proof (cases r1)
    case (Inl e)
    then show ?thesis using run c inv1 by (simp add: start_def)
  next
    case (Inr u)
    let ?e1 = "\<lambda>r. Bind (sock_fd (m_sock t1)) \<lparr>sin_port = htons (port t1), sin_addr = addr (c_str (ip t1))\<rparr> r"
    let ?e2 = "\<lambda>r. Listen (sock_fd (m_sock t1)) MAX_LISTEN_NUM r"
    have b: "net_inv ?vs (tr1 @ [?e1 r])" for r using inv1 i by (intro use) simp_all
    then have l: "net_inv ?vs ((tr1 @ [?e1 r]) @ [?e2 r'])" for r r'
      using i by (intro use [OF b]) simp_all
    have same: "net_inv (vs[i := Some (Server (t1\<lparr>running := True\<rparr>))]) tr2" if "net_inv ?vs tr2" for tr2
      using net_put [OF that, of i "Some (Server (t1\<lparr>running := True\<rparr>))"] i by simp
    show ?thesis using run c Inr b l
      by (auto simp: start_def sys_bind_def sys_listen_def as_int_def Let_def split: if_splits intro!: same)
  qed
qed

lemma connect_to_server_inv:
  assumes inv: "net_inv vs tr" "fresh_fds k" and i: "i < length vs" "vs ! i = Some (Client t)"
    and run: "connect_to_server k pton t tr = (r, t', tr')"
  shows "net_inv (vs[i := Some (Client t')]) tr'"
proof -
  obtain r1 t1 tr1 where c: "create_socket k t tr = (r1, t1, tr1)" by (cases "create_socket k t tr")
  let ?vs = "vs[i := Some (Client t1)]"
  have inv1: "net_inv ?vs tr1" using create_socket_inv [OF inv i(1,2) _ _ c, of Client] by simp
  show ?thesis
  proof (cases r1)
    case (Inl e)
    then show ?thesis using run c inv1 by (simp add: connect_to_server_def)
  next
    case (Inr u)
    let ?e = "\<lambda>a r. Connect (sock_fd (m_sock t1)) \<lparr>sin_port = htons (port t1), sin_addr = a\<rparr> r"
    have b: "net_inv ?vs (tr1 @ [?e a r])" for a r
      using inv1 i by (intro net_use_own [of ?vs _ i "Client t1"]) simp_all
    show ?thesis using run c Inr b inv1
      by (auto simp: connect_to_server_def sys_connect_def as_int_def Let_def split: if_splits prod.splits)
  qed
qed

lemma accept_inv:
  assumes inv: "net_inv vs tr" "fresh_fds k" and i: "i < length vs" "vs ! i = Some (Server t)"
    and j: "free_at j vs" and run: "accept_client k t tr = (r, tr')"
  shows "case r of Inl _ \<Rightarrow> net_inv vs tr' | Inr c \<Rightarrow> net_inv (vs[j := Some (Sock c)]) tr'"
proof -
  let ?l = "sock_fd (m_sock t)" and ?fd = "os_accept k tr (sock_fd (m_sock t))"
  have p: "permitted (Accept ?l ?fd) (open_fds tr)"
    using net_usable [OF inv(1) i] inv(2) by (simp add: fresh_fds_def)
  show ?thesis
  proof (cases "?fd < 0")
    case True
    then have "net_inv vs (tr @ [Accept ?l ?fd])" using inv p by (intro net_use) auto
    then show ?thesis using run True by (auto simp: accept_client_def sys_accept_def as_int_def Let_def)
  next
    case False
    have "net_inv (vs[j := Some (Sock (socket_ctor ?fd))]) (tr @ Accept ?l ?fd # closing (vs ! j))"
      using free_atD [OF j] by (intro net_obtain [OF inv(1) _ p]) (auto simp: socket_ctor_def)
    then show ?thesis using run False free_atD [OF j]
      by (auto simp: accept_client_def sys_accept_def as_int_def Let_def)
  qed
qed

lemma wrap_inv:
  assumes inv: "net_inv vs tr" "fresh_fds k" and i: "i < length vs"
  shows "net_inv (vs[i := Some (Sock \<lparr>sock_fd = os_socket k tr\<rparr>)]) (tr @ Socket (os_socket k tr) # closing (vs ! i))"
  using fresh_socket [OF inv(2)] by (intro net_obtain [OF inv(1) i]) auto

lemma socket_upd: "s\<lparr>sock_fd := f\<rparr> = \<lparr>sock_fd = f\<rparr>"
  by (cases s) simp

lemmas call_defs = sys_socket_def sys_send_def sys_recv_def as_int_def Let_def

lemma net_exec_inv:
  assumes inv: "net_inv vs tr" "fresh_fds k" and run: "net_exec k n a (vs, tr) = Some (vs', tr')"
  shows "net_inv vs' tr'"
proof (cases a)
  case (NewSocket i)
  then show ?thesis using run inv free_atD [of i vs]
    by (auto simp: socket_default_def split: if_splits intro!: net_put)
next
  case (WrapNew i)
  then show ?thesis using run wrap_inv [OF inv, of i] free_atD [of i vs]
    by (auto simp: call_defs socket_ctor_def split: if_splits)
next
  case (MoveInit i j)
  then obtain z where z: "free_at i vs" "obj_at j vs = Some z" using run by (auto split: if_splits option.splits)
  have "net_inv (vs[i := Some x, j := Some y]) tr" if "obj_fd x = obj_fd z" "obj_fd y < 0" for x y
    using net_move_init [OF inv(1) z that] .
  then show ?thesis
    using run z MoveInit by (cases z) (auto simp: socket_move_ctor_def tcp_move_ctor_def)
next
  case (MoveInto i j)
  then obtain u z where uz: "obj_at i vs = Some u" "obj_at j vs = Some z"
    using run by (auto split: option.splits obj.splits)
  have *: "net_inv (vs[i := Some x, j := Some y]) (tr @ closing (Some u))"
    if "obj_fd x = obj_fd z" "obj_fd y < 0" "i \<noteq> j" for x y
    using net_move_into [OF inv(1) uz that(3,1,2)] .
  show ?thesis
    using run uz MoveInto inv(1) *
    by (cases u; cases z)
      (auto simp: socket_move_assign_def tcp_move_assign_def Let_def split: if_splits)
next
  case (AssignNew i)
  then show ?thesis using run wrap_inv [OF inv, of i] obj_atD [of i vs]
    by (auto simp: call_defs assign_fd_def socket_upd split: option.splits obj.splits if_splits)
next
  case (ResetNew i)
  then show ?thesis using run wrap_inv [OF inv, of i] obj_atD [of i vs]
    by (auto simp: call_defs socket_reset_def socket_upd split: option.splits obj.splits if_splits)
next
  case (ResetEmpty i)
  then obtain s where s: "obj_at i vs = Some (Sock s)" "vs' = vs[i := Some (Sock (s\<lparr>sock_fd := -1\<rparr>))]"
    "tr' = tr @ closing (Some (Sock s))"
    using run by (auto simp: socket_reset_def Let_def split: option.splits obj.splits if_splits)
  then show ?thesis using net_close [OF inv(1), of i "Some (Sock (s\<lparr>sock_fd := -1\<rparr>))"] obj_atD [OF s(1)] by simp
next
  case (NewClient i c p)
  then show ?thesis using run inv free_atD [of i vs]
    by (auto simp: tcp_ctor_def socket_ctor_def split: if_splits intro!: net_put)
next
  case (NewServer i c p)
  then show ?thesis using run inv free_atD [of i vs]
    by (auto simp: tcp_ctor_def socket_ctor_def split: if_splits intro!: net_put)
next
  case (StartServer i)
  then show ?thesis using run start_inv [OF inv] obj_atD [of i vs]
    by (auto split: option.splits obj.splits prod.splits)
next
  case (ConnectClient i)
  then show ?thesis using run connect_to_server_inv [OF inv] obj_atD [of i vs]
    by (auto split: option.splits obj.splits prod.splits)
next
  case (AcceptInto i j)
  then show ?thesis using run accept_inv [OF inv, of i _ j] obj_atD [of i vs]
    by (fastforce split: option.splits obj.splits prod.splits sum.splits if_splits)
next
  case (SendTo i b l)
  then show ?thesis using run net_use_own [OF inv(1), of i] obj_atD [of i vs]
    by (fastforce simp: server_send_def client_send_def send_data_def call_defs split: option.splits obj.splits)
next
  case (RecvFrom i b l)
  then show ?thesis using run net_use_own [OF inv(1), of i] obj_atD [of i vs]
    by (fastforce simp: server_recv_def client_recv_def recv_data_def call_defs split: option.splits obj.splits)
next
  case (Destroy i)
  then obtain x where x: "obj_at i vs = Some x" "vs' = vs[i := None]" "tr' = tr @ closing (Some x)"
    using run by (auto simp: tcp_dtor_def socket_dtor_def split: option.splits obj.splits)
  then show ?thesis using net_close [OF inv(1), of i None] obj_atD [OF x(1)] by simp
qed

interpretation net: machine "(replicate m None, [])" "net_exec k n" "\<lambda>(vs, tr). fresh_fds k \<longrightarrow> net_inv vs tr" for m k n
proof
  have "held fd_part (replicate m None) = {#}" by (rule held_none) simp
  then show "case (replicate m None, []) of (vs, tr) \<Rightarrow> fresh_fds k \<longrightarrow> net_inv vs tr" by (simp add: net_inv_def)
qed (use net_exec_inv in fast)

lemma net_reach_inv: "net_reach k n vs tr \<Longrightarrow> fresh_fds k \<Longrightarrow> net_inv vs tr"
  using net.reachable_inv by (fastforce simp: net_reach_def)

section \<open>A kernel to run the examples on\<close>

definition next_fd :: "sys list \<Rightarrow> int" where
  "next_fd tr = fold (\<lambda>e m. case e of Socket fd \<Rightarrow> max m (fd + 1) | Accept _ fd \<Rightarrow> max m (fd + 1) | _ \<Rightarrow> m) tr 3"

definition demo_os :: os where
  "demo_os = \<lparr>os_socket = next_fd, os_bind = (\<lambda>_ _ _. 0), os_listen = (\<lambda>_ _ _. 0),
     os_accept = (\<lambda>tr _. next_fd tr), os_connect = (\<lambda>_ _ _. 0),
     os_send = (\<lambda>_ _ _ len _. uint len), os_recv = (\<lambda>_ _ _ len _. uint len)\<rparr>"

definition demo_names :: names where
  "demo_names = \<lparr>inet_addr = (\<lambda>s. if s = ''10.0.0.1'' then 0x0100000a else 0xffffffff),
     inet_pton = (\<lambda>s. if s = ''10.0.0.1'' then (1, 0x0100000a) else (0, 0)), moved_from = (\<lambda>_. '''')\<rparr>"

lemma next_fd_above: "fd \<in> open_fds tr \<Longrightarrow> fd < next_fd tr"
proof (induction tr rule: rev_induct)
  case (snoc e tr)
  then show ?case by (cases e) (auto simp: next_fd_def split: if_splits)
qed simp

lemma demo_os_fresh: "fresh_fds demo_os"
  using next_fd_above by (fastforce simp: fresh_fds_def demo_os_def)

abbreviation net_run :: "os \<Rightarrow> names \<Rightarrow> net_op list \<Rightarrow> objs \<times> sys list \<Rightarrow> (objs \<times> sys list) option" where
  "net_run k n \<equiv> run_steps (net_exec k n)"

section \<open>Properties\<close>

text \<open>
  C30: whatever a program does with sockets, clients and servers, on whatever answers of the
  kernel, no system call is ever made on a descriptor that was closed, none is closed twice, every
  open descriptor belongs to exactly one object, and when all the objects are gone each
  descriptor was closed as often as the kernel opened it.
\<close>

theorem net_discipline:
  assumes "net_reach k n vs tr" and "fresh_fds k"
  shows "disciplined tr {} \<and> held fd_part vs = mset_set (open_fds tr) \<and>
    (set vs \<subseteq> {None} \<longrightarrow> (\<forall>fd. 0 \<le> fd \<longrightarrow> times_opened fd tr = times_closed fd tr))"
proof -
  have inv: "net_inv vs tr" using assms by (rule net_reach_inv)
  have "open_fds tr = {}" if "set vs \<subseteq> {None}"
  proof -
    have "held fd_part vs = {#}" using that by (intro held_none) auto
    then show ?thesis using inv by (simp add: net_inv_def mset_set_empty_iff)
  qed
  then show ?thesis using inv disciplined_balance [of tr] by (auto simp: net_inv_def)
qed

text \<open>A server accepts a client, moves and answers it, and is destroyed before it.\<close>

abbreviation demo_ops :: "net_op list" where
  "demo_ops \<equiv> [NewServer 0 ''10.0.0.1'' 80, StartServer 0, AcceptInto 0 1, MoveInit 2 1, SendTo 2 4096 5,
     StartServer 0, Destroy 0, Destroy 1, Destroy 2]"

abbreviation demo_trace :: "sys list" where
  "demo_trace \<equiv> [Socket 3, Bind 3 \<lparr>sin_port = 0x5000, sin_addr = 0x0100000a\<rparr> 0, Listen 3 10 0, Accept 3 4,
     Send 4 4096 5 0x4000 5, Socket 5, Close 3, Bind 5 \<lparr>sin_port = 0x5000, sin_addr = 0x0100000a\<rparr> 0,
     Listen 5 10 0, Close 5, Close 4]"

lemma demo_net_run: "net_run demo_os demo_names demo_ops ([None, None, None], []) = Some ([None, None, None], demo_trace)"
  by code_simp

theorem net_discipline_witness:
  "times_opened 4 demo_trace = times_closed 4 demo_trace \<and> disciplined demo_trace {} \<and> 4 \<notin> open_fds demo_trace"
proof -
  have "net_reach demo_os demo_names [None, None, None] demo_trace"
    using run_reachable [OF demo_net_run reach_start] by (simp add: net_reach_def numeral_3_eq_3)
  from net_discipline [OF this demo_os_fresh] show ?thesis
    by (simp add: mset_set_empty_iff)
qed

text \<open>The error that the enumeration has for a call that failed.\<close>

fun failure :: "sys \<Rightarrow> TcpError option" where
  "failure (Socket r) = (if r < 0 then Some BAD_SOCKET else None)"
| "failure (Bind _ _ r) = (if r < 0 then Some BIND_FAIL else None)"
| "failure (Listen _ _ r) = (if r < 0 then Some LISTEN_FAIL else None)"
| "failure (Accept _ r) = (if r < 0 then Some ACCEPT_FAIL else None)"
| "failure (Connect _ _ r) = (if r < 0 then Some CONNECT_FAIL else None)"
| "failure (Send _ _ _ _ r) = (if r < 0 then Some SEND_FAIL else None)"
| "failure (Recv _ _ _ _ r) = (if r < 0 then Some RECV_FAIL else None)"
| "failure (Close _) = None"

text \<open>The result that reports the first failure among the calls an operation made.\<close>

fun report :: "sys list \<Rightarrow> TcpError + unit" where
  "report [] = Inr ()"
| "report (e # tr) = (case failure e of Some err \<Rightarrow> Inl err | None \<Rightarrow> report tr)"

definition same_address :: "tcp \<Rightarrow> tcp \<Rightarrow> bool" where
  "same_address t t' \<longleftrightarrow> ip t' = ip t \<and> port t' = port t"

text \<open>
  C31: start calls socket, bind and listen in this order, closes the socket the server had, stops
  at the first call that fails and reports that one; the server counts as running after a start
  that succeeded, and then listens on its own address. After a failure it runs if it did before.
\<close>

theorem start_reports:
  assumes "start k addr t tr = (r, t', tr')"
  shows "\<exists>new. tr' = tr @ new \<and> r = report new \<and> same_address t t' \<and>
    running t' = (running t \<or> r = Inr ()) \<and>
    (\<forall>e\<in>set (butlast new). failure e = None) \<and>
    (r = Inr () \<longrightarrow>
       (\<exists>b l. new = Socket (sock_fd (m_sock t')) # closing (Some (Server t)) @
          [Bind (sock_fd (m_sock t')) \<lparr>sin_port = htons (port t), sin_addr = addr (c_str (ip t))\<rparr> b,
           Listen (sock_fd (m_sock t')) 10 l]))"
  using assms
  by (auto simp: start_def create_socket_def sys_socket_def sys_bind_def sys_listen_def assign_fd_def as_int_def
      same_address_def MAX_LISTEN_NUM_def Let_def split: if_splits)

theorem start_reports_witness:
  "\<exists>new. ([Socket 3, Close 9, Bind 3 \<lparr>sin_port = 0x5000, sin_addr = 0x0100000a\<rparr> (-1)] :: sys list) = new \<and> Inl BIND_FAIL = report new"
proof -
  let ?k = "demo_os\<lparr>os_bind := \<lambda>_ _ _. -1\<rparr>" and ?t = "\<lparr>ip = ''10.0.0.1'', port = 80, m_sock = \<lparr>sock_fd = 9\<rparr>, running = True\<rparr>"
  have "start ?k (inet_addr demo_names) ?t [] =
    (Inl BIND_FAIL, ?t\<lparr>m_sock := \<lparr>sock_fd = 3\<rparr>\<rparr>, [Socket 3, Close 9, Bind 3 \<lparr>sin_port = 0x5000, sin_addr = 0x0100000a\<rparr> (-1)])"
    by code_simp
  from start_reports [OF this] show ?thesis by auto
qed

text \<open>
  connect_to_server obtains a socket, closes the one the client had, translates the address
  and connects, in this order. It reports the first call that fails, and INVALID_IP with no
  attempt to connect exactly when inet_pton refuses the address.
\<close>

theorem connect_reports:
  assumes "connect_to_server k pton t tr = (r, t', tr')"
  shows "\<exists>new. tr' = tr @ new \<and> same_address t t' \<and> running t' = running t \<and>
    (\<forall>e\<in>set (butlast new). failure e = None) \<and>
    (if report new = Inr () \<and> fst (pton (c_str (ip t))) \<le> 0
     then r = Inl INVALID_IP \<and> new = Socket (sock_fd (m_sock t')) # closing (Some (Client t))
     else r = report new) \<and>
    (r = Inr () \<longrightarrow>
       (\<exists>c. new = Socket (sock_fd (m_sock t')) # closing (Some (Client t)) @
          [Connect (sock_fd (m_sock t')) \<lparr>sin_port = htons (port t), sin_addr = snd (pton (c_str (ip t)))\<rparr> c]))"
  using assms
  by (auto simp: connect_to_server_def create_socket_def sys_socket_def sys_connect_def assign_fd_def as_int_def
      same_address_def Let_def split: if_splits prod.splits)

theorem connect_reports_witness:
  "\<exists>new. [Socket 3] = new \<and> report new = Inr ()"
proof -
  have "connect_to_server demo_os (inet_pton demo_names) (tcp_ctor ''nowhere'' 80) [] =
    (Inl INVALID_IP, (tcp_ctor ''nowhere'' 80)\<lparr>m_sock := \<lparr>sock_fd = 3\<rparr>\<rparr>, [Socket 3])"
    by code_simp
  from connect_reports [OF this] show ?thesis by (auto split: if_splits)
qed

text \<open>
  a failure to accept is reported as BAD_SOCKET and never as ACCEPT_FAIL, and start never
  reports INVALID_IP: with an address that inet_addr refuses it binds the answer INADDR_NONE,
  the address 255.255.255.255, like any other.
\<close>

theorem server_misreports:
  "fst (accept_client k t tr) \<noteq> Inl ACCEPT_FAIL \<and>
   (os_accept k tr (sock_fd (m_sock t)) < 0 \<longrightarrow> fst (accept_client k t tr) = Inl BAD_SOCKET) \<and>
   fst (start k addr t tr) \<noteq> Inl INVALID_IP \<and>
   (fst (start k (\<lambda>_. 0xffffffff) t tr) = Inr () \<longrightarrow>
      (\<exists>fd b. Bind fd \<lparr>sin_port = htons (port t), sin_addr = 0xffffffff\<rparr> b \<in> set (snd (snd (start k (\<lambda>_. 0xffffffff) t tr)))))"
  by (auto simp: accept_client_def sys_accept_def start_def create_socket_def sys_socket_def sys_bind_def sys_listen_def
      assign_fd_def as_int_def Let_def)

theorem server_misreports_witness:
  "fst (accept_client (demo_os\<lparr>os_accept := \<lambda>_ _. -1\<rparr>) (tcp_ctor ''nowhere'' 80) []) = Inl BAD_SOCKET"
  using server_misreports [of "demo_os\<lparr>os_accept := \<lambda>_ _. -1\<rparr>" "tcp_ctor ''nowhere'' 80" "[]"] by simp

text \<open>A count the kernel reports arrives unchanged.\<close>

lemma transfer_counts:
  assumes "client_send k buf len t tr = (Inr c, tr')" and "\<forall>tr fd buf len fl. os_send k tr fd buf len fl \<le> uint len"
  shows "int (unat c) = os_send k tr (sock_fd (m_sock t)) buf len 0 \<and> c \<le> len"
proof -
  let ?r = "os_send k tr (sock_fd (m_sock t)) buf len 0"
  have r: "0 \<le> ?r" "?r \<le> uint len" "c = word_of_int ?r"
    using assms by (auto simp: client_send_def send_data_def sys_send_def as_int_def Let_def split: if_splits)
  have "?r < 2 ^ 64" using r(2) uint_lt2p [of len] by simp
  then have "uint c = ?r" using r by (simp add: uint_word_of_int)
  then show ?thesis using r(2) by (simp add: word_le_def)
qed

text \<open>reset and the assignment with the descriptor the socket already has close it and keep it.\<close>

lemma reset_own_fd:
  assumes "0 \<le> sock_fd s" and "sock_fd s \<in> open_fds tr"
  shows "case socket_reset (as_int s) s tr of
    (s', tr') \<Rightarrow> valid s' \<and> sock_fd s' \<notin> open_fds tr' \<and> \<not> disciplined (socket_dtor s' tr') {}"
  using assms by (auto simp: socket_reset_def socket_dtor_def valid_def as_int_def Let_def open_fds_def)

end
