(* ===== verification/Cassandra.thy ===== *)
theory Cassandra
  imports Traces
begin

text \<open>
  The client of include/quick/io/Cassandra.hh. The driver is a third-party library: what it
  answers is a parameter, a function of the calls made so far, and a state of the program is the
  list of those calls, each with its answer. The texts of the statements are named, not spelled
  out. The five calls that bind the fields of a row are one element of the list.
\<close>

section \<open>The driver\<close>

datatype query = Insert_basic | Select_basic | Create_keyspace | Create_table

record basic =
  bln :: bool
  flt :: int
  dbl :: int
  i32 :: int
  i64 :: int

text \<open>A variable of the same type that may not have been written to, field by field.\<close>

record cells =
  o_bln :: "bool option"
  o_flt :: "int option"
  o_dbl :: "int option"
  o_i32 :: "int option"
  o_i64 :: "int option"

datatype cass =
    Cluster_new nat | Set_contact_points nat string | Session_new nat | Session_connect nat nat nat
  | Future_wait nat | Future_error_code nat nat | Future_error_message nat | Future_free nat
  | Statement_new query nat | Bind_key nat string | Bind_basic nat basic | Session_execute nat nat nat
  | Get_result nat nat | Iterator_from_result nat nat | Iterator_next nat bool | Get_row nat
  | Get_bool nat nat "bool option" | Get_num nat nat "int option"
  | Stderr string | Result_free nat | Iterator_free nat | Statement_free nat | Session_free nat | Cluster_free nat

text \<open>
  What the library answers: a handle for everything that creates an object, the code of a future,
  whether an iterator finds a row, and the values in the columns of the row, None when the function
  that reads one reports an error and writes nothing. The numbers stand for values of their types,
  those of floating point in ten-thousandths: the program only copies and compares them.
\<close>

record driver =
  new_handle :: "cass list \<Rightarrow> nat"
  error_code :: "cass list \<Rightarrow> nat \<Rightarrow> nat"
  error_message :: "cass list \<Rightarrow> nat \<Rightarrow> string"
  has_row :: "cass list \<Rightarrow> nat \<Rightarrow> bool"
  bool_at :: "cass list \<Rightarrow> nat \<Rightarrow> nat \<Rightarrow> bool option"
  num_at :: "cass list \<Rightarrow> nat \<Rightarrow> nat \<Rightarrow> int option"

definition CASS_OK :: nat where
  [run_simps]: "CASS_OK = 0"

section \<open>The operations\<close>

definition create_cluster :: "driver \<Rightarrow> string \<Rightarrow> cass list \<Rightarrow> nat \<times> cass list" where
  [run_simps]: "create_cluster d hosts tr =
     (let cluster = new_handle d tr in (cluster, tr @ [Cluster_new cluster, Set_contact_points cluster hosts]))"

text \<open>
  The message of a failed future, on the standard error; it is printed up to its length or to a
  null character. (The length goes through an int; a message is shorter than 2^31 characters.)
\<close>

definition print_error :: "driver \<Rightarrow> nat \<Rightarrow> cass list \<Rightarrow> cass list" where
  [run_simps]: "print_error d future tr =
     tr @ [Future_error_message future,
       Stderr (''Error: '' @ takeWhile (\<lambda>c. c \<noteq> CHR 0x00) (error_message d tr future) @ [CHR 0x0A])]"

text \<open>Waiting for a future and asking for its code, with the message when it failed.\<close>

definition finish_future :: "driver \<Rightarrow> nat \<Rightarrow> cass list \<Rightarrow> nat \<times> cass list" where
  [run_simps]: "finish_future d future tr =
     (let tr = tr @ [Future_wait future]; rc = error_code d tr future; tr = tr @ [Future_error_code future rc]
      in (rc, if rc \<noteq> CASS_OK then print_error d future tr else tr))"

definition connect_session :: "driver \<Rightarrow> nat \<Rightarrow> nat \<Rightarrow> cass list \<Rightarrow> nat \<times> cass list" where
  [run_simps]: "connect_session d session cluster tr =
     (let future = new_handle d tr; tr = tr @ [Session_connect session cluster future]
      in (case finish_future d future tr of (rc, tr) \<Rightarrow> (rc, tr @ [Future_free future])))"

definition execute_query :: "driver \<Rightarrow> nat \<Rightarrow> query \<Rightarrow> cass list \<Rightarrow> nat \<times> cass list" where
  [run_simps]: "execute_query d session q tr =
     (let statement = new_handle d tr; tr = tr @ [Statement_new q statement];
          future = new_handle d tr; tr = tr @ [Session_execute session statement future]
      in (case finish_future d future tr of (rc, tr) \<Rightarrow> (rc, tr @ [Future_free future, Statement_free statement])))"

definition insert_into_basic :: "driver \<Rightarrow> nat \<Rightarrow> string \<Rightarrow> basic \<Rightarrow> cass list \<Rightarrow> nat \<times> cass list" where
  [run_simps]: "insert_into_basic d session key b tr =
     (let statement = new_handle d tr; tr = tr @ [Statement_new Insert_basic statement, Bind_key statement key, Bind_basic statement b];
          future = new_handle d tr; tr = tr @ [Session_execute session statement future]
      in (case finish_future d future tr of (rc, tr) \<Rightarrow> (rc, tr @ [Future_free future, Statement_free statement])))"

text \<open>The functions that read a column write to the variable when they succeed; their codes are ignored.\<close>

definition written :: "'a option \<Rightarrow> 'a option \<Rightarrow> 'a option" where
  [run_simps]: "written answer old = (case answer of None \<Rightarrow> old | Some v \<Rightarrow> Some v)"

definition read_row :: "driver \<Rightarrow> nat \<Rightarrow> cells \<Rightarrow> cass list \<Rightarrow> cells \<times> cass list" where
  [run_simps]: "read_row d iterator out tr =
     (let tr = tr @ [Get_row iterator];
          b = bool_at d tr iterator 1; out = out\<lparr>o_bln := written b (o_bln out)\<rparr>; tr = tr @ [Get_bool iterator 1 b];
          n = num_at d tr iterator 2; out = out\<lparr>o_dbl := written n (o_dbl out)\<rparr>; tr = tr @ [Get_num iterator 2 n];
          n = num_at d tr iterator 3; out = out\<lparr>o_flt := written n (o_flt out)\<rparr>; tr = tr @ [Get_num iterator 3 n];
          n = num_at d tr iterator 4; out = out\<lparr>o_i32 := written n (o_i32 out)\<rparr>; tr = tr @ [Get_num iterator 4 n];
          n = num_at d tr iterator 5; out = out\<lparr>o_i64 := written n (o_i64 out)\<rparr>; tr = tr @ [Get_num iterator 5 n]
      in (out, tr))"

text \<open>The branch of select_from_basic that reads the first row of the result of a future.\<close>

definition read_result :: "driver \<Rightarrow> nat \<Rightarrow> cells \<Rightarrow> cass list \<Rightarrow> cells \<times> cass list" where
  [run_simps]: "read_result d future out tr =
     (let result = new_handle d tr; tr = tr @ [Get_result future result];
          iterator = new_handle d tr; tr = tr @ [Iterator_from_result result iterator];
          row = has_row d tr iterator; tr = tr @ [Iterator_next iterator row]
      in (case (if row then read_row d iterator out tr else (out, tr)) of
            (out, tr) \<Rightarrow> (out, tr @ [Result_free result, Iterator_free iterator])))"

definition select_from_basic :: "driver \<Rightarrow> nat \<Rightarrow> string \<Rightarrow> cells \<Rightarrow> cass list \<Rightarrow> nat \<times> cells \<times> cass list" where
  [run_simps]: "select_from_basic d session key out tr =
     (let statement = new_handle d tr; tr = tr @ [Statement_new Select_basic statement, Bind_key statement key];
          future = new_handle d tr; tr = tr @ [Session_execute session statement future]
      in (case finish_future d future tr of
            (rc, tr) \<Rightarrow>
              (case (if rc \<noteq> CASS_OK then (out, tr) else read_result d future out tr) of
                 (out, tr) \<Rightarrow> (rc, out, tr @ [Future_free future, Statement_free statement]))))"

definition input :: basic where
  [run_simps]: "input = \<lparr>bln = True, flt = 10, dbl = 2, i32 = 1, i64 = 2\<rparr>"

definition unwritten :: cells where
  [run_simps]: "unwritten = \<lparr>o_bln = None, o_flt = None, o_dbl = None, o_i32 = None, o_i64 = None\<rparr>"

text \<open>
  How init_db ends: it returns, or an assertion fails, which ends the program, or an assertion reads
  a field that nothing was written to, which is undefined behaviour. The assertions are evaluated in
  order, up to the first that does not hold.
\<close>

datatype outcome = Returned bool | Assertion_failed | Indeterminate

definition check_field :: "'a \<Rightarrow> 'a option \<Rightarrow> outcome option" where
  [run_simps]: "check_field expected field =
     (case field of None \<Rightarrow> Some Indeterminate | Some v \<Rightarrow> if expected = v then None else Some Assertion_failed)"

fun first_failure :: "outcome option list \<Rightarrow> outcome option" where
  "first_failure [] = None"
| "first_failure (None # cs) = first_failure cs"
| "first_failure (Some e # cs) = Some e"

definition assertions :: "basic \<Rightarrow> cells \<Rightarrow> outcome option" where
  [run_simps]: "assertions b out = first_failure
     [check_field (bln b) (o_bln out), check_field (flt b) (o_flt out), check_field (dbl b) (o_dbl out),
      check_field (i32 b) (o_i32 out), check_field (i64 b) (o_i64 out)]"

text \<open>init_db with the arguments of main.\<close>

definition init_db :: "driver \<Rightarrow> string list \<Rightarrow> cass list \<Rightarrow> outcome \<times> cass list" where
  [run_simps]: "init_db d argv tr =
     (let session = new_handle d tr; tr = tr @ [Session_new session];
          hosts = (if length argv > 1 then argv ! 1 else ''127.0.0.1'')
      in (case create_cluster d hosts tr of
            (cluster, tr) \<Rightarrow>
              (case connect_session d session cluster tr of
                 (rc, tr) \<Rightarrow>
                   if rc \<noteq> CASS_OK then (Returned False, tr @ [Cluster_free cluster, Session_free session])
                   else
                     (case execute_query d session Create_keyspace tr of (_, tr) \<Rightarrow>
                      (case execute_query d session Create_table tr of (_, tr) \<Rightarrow>
                       (case insert_into_basic d session ''test2'' input tr of (_, tr) \<Rightarrow>
                        (case select_from_basic d session ''test2'' unwritten tr of (_, out, tr) \<Rightarrow>
                          (case assertions input out of
                             Some e \<Rightarrow> (e, tr)
                           | None \<Rightarrow> (Returned True, tr @ [Session_free session, Cluster_free cluster])))))))))"

section \<open>Handles\<close>

text \<open>The handles a call needs alive, the one it makes, and the one it frees.\<close>

fun needs :: "cass \<Rightarrow> nat set" where
  "needs (Cluster_new _) = {}"
| "needs (Set_contact_points c _) = {c}"
| "needs (Session_new _) = {}"
| "needs (Session_connect s c _) = {s, c}"
| "needs (Future_wait f) = {f}"
| "needs (Future_error_code f _) = {f}"
| "needs (Future_error_message f) = {f}"
| "needs (Stderr _) = {}"
| "needs (Future_free f) = {f}"
| "needs (Statement_new _ _) = {}"
| "needs (Bind_key st _) = {st}"
| "needs (Bind_basic st _) = {st}"
| "needs (Session_execute s st _) = {s, st}"
| "needs (Get_result f _) = {f}"
| "needs (Iterator_from_result r _) = {r}"
| "needs (Iterator_next i _) = {i}"
| "needs (Get_row i) = {i}"
| "needs (Get_bool i _ _) = {i}"
| "needs (Get_num i _ _) = {i}"
| "needs (Result_free r) = {r}"
| "needs (Iterator_free i) = {i}"
| "needs (Statement_free st) = {st}"
| "needs (Session_free s) = {s}"
| "needs (Cluster_free c) = {c}"

fun makes :: "cass \<Rightarrow> nat set" where
  "makes (Cluster_new c) = {c}"
| "makes (Session_new s) = {s}"
| "makes (Session_connect _ _ f) = {f}"
| "makes (Statement_new _ st) = {st}"
| "makes (Session_execute _ _ f) = {f}"
| "makes (Get_result _ r) = {r}"
| "makes (Iterator_from_result _ i) = {i}"
| "makes _ = {}"

fun frees :: "cass \<Rightarrow> nat set" where
  "frees (Future_free f) = {f}"
| "frees (Result_free r) = {r}"
| "frees (Iterator_free i) = {i}"
| "frees (Statement_free st) = {st}"
| "frees (Session_free s) = {s}"
| "frees (Cluster_free c) = {c}"
| "frees _ = {}"

text \<open>
  The objects that are alive; which iterators come from which results; and the iterators that are
  still alive but whose result was freed, which the library calls invalidated: they may only be
  freed.
\<close>

record cass_state =
  live :: "nat set"
  derived :: "(nat \<times> nat) set"
  invalidated :: "nat set"

definition cass_permits :: "cass \<Rightarrow> cass_state \<Rightarrow> bool" where
  "cass_permits e S \<longleftrightarrow> needs e \<subseteq> live S \<and> (needs e - frees e) \<inter> invalidated S = {} \<and> makes e \<inter> live S = {}"

fun derive :: "cass \<Rightarrow> cass_state \<Rightarrow> cass_state" where
  "derive (Iterator_from_result r i) S = S\<lparr>derived := insert (i, r) (derived S)\<rparr>"
| "derive (Result_free r) S = S\<lparr>invalidated := invalidated S \<union> {i. (i, r) \<in> derived S}\<rparr>"
| "derive (Iterator_free i) S = S\<lparr>derived := {p \<in> derived S. fst p \<noteq> i}, invalidated := invalidated S - {i}\<rparr>"
| "derive _ S = S"

definition cass_after :: "cass \<Rightarrow> cass_state \<Rightarrow> cass_state" where
  "cass_after e S = (derive e S)\<lparr>live := (live S \<union> makes e) - frees e\<rparr>"

definition cass_start :: cass_state where
  "cass_start = \<lparr>live = {}, derived = {}, invalidated = {}\<rparr>"

definition cass_now :: "cass list \<Rightarrow> cass_state" where
  "cass_now tr = fold cass_after tr cass_start"

definition live_handles :: "cass list \<Rightarrow> nat set" where
  "live_handles tr = live (cass_now tr)"

abbreviation cass_disciplined :: "cass list \<Rightarrow> bool" where
  "cass_disciplined tr \<equiv> follows cass_permits cass_after tr cass_start"

text \<open>The library hands out no handle that is still alive.\<close>

definition fresh_handles :: "driver \<Rightarrow> bool" where
  "fresh_handles d \<longleftrightarrow> (\<forall>tr. new_handle d tr \<notin> live_handles tr)"

text \<open>A proper trace that leaves the objects of A alive, no iterator among them.\<close>

definition holds :: "nat set \<Rightarrow> cass list \<Rightarrow> bool" where
  "holds A tr \<longleftrightarrow> cass_disciplined tr \<and> cass_now tr = \<lparr>live = A, derived = {}, invalidated = {}\<rparr>"

lemma holds_start: "holds {} []"
  by (simp add: holds_def cass_now_def cass_start_def)

lemma holds_append:
  "holds A tr \<Longrightarrow> holds B (tr @ es) \<longleftrightarrow> follows cass_permits cass_after es \<lparr>live = A, derived = {}, invalidated = {}\<rparr> \<and>
     fold cass_after es \<lparr>live = A, derived = {}, invalidated = {}\<rparr> = \<lparr>live = B, derived = {}, invalidated = {}\<rparr>"
  by (simp add: holds_def cass_now_def)

lemma holds_call:
  assumes "holds A tr" and "needs e \<subseteq> A" and "makes e \<inter> A = {}" and "\<And>r i. e \<noteq> Iterator_from_result r i"
  shows "holds ((A \<union> makes e) - frees e) (tr @ [e])"
proof -
  have "derive e \<lparr>live = A, derived = {}, invalidated = {}\<rparr> = \<lparr>live = A, derived = {}, invalidated = {}\<rparr>"
    using assms(4) by (cases e) auto
  then show ?thesis using assms(2,3) unfolding holds_append [OF assms(1)] by (simp add: cass_permits_def cass_after_def)
qed

lemma holds_use:
  "holds A tr \<Longrightarrow> needs e \<subseteq> A \<Longrightarrow> makes e = {} \<Longrightarrow> frees e = {} \<Longrightarrow> holds A (tr @ [e])"
  using holds_call [of A tr e] by fastforce

lemma holds_make:
  "holds A tr \<Longrightarrow> needs e \<subseteq> A \<Longrightarrow> makes e = {h} \<Longrightarrow> frees e = {} \<Longrightarrow> h \<notin> A \<Longrightarrow> (\<And>r i. e \<noteq> Iterator_from_result r i) \<Longrightarrow>
   holds (insert h A) (tr @ [e])"
  using holds_call [of A tr e] by simp

lemma holds_free:
  "holds (insert h A) tr \<Longrightarrow> needs e = {h} \<Longrightarrow> makes e = {} \<Longrightarrow> frees e = {h} \<Longrightarrow> h \<notin> A \<Longrightarrow> holds A (tr @ [e])"
  using holds_call [of "insert h A" tr e] by fastforce

lemma fresh_new: "fresh_handles d \<Longrightarrow> holds A tr \<Longrightarrow> new_handle d tr \<notin> A"
  by (metis cass_state.select_convs(1) fresh_handles_def holds_def live_handles_def)

lemma finish_future_holds:
  assumes "finish_future d f tr = (rc, tr')" and "holds A tr" and "f \<in> A"
  shows "holds A tr'"
proof -
  have w: "holds A (tr @ [Future_wait f])" by (rule holds_use [OF assms(2)]) (use assms(3) in simp_all)
  have c: "holds A ((tr @ [Future_wait f]) @ [Future_error_code f rc])"
    by (rule holds_use [OF w]) (use assms(3) in simp_all)
  have m: "holds A (((tr @ [Future_wait f]) @ [Future_error_code f rc]) @ [Future_error_message f])"
    by (rule holds_use [OF c]) (use assms(3) in simp_all)
  have "holds A ((((tr @ [Future_wait f]) @ [Future_error_code f rc]) @ [Future_error_message f]) @ [Stderr text])" for "text"
    by (rule holds_use [OF m]) simp_all
  with c show ?thesis using assms(1) by (auto simp: finish_future_def print_error_def Let_def split: if_splits)
qed

lemma connect_session_holds:
  assumes "connect_session d s c tr = (rc, tr')" and "holds A tr" and "s \<in> A" and "c \<in> A" and "fresh_handles d"
  shows "holds A tr'"
proof -
  let ?f = "new_handle d tr"
  have new: "?f \<notin> A" using fresh_new [OF assms(5,2)] .
  have "holds (insert ?f A) (tr @ [Session_connect s c ?f])"
    using assms(2-4) new by (intro holds_make) simp_all
  moreover obtain rc2 tr2 where f: "finish_future d ?f (tr @ [Session_connect s c ?f]) = (rc2, tr2)" by fastforce
  ultimately have "holds (insert ?f A) tr2" by (intro finish_future_holds [OF f]) simp_all
  then have "holds A (tr2 @ [Future_free ?f])" by (rule holds_free) (use new in simp_all)
  then show ?thesis using assms(1) f by (simp add: connect_session_def Let_def)
qed

text \<open>A statement that was made, filled in and executed: its future and it are freed in the end.\<close>

lemma free_statement:
  assumes "holds (insert f (insert st A)) tr" and "f \<notin> insert st A" and "st \<notin> A"
  shows "holds A (tr @ [Future_free f, Statement_free st])"
proof -
  have "holds (insert st A) (tr @ [Future_free f])" by (rule holds_free [OF assms(1)]) (use assms(2) in simp_all)
  then have "holds A ((tr @ [Future_free f]) @ [Statement_free st])" by (rule holds_free) (use assms(3) in simp_all)
  then show ?thesis by simp
qed

lemma run_statement:
  assumes "holds (insert st A) tr" and "st \<notin> A" and "s \<in> A" and "fresh_handles d"
    and "finish_future d (new_handle d tr) (tr @ [Session_execute s st (new_handle d tr)]) = (rc, tr')"
  shows "holds (insert (new_handle d tr) (insert st A)) tr'" and "new_handle d tr \<notin> insert st A"
proof -
  show new: "new_handle d tr \<notin> insert st A" using fresh_new [OF assms(4,1)] .
  have "holds (insert (new_handle d tr) (insert st A)) (tr @ [Session_execute s st (new_handle d tr)])"
    using assms(1,3) new by (intro holds_make) simp_all
  then show "holds (insert (new_handle d tr) (insert st A)) tr'" by (intro finish_future_holds [OF assms(5)]) simp_all
qed

lemma execute_query_holds:
  assumes "execute_query d s q tr = (rc, tr')" and "holds A tr" and "s \<in> A" and "fresh_handles d"
  shows "holds A tr'"
proof -
  let ?st = "new_handle d tr" and ?tr1 = "tr @ [Statement_new q (new_handle d tr)]"
  have st: "?st \<notin> A" using fresh_new [OF assms(4,2)] .
  have h: "holds (insert ?st A) ?tr1" using assms(2) st by (intro holds_make) simp_all
  obtain rc2 tr2 where f: "finish_future d (new_handle d ?tr1) (?tr1 @ [Session_execute s ?st (new_handle d ?tr1)]) = (rc2, tr2)"
    by fastforce
  have "holds A (tr2 @ [Future_free (new_handle d ?tr1), Statement_free ?st])"
    using run_statement [OF h st assms(3,4) f] st by (intro free_statement)
  then show ?thesis using assms(1) f by (simp add: execute_query_def Let_def)
qed

lemma insert_into_basic_holds:
  assumes "insert_into_basic d s key b tr = (rc, tr')" and "holds A tr" and "s \<in> A" and "fresh_handles d"
  shows "holds A tr'"
proof -
  let ?st = "new_handle d tr"
  let ?tr1 = "((tr @ [Statement_new Insert_basic ?st]) @ [Bind_key ?st key]) @ [Bind_basic ?st b]"
  have st: "?st \<notin> A" using fresh_new [OF assms(4,2)] .
  have n: "holds (insert ?st A) (tr @ [Statement_new Insert_basic ?st])"
    by (rule holds_make [OF assms(2)]) (use st in simp_all)
  have "holds (insert ?st A) ((tr @ [Statement_new Insert_basic ?st]) @ [Bind_key ?st key])"
    by (rule holds_use [OF n]) simp_all
  then have h: "holds (insert ?st A) ?tr1" by (rule holds_use) simp_all
  obtain rc2 tr2 where f: "finish_future d (new_handle d ?tr1) (?tr1 @ [Session_execute s ?st (new_handle d ?tr1)]) = (rc2, tr2)"
    by fastforce
  have "holds A (tr2 @ [Future_free (new_handle d ?tr1), Statement_free ?st])"
    using run_statement [OF h st assms(3,4) f] st by (intro free_statement)
  then show ?thesis using assms(1) f by (simp add: insert_into_basic_def Let_def)
qed

text \<open>The part of select_from_basic that reads the result of a future.\<close>

abbreviation row_calls :: "nat \<Rightarrow> bool option \<Rightarrow> (nat \<Rightarrow> int option) \<Rightarrow> cass list" where
  "row_calls i b n \<equiv> [Get_row i, Get_bool i 1 b, Get_num i 2 (n 2), Get_num i 3 (n 3), Get_num i 4 (n 4), Get_num i 5 (n 5)]"

lemma read_row_calls:
  assumes "read_row d i out tr = (out', tr')"
  obtains b n where "tr' = tr @ row_calls i b n"
    "out' = \<lparr>o_bln = written b (o_bln out), o_flt = written (n 3) (o_flt out), o_dbl = written (n 2) (o_dbl out),
       o_i32 = written (n 4) (o_i32 out), o_i64 = written (n 5) (o_i64 out)\<rparr>"
proof -
  obtain b n2 n3 n4 n5 where "tr' = tr @ row_calls i b (nth [n2, n2, n2, n3, n4, n5])"
    "out' = \<lparr>o_bln = written b (o_bln out), o_flt = written n3 (o_flt out), o_dbl = written n2 (o_dbl out),
       o_i32 = written n4 (o_i32 out), o_i64 = written n5 (o_i64 out)\<rparr>"
    using assms by (cases out) (auto simp: read_row_def Let_def)
  then show thesis using that [of b "nth [n2, n2, n2, n3, n4, n5]"] by simp
qed

lemma read_result_calls:
  assumes "read_result d f out tr = (out', tr')"
  obtains r i row tail where "r = new_handle d tr" "i = new_handle d (tr @ [Get_result f r])"
    "tr' = tr @ [Get_result f r, Iterator_from_result r i, Iterator_next i row] @ tail @ [Result_free r, Iterator_free i]"
    "tail = [] \<and> out' = out \<or>
     (\<exists>b n. tail = row_calls i b n \<and>
        out' = \<lparr>o_bln = written b (o_bln out), o_flt = written (n 3) (o_flt out), o_dbl = written (n 2) (o_dbl out),
          o_i32 = written (n 4) (o_i32 out), o_i64 = written (n 5) (o_i64 out)\<rparr>)"
proof -
  define r where "r = new_handle d tr"
  define i where "i = new_handle d (tr @ [Get_result f r])"
  define tr1 where "tr1 = (tr @ [Get_result f r]) @ [Iterator_from_result r i]"
  define row where "row = has_row d tr1 i"
  obtain out1 tr2 where row: "(if row then read_row d i out (tr1 @ [Iterator_next i row]) else (out, tr1 @ [Iterator_next i row])) = (out1, tr2)"
    by fastforce
  then have res: "out' = out1" "tr' = tr2 @ [Result_free r, Iterator_free i]"
    using assms unfolding read_result_def Let_def r_def [symmetric] i_def [symmetric] tr1_def [symmetric] row_def [symmetric]
    by simp_all
  note known = that [of r i, OF r_def i_def]
  show thesis
  proof (cases row)
    case True
    then have "read_row d i out (tr1 @ [Iterator_next i row]) = (out1, tr2)" using row by simp
    then show thesis using known res by (elim read_row_calls) (auto simp: tr1_def)
  next
    case False
    then show thesis using row res known [of row "[]"] by (simp add: tr1_def)
  qed
qed

text \<open>Calls that read through an iterator leave everything as it is.\<close>

definition reads :: "nat \<Rightarrow> cass \<Rightarrow> bool" where
  "reads i e \<longleftrightarrow> needs e = {i} \<and> makes e = {} \<and> frees e = {} \<and> (\<forall>S. derive e S = S)"

lemma follows_reads:
  "\<forall>e\<in>set es. reads i e \<Longrightarrow> i \<in> live S \<Longrightarrow> i \<notin> invalidated S \<Longrightarrow>
   follows cass_permits cass_after es S \<and> fold cass_after es S = S"
proof (induction es)
  case (Cons e es)
  then have "cass_permits e S" "cass_after e S = S" by (simp_all add: reads_def cass_permits_def cass_after_def)
  then show ?case using Cons by simp
qed simp

lemma reading_state:
  fixes row
  assumes "holds A tr" and "f \<in> A" and "fresh_handles d" and "r = new_handle d tr" and "i = new_handle d (tr @ [Get_result f r])"
    and "tail = [] \<or> (\<exists>b n. tail = row_calls i b n)"
  defines "S \<equiv> \<lparr>live = insert i (insert r A), derived = {(i, r)}, invalidated = {}\<rparr>"
    and "tr1 \<equiv> tr @ [Get_result f r, Iterator_from_result r i, Iterator_next i row] @ tail"
  shows "cass_disciplined tr1" and "cass_now tr1 = S" and "r \<notin> A" and "i \<notin> insert r A"
proof -
  show r: "r \<notin> A" using fresh_new [OF assms(3,1)] assms(4) by simp
  have h1: "holds (insert r A) (tr @ [Get_result f r])" using assms(1,2) r by (intro holds_make) simp_all
  show i: "i \<notin> insert r A" using fresh_new [OF assms(3) h1] assms(5) by simp
  have "reads i (Iterator_next i row)" "\<forall>e\<in>set tail. reads i e" using assms(6) by (auto simp: reads_def)
  then have "follows cass_permits cass_after (Iterator_next i row # tail) S \<and> fold cass_after (Iterator_next i row # tail) S = S"
    by (intro follows_reads) (auto simp: S_def)
  moreover have "cass_permits (Iterator_from_result r i) \<lparr>live = insert r A, derived = {}, invalidated = {}\<rparr>"
    "cass_after (Iterator_from_result r i) \<lparr>live = insert r A, derived = {}, invalidated = {}\<rparr> = S"
    using i by (simp_all add: cass_permits_def cass_after_def S_def)
  moreover have "tr1 = (tr @ [Get_result f r]) @ Iterator_from_result r i # Iterator_next i row # tail" by (simp add: tr1_def)
  ultimately show "cass_disciplined tr1" "cass_now tr1 = S"
    using h1 unfolding holds_def cass_now_def by (simp_all only: follows_append follows.simps fold_append comp_apply fold_simps)
qed

lemma read_result_holds:
  assumes "read_result d f out tr = (out', tr')" and "holds A tr" and "f \<in> A" and "fresh_handles d"
  shows "holds A tr'"
proof (rule read_result_calls [OF assms(1)])
  fix r i row tail
  assume new: "r = new_handle d tr" "i = new_handle d (tr @ [Get_result f r])"
    and tr': "tr' = tr @ [Get_result f r, Iterator_from_result r i, Iterator_next i row] @ tail @ [Result_free r, Iterator_free i]"
    and "tail = [] \<and> out' = out \<or> (\<exists>b n. tail = row_calls i b n \<and>
        out' = \<lparr>o_bln = written b (o_bln out), o_flt = written (n 3) (o_flt out), o_dbl = written (n 2) (o_dbl out),
          o_i32 = written (n 4) (o_i32 out), o_i64 = written (n 5) (o_i64 out)\<rparr>)"
  then have tail: "tail = [] \<or> (\<exists>b n. tail = row_calls i b n)" by blast
  note st = reading_state(1,2) [OF assms(2,3,4) new tail, of row] reading_state(3,4) [OF assms(2,3,4) new tail]
  let ?S = "\<lparr>live = insert i (insert r A), derived = {(i, r)}, invalidated = {}\<rparr>"
  have "follows cass_permits cass_after [Result_free r, Iterator_free i] ?S"
    "fold cass_after [Result_free r, Iterator_free i] ?S = \<lparr>live = A, derived = {}, invalidated = {}\<rparr>"
    using st(3,4) by (auto simp: cass_permits_def cass_after_def)
  then have "holds A ((tr @ [Get_result f r, Iterator_from_result r i, Iterator_next i row] @ tail) @ [Result_free r, Iterator_free i])"
    using st(1,2) unfolding holds_def cass_now_def by (simp only: follows_append fold_append comp_apply)
  then show ?thesis by (simp add: tr')
qed

text \<open>
  The result is freed before its iterator, which the library says is invalidated by that.
\<close>

lemma iterator_freed_invalidated:
  assumes "read_result d f out tr = (out', tr')" and "holds A tr" and "f \<in> A" and "fresh_handles d"
  shows "\<exists>tr1 i. tr' = tr1 @ [Iterator_free i] \<and> i \<in> invalidated (cass_now tr1)"
proof (rule read_result_calls [OF assms(1)])
  fix r i row tail
  assume new: "r = new_handle d tr" "i = new_handle d (tr @ [Get_result f r])"
    and tr': "tr' = tr @ [Get_result f r, Iterator_from_result r i, Iterator_next i row] @ tail @ [Result_free r, Iterator_free i]"
    and "tail = [] \<and> out' = out \<or> (\<exists>b n. tail = row_calls i b n \<and>
        out' = \<lparr>o_bln = written b (o_bln out), o_flt = written (n 3) (o_flt out), o_dbl = written (n 2) (o_dbl out),
          o_i32 = written (n 4) (o_i32 out), o_i64 = written (n 5) (o_i64 out)\<rparr>)"
  then have tail: "tail = [] \<or> (\<exists>b n. tail = row_calls i b n)" by blast
  let ?tr1 = "tr @ [Get_result f r, Iterator_from_result r i, Iterator_next i row] @ tail"
  have "invalidated (cass_now (?tr1 @ [Result_free r])) = {i}"
    using reading_state(2) [OF assms(2,3,4) new tail, of row] by (simp add: cass_now_def cass_after_def)
  moreover have "tr' = (?tr1 @ [Result_free r]) @ [Iterator_free i]" using tr' by simp
  ultimately show ?thesis by blast
qed

lemma select_from_basic_holds:
  assumes "select_from_basic d s key out tr = (rc, out', tr')" and "holds A tr" and "s \<in> A" and "fresh_handles d"
  shows "holds A tr'"
proof -
  let ?st = "new_handle d tr"
  let ?tr1 = "(tr @ [Statement_new Select_basic ?st]) @ [Bind_key ?st key]"
  have st: "?st \<notin> A" using fresh_new [OF assms(4,2)] .
  have n: "holds (insert ?st A) (tr @ [Statement_new Select_basic ?st])"
    by (rule holds_make [OF assms(2)]) (use st in simp_all)
  have h: "holds (insert ?st A) ?tr1" by (rule holds_use [OF n]) simp_all
  let ?f = "new_handle d ?tr1"
  obtain rc2 tr2 where f: "finish_future d ?f (?tr1 @ [Session_execute s ?st ?f]) = (rc2, tr2)" by fastforce
  note run = run_statement [OF h st assms(3,4) f]
  obtain out3 tr3 where read: "(if rc2 \<noteq> CASS_OK then (out, tr2) else read_result d ?f out tr2) = (out3, tr3)" by fastforce
  then have "holds (insert ?f (insert ?st A)) tr3"
    using run(1) read_result_holds [OF _ run(1) _ assms(4)] by (auto split: if_splits)
  then have "holds A (tr3 @ [Future_free ?f, Statement_free ?st])" using run(2) st by (rule free_statement)
  then show ?thesis using assms(1) f read by (cases "rc2 = CASS_OK") (simp_all add: select_from_basic_def Let_def)
qed

section \<open>What the calls of init_db show\<close>

text \<open>The code of the first connection: the first one asked of the future that connecting gave.\<close>

fun code_of :: "nat \<Rightarrow> cass list \<Rightarrow> nat option" where
  "code_of f [] = None"
| "code_of f (e # tr) = (case e of Future_error_code g rc \<Rightarrow> if g = f then Some rc else code_of f tr | _ \<Rightarrow> code_of f tr)"

fun connect_code :: "cass list \<Rightarrow> nat option" where
  "connect_code [] = None"
| "connect_code (e # tr) = (case e of Session_connect _ _ f \<Rightarrow> code_of f tr | _ \<Rightarrow> connect_code tr)"

definition no_statement :: "cass list \<Rightarrow> bool" where
  "no_statement tr \<longleftrightarrow> (\<forall>q st. Statement_new q st \<notin> set tr)"

lemma finish_future_trace:
  "finish_future d f tr = (rc, tr') \<Longrightarrow>
   \<exists>es. tr' = tr @ [Future_wait f, Future_error_code f rc] @ es \<and> no_statement es"
  by (auto simp: finish_future_def print_error_def Let_def no_statement_def split: if_splits)

lemma connect_session_trace:
  assumes "connect_session d s c tr = (rc, tr')"
  shows "\<exists>f es. tr' = tr @ [Session_connect s c f, Future_wait f, Future_error_code f rc] @ es \<and> no_statement es"
proof -
  let ?f = "new_handle d tr"
  obtain rc2 tr2 where f: "finish_future d ?f (tr @ [Session_connect s c ?f]) = (rc2, tr2)" by fastforce
  then obtain es where "tr2 = (tr @ [Session_connect s c ?f]) @ [Future_wait ?f, Future_error_code ?f rc2] @ es" "no_statement es"
    using finish_future_trace by blast
  then show ?thesis
    using assms f by (intro exI [of _ ?f] exI [of _ "es @ [Future_free ?f]"]) (auto simp: connect_session_def Let_def no_statement_def)
qed

lemma execute_query_trace: "execute_query d s q tr = (rc, tr') \<Longrightarrow> \<exists>es. tr' = tr @ es"
  by (auto simp: execute_query_def Let_def split: prod.splits dest!: finish_future_trace)

lemma insert_into_basic_trace: "insert_into_basic d s key b tr = (rc, tr') \<Longrightarrow> \<exists>es. tr' = tr @ es"
  by (auto simp: insert_into_basic_def Let_def split: prod.splits dest!: finish_future_trace)

lemma read_result_trace: "read_result d f out tr = (out', tr') \<Longrightarrow> \<exists>es. tr' = tr @ es"
  by (rule read_result_calls) auto

lemma select_from_basic_trace: "select_from_basic d s key out tr = (rc, out', tr') \<Longrightarrow> \<exists>es. tr' = tr @ es"
  by (auto simp: select_from_basic_def Let_def split: prod.splits if_splits dest!: finish_future_trace read_result_trace)

lemma read_result_reads:
  assumes "read_result d f out tr = (out', tr')"
  shows "out' = out \<or> (\<exists>i b n. set (row_calls i b n) \<subseteq> set tr' \<and>
     out' = \<lparr>o_bln = written b (o_bln out), o_flt = written (n 3) (o_flt out), o_dbl = written (n 2) (o_dbl out),
       o_i32 = written (n 4) (o_i32 out), o_i64 = written (n 5) (o_i64 out)\<rparr>)"
proof (rule read_result_calls [OF assms])
  fix r i row tail
  assume tr': "tr' = tr @ [Get_result f r, Iterator_from_result r i, Iterator_next i row] @ tail @ [Result_free r, Iterator_free i]"
    and tail: "tail = [] \<and> out' = out \<or> (\<exists>b n. tail = row_calls i b n \<and>
        out' = \<lparr>o_bln = written b (o_bln out), o_flt = written (n 3) (o_flt out), o_dbl = written (n 2) (o_dbl out),
          o_i32 = written (n 4) (o_i32 out), o_i64 = written (n 5) (o_i64 out)\<rparr>)"
  have "set tail \<subseteq> set tr'" unfolding tr' by auto
  with tail show ?thesis by blast
qed

text \<open>A selection fills the variable with what the driver answered, or leaves it.\<close>

lemma select_from_basic_reads:
  assumes "select_from_basic d s key out tr = (rc, out', tr')"
  shows "out' = out \<or> (\<exists>i b n. set (row_calls i b n) \<subseteq> set tr' \<and>
     out' = \<lparr>o_bln = written b (o_bln out), o_flt = written (n 3) (o_flt out), o_dbl = written (n 2) (o_dbl out),
       o_i32 = written (n 4) (o_i32 out), o_i64 = written (n 5) (o_i64 out)\<rparr>)"
proof -
  let ?st = "new_handle d tr"
  let ?tr1 = "tr @ [Statement_new Select_basic ?st, Bind_key ?st key]"
  let ?f = "new_handle d ?tr1"
  obtain rc2 tr2 where f: "finish_future d ?f (?tr1 @ [Session_execute s ?st ?f]) = (rc2, tr2)" by fastforce
  obtain out3 tr3 where read: "(if rc2 \<noteq> CASS_OK then (out, tr2) else read_result d ?f out tr2) = (out3, tr3)" by fastforce
  have res: "out' = out3" "tr' = tr3 @ [Future_free ?f, Statement_free ?st]"
    using assms f read by (cases "rc2 = CASS_OK"; simp add: select_from_basic_def Let_def)+
  show ?thesis
  proof (cases "rc2 = CASS_OK")
    case True
    then have "read_result d ?f out tr2 = (out3, tr3)" using read by simp
    from read_result_reads [OF this] show ?thesis
    proof (elim disjE exE conjE)
      fix i b n assume "set (row_calls i b n) \<subseteq> set tr3"
      moreover have "set tr3 \<subseteq> set tr'" unfolding res(2) by auto
      ultimately have "set (row_calls i b n) \<subseteq> set tr'" by (rule subset_trans)
      moreover assume "out3 = \<lparr>o_bln = written b (o_bln out), o_flt = written (n 3) (o_flt out), o_dbl = written (n 2) (o_dbl out),
          o_i32 = written (n 4) (o_i32 out), o_i64 = written (n 5) (o_i64 out)\<rparr>"
      ultimately show ?thesis using res(1) by blast
    qed (use res in simp)
  qed (use read res in simp)
qed

lemma assertions_hold:
  "assertions b out = None \<longleftrightarrow>
   out = \<lparr>o_bln = Some (bln b), o_flt = Some (flt b), o_dbl = Some (dbl b), o_i32 = Some (i32 b), o_i64 = Some (i64 b)\<rparr>"
  by (cases out) (auto simp: assertions_def check_field_def split: option.splits if_splits)

lemma row_answered:
  assumes "select_from_basic d s key unwritten tr = (rc, out, tr')" and "assertions b out = None"
  shows "\<exists>it. {Get_bool it 1 (Some (bln b)), Get_num it 2 (Some (dbl b)), Get_num it 3 (Some (flt b)),
      Get_num it 4 (Some (i32 b)), Get_num it 5 (Some (i64 b))} \<subseteq> set tr'"
proof -
  have "out \<noteq> unwritten" "out = \<lparr>o_bln = Some (bln b), o_flt = Some (flt b), o_dbl = Some (dbl b),
      o_i32 = Some (i32 b), o_i64 = Some (i64 b)\<rparr>"
    using assms(2) by (simp_all add: assertions_hold unwritten_def)
  then obtain i v n where "set (row_calls i v n) \<subseteq> set tr'" "v = Some (bln b)" "n 2 = Some (dbl b)"
    "n 3 = Some (flt b)" "n 4 = Some (i32 b)" "n 5 = Some (i64 b)"
    using select_from_basic_reads [OF assms(1)] by (auto simp: unwritten_def written_def split: option.splits)
  then show ?thesis by (intro exI [of _ i]) simp
qed

lemma first_failure_mem: "first_failure cs = Some e \<Longrightarrow> Some e \<in> set cs"
  by (induction cs rule: first_failure.induct) auto

lemma assertions_fail: "assertions b out = Some e \<Longrightarrow> e \<noteq> Returned a"
  by (auto simp: assertions_def check_field_def dest!: first_failure_mem split: option.splits if_splits)

text \<open>The two ways of init_db, with what is alive where they part and where they end.\<close>

lemma init_db_ways:
  assumes "fresh_handles d" and "init_db d argv [] = (how, tr)"
  obtains s c tr2 rc tr3 where "c \<noteq> s" "\<And>es. connect_code (tr2 @ es) = connect_code es" "no_statement tr2"
      "connect_session d s c tr2 = (rc, tr3)" "holds {c, s} tr3" "rc \<noteq> CASS_OK" "how = Returned False"
      "tr = tr3 @ [Cluster_free c, Session_free s]"
  | s c tr2 tr3 es rc7 out tr7 where "c \<noteq> s" "\<And>es. connect_code (tr2 @ es) = connect_code es"
      "connect_session d s c tr2 = (CASS_OK, tr3)" "select_from_basic d s ''test2'' unwritten (tr3 @ es) = (rc7, out, tr7)"
      "\<exists>es. tr7 = tr3 @ es" "holds {c, s} tr7" "{Session_new s, Cluster_new c} \<subseteq> set tr2"
      "(how, tr) = (case assertions input out of Some e \<Rightarrow> (e, tr7) | None \<Rightarrow> (Returned True, tr7 @ [Session_free s, Cluster_free c]))"
proof -
  let ?s = "new_handle d []" let ?tr1 = "[Session_new ?s]" let ?c = "new_handle d ?tr1"
  let ?hosts = "if length argv > 1 then argv ! 1 else ''127.0.0.1''"
  let ?tr2 = "(?tr1 @ [Cluster_new ?c]) @ [Set_contact_points ?c ?hosts]"
  from holds_make [OF holds_start, of "Session_new ?s" ?s] have h1: "holds {?s} ?tr1" by simp
  have c: "?c \<noteq> ?s" using fresh_new [OF assms(1) h1] by simp
  have "holds {?c, ?s} (?tr1 @ [Cluster_new ?c])" by (rule holds_make [OF h1]) (use c in simp_all)
  then have h2: "holds {?c, ?s} ?tr2" by (rule holds_use) simp_all
  have code: "connect_code (?tr2 @ es) = connect_code es" for es by simp
  obtain rc tr3 where con: "connect_session d ?s ?c ?tr2 = (rc, tr3)" by fastforce
  have h3: "holds {?c, ?s} tr3" by (rule connect_session_holds [OF con h2]) (use assms(1) in simp_all)
  obtain rc4 tr4 where q1: "execute_query d ?s Create_keyspace tr3 = (rc4, tr4)" by fastforce
  have h4: "holds {?c, ?s} tr4" by (rule execute_query_holds [OF q1 h3]) (use assms(1) in simp_all)
  obtain rc5 tr5 where q2: "execute_query d ?s Create_table tr4 = (rc5, tr5)" by fastforce
  have h5: "holds {?c, ?s} tr5" by (rule execute_query_holds [OF q2 h4]) (use assms(1) in simp_all)
  obtain rc6 tr6 where ins: "insert_into_basic d ?s ''test2'' input tr5 = (rc6, tr6)" by fastforce
  have h6: "holds {?c, ?s} tr6" by (rule insert_into_basic_holds [OF ins h5]) (use assms(1) in simp_all)
  obtain rc7 out tr7 where sel: "select_from_basic d ?s ''test2'' unwritten tr6 = (rc7, out, tr7)" by (metis prod_cases3)
  have h7: "holds {?c, ?s} tr7" by (rule select_from_basic_holds [OF sel h6]) (use assms(1) in simp_all)
  obtain es where es: "tr6 = tr3 @ es"
    using execute_query_trace [OF q1] execute_query_trace [OF q2] insert_into_basic_trace [OF ins] by auto
  have run: "(how, tr) =
    (if rc \<noteq> CASS_OK then (Returned False, tr3 @ [Cluster_free ?c, Session_free ?s])
     else (case assertions input out of Some e \<Rightarrow> (e, tr7) | None \<Rightarrow> (Returned True, tr7 @ [Session_free ?s, Cluster_free ?c])))"
    using assms(2) con q1 q2 ins sel
    by (cases "rc = CASS_OK"; cases "assertions input out") (simp_all add: init_db_def create_cluster_def Let_def)
  show thesis
  proof (cases "rc = CASS_OK")
    case True
    have "\<exists>es. tr7 = tr3 @ es" using select_from_basic_trace [OF sel] es by auto
    then show thesis using that(2) [OF c code _ sel [unfolded es] _ h7] True con run by simp
  next
    case False
    then show thesis using that(1) [OF c code _ con h3] run by (simp add: no_statement_def)
  qed
qed

section \<open>Properties\<close>

text \<open>
  C39: on whatever answers of the driver, and however init_db ends, it uses no object before it is
  made or after it was freed, frees none twice, and reads through no iterator whose result was
  freed. When it returns, everything it made is freed; when an assertion ends it, the session and the
  cluster are left. It returns false exactly when the connection failed, and then it has sent no
  statement; it returns true only when the driver has answered the row that was to be inserted.
\<close>

theorem init_db_disciplined:
  assumes "fresh_handles d" and "init_db d argv [] = (how, tr)"
  shows "cass_disciplined tr \<and>
    (case how of Returned _ \<Rightarrow> live_handles tr = {} | _ \<Rightarrow> \<exists>session cluster. live_handles tr = {cluster, session} \<and> {Session_new session, Cluster_new cluster} \<subseteq> set tr) \<and>
    (\<exists>rc. connect_code tr = Some rc \<and> (how = Returned False \<longleftrightarrow> rc \<noteq> CASS_OK)) \<and>
    (how = Returned False \<longrightarrow> no_statement tr) \<and>
    (how = Returned True \<longrightarrow>
       (\<exists>it. {Get_bool it 1 (Some (bln input)), Get_num it 2 (Some (dbl input)), Get_num it 3 (Some (flt input)),
          Get_num it 4 (Some (i32 input)), Get_num it 5 (Some (i64 input))} \<subseteq> set tr))"
  using assms
proof (cases rule: init_db_ways)
  case (1 s c tr2 rc tr3)
  then obtain f es where tr3: "tr3 = tr2 @ [Session_connect s c f, Future_wait f, Future_error_code f rc] @ es" "no_statement es"
    using connect_session_trace by blast
  have "holds {s} (tr3 @ [Cluster_free c])" by (rule holds_free [OF 1(5)]) (use 1(1) in simp_all)
  then have "holds {} ((tr3 @ [Cluster_free c]) @ [Session_free s])" by (rule holds_free) simp_all
  then have "holds {} tr" using 1(8) by simp
  then have "cass_disciplined tr \<and> live_handles tr = {}" by (simp add: holds_def live_handles_def)
  moreover have "connect_code tr = Some rc" using 1(2,8) tr3(1) by simp
  moreover have "no_statement tr" using 1(3,8) tr3 by (auto simp: no_statement_def)
  ultimately show ?thesis using 1(6,7) by simp
next
  case (2 s c tr2 tr3 es rc7 out tr7)
  obtain f es' where tr3: "tr3 = tr2 @ [Session_connect s c f, Future_wait f, Future_error_code f CASS_OK] @ es'"
    using connect_session_trace [OF 2(3)] by blast
  then have code: "connect_code (tr7 @ us) = Some CASS_OK" for us using 2(2,5) by auto
  show ?thesis
  proof (cases "assertions input out")
    case None
    have "holds {c} (tr7 @ [Session_free s])"
      by (rule holds_free [of s]) (use 2(1,6) in \<open>auto simp: insert_commute\<close>)
    then have "holds {} ((tr7 @ [Session_free s]) @ [Cluster_free c])" by (rule holds_free) simp_all
    moreover have how: "how = Returned True" "tr = tr7 @ [Session_free s, Cluster_free c]" using 2(8) None by simp_all
    ultimately have "cass_disciplined tr \<and> live_handles tr = {}" by (simp add: holds_def live_handles_def)
    then show ?thesis using row_answered [OF 2(4) None] code [of "[Session_free s, Cluster_free c]"] how by auto
  next
    case (Some e)
    then have "how = e" "tr = tr7" using 2(8) by simp_all
    moreover have "e = Assertion_failed \<or> e = Indeterminate" using assertions_fail [OF Some] by (cases e) auto
    moreover have "live_handles tr7 = {c, s}" "cass_disciplined tr7" using 2(6) by (simp_all add: holds_def live_handles_def)
    moreover have "{Session_new s, Cluster_new c} \<subseteq> set tr7" using 2(5,7) tr3 by auto
    ultimately have "cass_disciplined tr" "\<exists>session cluster. live_handles tr = {cluster, session} \<and> {Session_new session, Cluster_new cluster} \<subseteq> set tr"
      "how = Assertion_failed \<or> how = Indeterminate" "connect_code tr = Some CASS_OK"
      using code [of "[]"] by (blast, blast, blast, simp)
    then show ?thesis by (elim disjE) simp_all
  qed
qed

text \<open>A driver that numbers its handles and finds the row that was inserted.\<close>

fun made :: "cass \<Rightarrow> nat" where
  "made (Cluster_new c) = c"
| "made (Session_new s) = s"
| "made (Session_connect _ _ f) = f"
| "made (Statement_new _ st) = st"
| "made (Session_execute _ _ f) = f"
| "made (Get_result _ r) = r"
| "made (Iterator_from_result _ i) = i"
| "made _ = 0"

definition demo_driver :: driver where
  "demo_driver = \<lparr>new_handle = (\<lambda>tr. Suc (fold max (map made tr) 0)), error_code = (\<lambda>_ _. 0),
     error_message = (\<lambda>_ _. ''no host''), has_row = (\<lambda>_ _. True), bool_at = (\<lambda>_ _ _. Some True),
     num_at = (\<lambda>_ _ column. Some (if column = 3 then 10 else if column = 4 then 1 else 2))\<rparr>"

lemma live_below: "h \<in> live_handles tr \<Longrightarrow> h \<le> fold max (map made tr) 0"
proof (induction tr rule: rev_induct)
  case (snoc e tr)
  then have "h \<in> live_handles tr \<or> h \<in> makes e" by (auto simp: live_handles_def cass_now_def cass_after_def)
  then show ?case using snoc.IH by (cases e) auto
qed (simp add: live_handles_def cass_now_def cass_start_def)

lemma demo_driver_fresh: "fresh_handles demo_driver"
  using live_below by (fastforce simp: fresh_handles_def demo_driver_def)

text \<open>Two runs: one that returns true, one that cannot connect.\<close>

lemma demo_init_db:
  "fst (init_db demo_driver [] []) = Returned True"
  "fst (init_db (demo_driver\<lparr>error_code := \<lambda>_ _. 7\<rparr>) [] []) = Returned False"
  by (simp_all add: init_db_def create_cluster_def connect_session_def execute_query_def insert_into_basic_def select_from_basic_def
      read_result_def read_row_def written_def assertions_def check_field_def unwritten_def input_def finish_future_def
      print_error_def demo_driver_def CASS_OK_def Let_def)

theorem init_db_disciplined_witness:
  "cass_disciplined (snd (init_db demo_driver [] [])) \<and> live_handles (snd (init_db demo_driver [] [])) = {} \<and>
   connect_code (snd (init_db demo_driver [] [])) = Some CASS_OK \<and>
   no_statement (snd (init_db (demo_driver\<lparr>error_code := \<lambda>_ _. 7\<rparr>) [] []))"
proof -
  have fresh: "fresh_handles (demo_driver\<lparr>error_code := \<lambda>_ _. 7\<rparr>)"
    using demo_driver_fresh by (simp add: fresh_handles_def)
  have good: "init_db demo_driver [] [] = (Returned True, snd (init_db demo_driver [] []))"
    and bad: "init_db (demo_driver\<lparr>error_code := \<lambda>_ _. 7\<rparr>) [] [] = (Returned False, snd (init_db (demo_driver\<lparr>error_code := \<lambda>_ _. 7\<rparr>) [] []))"
    using demo_init_db by (simp_all add: prod_eq_iff)
  show ?thesis using init_db_disciplined [OF demo_driver_fresh good] init_db_disciplined [OF fresh bad] by auto
qed

text \<open>
  The code of the insertion is ignored: when the row is not found afterwards, or a column cannot be
  read, the assertions read a variable that nothing was written to.
\<close>

lemma init_db_reads_indeterminate:
  "fst (init_db (demo_driver\<lparr>has_row := \<lambda>_ _. False\<rparr>) [] []) = Indeterminate"
  "fst (init_db (demo_driver\<lparr>num_at := \<lambda>_ _ _. None\<rparr>) [] []) = Indeterminate"
  by (simp_all add: init_db_def create_cluster_def connect_session_def execute_query_def insert_into_basic_def select_from_basic_def
      read_result_def read_row_def written_def assertions_def check_field_def unwritten_def input_def finish_future_def
      print_error_def demo_driver_def CASS_OK_def Let_def)

end
