(* ===== verification/RepoTests.thy ===== *)
theory RepoTests
  imports Orderbook SPSCQueue Memory ThreadPool Vector
begin

text \<open>
  The repository's own tests (src/tests) on the model: what they expect of the code holds of its
  translation. Each test is a function here, with the calls of the test in their order, and its
  expectations are a lemma, by evaluation or, for the 1024 elements of the queue, from the queue's
  contract. The tests of XorBitant expect nothing: they print.
\<close>

section \<open>tests/Orderbook_test.cc\<close>

definition test_orders :: "Order list" where
  "test_orders = map (\<lambda>k. Order_ctor (of_nat (k + 2)) (int k + 1) (even k) (int k + 4)) [0..<20]"

fun add_orders :: "Orderbook \<Rightarrow> Order list \<Rightarrow> (Trade list \<times> Orderbook) option" where
  "add_orders book [] = Some ([], book)"
| "add_orders book (ord # ords) =
     (case AddOrder book ord of None \<Rightarrow> None
      | Some (new_trades, book) \<Rightarrow> map_option (\<lambda>(trades, book). (new_trades @ trades, book)) (add_orders book ords))"

lemma AddOrdersAndGenerateTrades:
  "map_option (\<lambda>(trades, _). trades \<noteq> []) (add_orders Orderbook_ctor test_orders) = Some True"
  by code_simp

section \<open>tests/Vector_test.cc\<close>

definition int_env :: "int elem_env" where
  "int_env = \<lparr>sizeof_elem = 4, by_move = True, copy_throws = (\<lambda>_. False), move_throws = (\<lambda>_. False),
     dflt = (\<lambda>_. Some 0), granted = (\<lambda>b. b \<le> 4096)\<rparr>"

definition string_env :: "string elem_env" where
  "string_env = \<lparr>sizeof_elem = 32, by_move = True, copy_throws = (\<lambda>_. False), move_throws = (\<lambda>_. False),
     dflt = (\<lambda>_. Some []), granted = (\<lambda>b. b \<le> 4096)\<rparr>"

text \<open>The calls on a vector just constructed: the answers and the vector.\<close>

definition on_vector :: "'a elem_env \<Rightarrow> 'a vec_op list \<Rightarrow> ((vec_error + 'a option) list \<times> vec \<times> 'a heap) option" where
  "on_vector E ops =
     (case Vector_ctor E empty_heap of Some (Inr v, h) \<Rightarrow> owner_run (vec_step E) ops (v, h) | _ \<Rightarrow> None)"

text \<open>The size, and what the subscript operator gives at the first n positions.\<close>

definition expected_elements :: "nat \<Rightarrow> (vec_error + 'a option) list \<times> vec \<times> 'a heap \<Rightarrow> u64 \<times> 'a option list" where
  "expected_elements n s = (case s of (_, v, h) \<Rightarrow> (size_of v, map (\<lambda>i. subscript (of_nat i) v h) [0..<n]))"

lemma DefaultConstructor: "map_option (expected_elements 0) (on_vector int_env []) = Some (0, [])"
  by code_simp

lemma SizeConstructor:
  "map_option (map_sum id size_of \<circ> fst) (Vector_sized int_env 5 empty_heap) = Some (Inr 5 :: vec_error + u64)"
  by code_simp

lemma PushBackIntegers:
  "map_option (expected_elements 3) (on_vector int_env [Push 10, Push 20, Push 30]) = Some (3, [Some 10, Some 20, Some 30])"
  by code_simp

lemma PushBackStrings:
  "map_option (expected_elements 3) (on_vector string_env [Push ''Hello'', Push ''World'', Push ''Test'']) =
     Some (3, [Some ''Hello'', Some ''World'', Some ''Test''])"
  by code_simp

lemma CapacityGrowth:
  "map_option (expected_elements 20) (on_vector int_env (map Push (map int [0..<20]))) =
     Some (20, map Some (map int [0..<20]))"
  by code_simp

section \<open>tests/Memory_test.cc\<close>

text \<open>A string with its end at an address, in a memory that has nothing else there.\<close>

definition c_bytes :: "string \<Rightarrow> 8 word list" where
  "c_bytes s = map of_char s @ [0]"

definition place :: "nat \<Rightarrow> 8 word list \<Rightarrow> mem \<Rightarrow> mem" where
  "place a bs m = (\<lambda>k. if a \<le> k \<and> k < a + length bs then Some (bs ! (k - a)) else m k)"

definition bytes_at :: "nat \<Rightarrow> nat \<Rightarrow> mem \<Rightarrow> 8 word option list" where
  "bytes_at a n m = map (\<lambda>i. m (a + i)) [0..<n]"

lemma MemmoveOverlappingRegions:
  "map_option (bytes_at 8 6 \<circ> snd) (Memmove 10 8 2 (place 8 (c_bytes ''himom'') Map.empty)) =
     Some (map Some (c_bytes ''hihim''))"
  by code_simp

definition strcpy_memory :: mem where
  "strcpy_memory = place 8 (c_bytes ''12hi34'') (place 32 (replicate 7 0) Map.empty)"

lemma place_at: "i < length bs \<Longrightarrow> place a bs m (a + i) = Some (bs ! i)"
  by (simp add: place_def)

lemma place_string:
  assumes "list_all (\<lambda>c. of_char c \<noteq> (0 :: 8 word)) s"
  shows "c_string a (length s) (place a (c_bytes s) m)"
proof -
  have "place a (c_bytes s) m k \<noteq> None" if "a \<le> k" "k < a + (length s + 1)" for k
    using that by (simp add: place_def c_bytes_def)
  moreover have "place a (c_bytes s) m (a + i) = Some (c_bytes s ! i)" if "i \<le> length s" for i
    using that by (intro place_at) (simp add: c_bytes_def)
  ultimately show ?thesis
    using assms by (auto simp: c_string_def allocated_def c_bytes_def nth_append list_all_length)
qed

lemma strcpy_memory_string: "c_string 8 6 strcpy_memory" "allocated 32 (6 + 1) strcpy_memory"
proof -
  have "list_all (\<lambda>c. of_char c \<noteq> (0 :: 8 word)) ''12hi34''" by code_simp
  from place_string [OF this] have "c_string 8 (length ''12hi34'') strcpy_memory" unfolding strcpy_memory_def .
  moreover have "length ''12hi34'' = 6" by simp
  ultimately show "c_string 8 6 strcpy_memory" by (simp only:)
  show "allocated 32 (6 + 1) strcpy_memory" by (auto simp: allocated_def strcpy_memory_def place_def c_bytes_def)
qed

lemma StrcpyBasicCopy:
  "map_option (bytes_at 32 7 \<circ> snd) (Strcpy 32 8 strcpy_memory) = Some (map Some (c_bytes ''12hi34''))"
proof -
  have "Strcpy 32 8 strcpy_memory = Some (32, copied 32 8 7 strcpy_memory)"
    using copy_string_correct [OF strcpy_memory_string] by (simp add: Strcpy_def)
  moreover have "bytes_at 32 7 (copied 32 8 7 strcpy_memory) = map Some (c_bytes ''12hi34'')" by code_simp
  ultimately show ?thesis by simp
qed

definition long_string :: string where
  "long_string = ''reallyLongStringYouWouldntEvenBelieveItCuzzin''"

lemma MemcpyLongString:
  "map_option (bytes_at 100 46 \<circ> snd)
     (Memcpy 100 8 (length (c_bytes long_string)) (place 8 (c_bytes long_string) (place 100 (replicate 100 0) Map.empty))) =
     Some (map Some (c_bytes long_string))"
  by code_simp

section \<open>tests/ThreadPool_test.cc\<close>

lemma ConstructMultipleThreads:
  "\<exists>tp :: nat pool. ThreadPool_ctor (\<lambda>_. True) (push_bit 5 1) 1 = Some (Inr tp) \<and> get_num_threads tp = 32 \<and> get_num_active_tasks tp = 0"
  by (simp add: ThreadPool_ctor_def pool_init_def get_num_threads_def get_num_active_tasks_def)

section \<open>tests/spscqueue_test.cc\<close>

text \<open>The answers of a sequence of pushes.\<close>

fun push_all :: "u64 \<Rightarrow> 'a spsc \<Rightarrow> 'a list \<Rightarrow> (bool list \<times> 'a spsc) option" where
  "push_all n q [] = Some ([], q)"
| "push_all n q (x # xs) =
     (case push n q x of None \<Rightarrow> None
      | Some (b, q) \<Rightarrow> map_option (\<lambda>(bs, q). (b # bs, q)) (push_all n q xs))"

lemma push_all_room:
  "spsc_inv n q \<Longrightarrow> length (spsc_items n q) + length xs \<le> unat n \<Longrightarrow>
   \<exists>q'. push_all n q xs = Some (replicate (length xs) True, q') \<and> spsc_inv n q' \<and> spsc_items n q' = spsc_items n q @ xs"
proof (induction xs arbitrary: q)
  case (Cons x xs)
  then obtain q' where q': "push n q x = Some (True, q')" "spsc_inv n q'" "spsc_items n q' = spsc_items n q @ [x]"
    using spsc.put_room [of n q x] by (auto simp: push_def)
  then show ?case using Cons.IH [of q'] Cons.prems(2) by auto
qed simp

lemma size_items: "spsc_inv n q \<Longrightarrow> unat (SPSCQueue.size_of q) = length (spsc_items n q)"
  by (simp add: SPSCQueue.size_of_def spsc_items_def)

text \<open>The test: 1022 elements, two more, and one that the full queue refuses, with the sizes between.\<close>

lemma AddElements:
  fixes p_test_obj :: "int spsc"
  defines "p_test_obj \<equiv> spsc_ctor 1024"
  shows "SPSCQueue.capacity 1024 = 1024 \<and> SPSCQueue.size_of p_test_obj = 0 \<and>
    (\<exists>q1 q2 q3. push_all 1024 p_test_obj (map int [0..<1022]) = Some (replicate 1022 True, q1) \<and>
       SPSCQueue.size_of q1 = 1022 \<and> push_all 1024 q1 [1, 2] = Some ([True, True], q2) \<and> SPSCQueue.size_of q2 = 1024 \<and>
       push 1024 q2 3 = Some (False, q3) \<and> SPSCQueue.size_of q3 = 1024)"
proof -
  have n: "unat (1024 :: u64) = 1024" by simp
  have inv0: "spsc_inv 1024 p_test_obj" "spsc_items 1024 p_test_obj = []"
    unfolding p_test_obj_def by (simp_all add: spsc_ctor_inv capacity_assert_def)
  obtain q1 where q1: "push_all 1024 p_test_obj (map int [0..<1022]) = Some (replicate 1022 True, q1)" "spsc_inv 1024 q1"
    "spsc_items 1024 q1 = map int [0..<1022]"
    using push_all_room [OF inv0(1), of "map int [0..<1022]"] inv0(2) by (auto simp: n simp del: upt_Suc)
  have len1: "length (spsc_items 1024 q1) = 1022" unfolding q1(3) by simp
  obtain q2 where q2: "push_all 1024 q1 [1, 2] = Some ([True, True], q2)" "spsc_inv 1024 q2"
    "spsc_items 1024 q2 = map int [0..<1022] @ [1, 2]"
  proof -
    have "length (spsc_items 1024 q1) + length [1 :: int, 2] \<le> unat (1024 :: u64)" unfolding len1 by simp
    from push_all_room [OF q1(2) this] that show thesis unfolding q1(3) by (auto simp del: push_all.simps)
  qed
  have len2: "length (spsc_items 1024 q2) = 1024" unfolding q2(3) by simp
  have q3: "push 1024 q2 3 = Some (False, q2)" using emplace_full [of 1024 q2 3] len2 by (simp add: push_def n)
  have size: "SPSCQueue.size_of q = of_nat (length (spsc_items 1024 q))" if "spsc_inv 1024 q" for q :: "int spsc"
    unfolding size_items [OF that, symmetric] by simp
  have "SPSCQueue.size_of p_test_obj = 0" "SPSCQueue.size_of q1 = 1022" "SPSCQueue.size_of q2 = 1024"
    unfolding size [OF inv0(1)] size [OF q1(2)] size [OF q2(2)] len1 len2 inv0(2) by simp_all
  then show ?thesis using q1(1) q2(1) q3 by (auto simp: SPSCQueue.capacity_def)
qed

end
