(* ===== verification/Spec2Isabelle.thy ===== *)
theory Spec2Isabelle
  imports Orderbook SPSCExample SPSCObservers SpinMutex MutexData XorBitant Memory Vector VectorGrowth SharedPtr
    SharedPtrThreads UniquePtr AnyHandle Config ThreadSafeQueue ThreadPool PoolFutures LogThreads LoggerImpl Timer Tcp Cassandra
    RepoTests
begin

text \<open>
  A verification of quickstructs, a header-only library of containers, handles, thread tools and
  input/output helpers (include/quick). Every component of the library is a theory of its own, which
  translates the code of its header or source file and proves what makes it correct; this theory
  imports them all.

  How the code is translated. A class is a record of its members and a method a function from the
  state before to the result and the state after. Undefined behaviour (a signed overflow, an access
  outside a block, a read of raw memory, a double free) is the value None, and most theorems say
  first that it does not happen; in the thread pool it is a state in which every run ends. An
  exception or an error code is the left side of a sum. Unsigned 64-bit members are words, with
  their wrap-around. Code that several threads run is a step function on a shared state, one step
  for each access to shared memory; Machine gives its reachable states, those of all the
  interleavings. Fields that only record what happened are named as such where the state is
  declared. What is outside the repository is a parameter: operator new, the kernel, the file
  system, the clock, the conversions of addresses, the database driver.

  The shared part. Prelude: checked arithmetic, lists, powers of two, slots of raw memory. Machine:
  runs and reachable states of a step function, with locales for invariants, for termination (a
  measure that every step of the component lowers), for progress (a measure that some run lowers)
  and for layers (programs whose steps are those of a machine below: the data of the lock, the
  futures of the pool, the example on the ring); every machine of the development is an
  interpretation on its own steps, the programs over handles and sockets included. Amortised: the
  locale of an operation whose cost a potential pays for. Holdings: what a list of variables owns.
  Traces: calls to a library that hands out handles. ObjectHeap: operator new and delete,
  construct_at and destroy_at. CppString and Decimal: std::string, std::stoi and printed numbers.
  ErrorCodes: error/Error.hh. QueueSpec states the contract of a bounded queue and Owner that of an
  object that owns a resource, as locales; the ring, the vector and the copy routines are
  interpretations of theirs.

  Containers. Orderbook (structs/Orderbook.hh): AddOrder with its matching loop and the queueing of
  the remainder refine price-time priority on lists, keep the book sorted and uncrossed and conserve
  quantity; CancelOrder undoes a queueing. SPSCQueue (structs/SPSCQueue.hh) is the ring for one
  caller, a bounded list even when its counters wrap; SPSCThreads is the same ring with a producer
  and a consumer thread, on counters of which a thread may see any value not older than one it has
  seen, and SPSCExample the program of examples/spsc_queue_example.cc on it, which delivers every
  item in order and can always be completed; SPSCObservers has empty, full and size asked while the
  ring is in use, and what each of the two threads may conclude from the answers. Vector
  (structs/Vector.hh): storage, exceptions and lifetimes; a vector is a list, leaks nothing and
  throws with the strong guarantee, and the operations and arguments that break this are shown to.
  VectorGrowth counts what push_back moves and allocates: a run of pushes costs a constant for each
  of them. ThreadSafeQueue (structs/ThreadSafeQueue.hh): order, exclusion, and rest after a bounded
  number of steps, with nobody waiting at a queue that is not empty.

  Handles. SharedPtr (handle/SharedPtr.hh) follows programs over any number of shared_ptr variables,
  the main of its example among them: the counts are exact, and an object is deleted with the last
  handle that names it. What assignments do with a handle that lies inside an object is shown apart.
  SharedPtrThreads has the threads that share one control block, with the memory orders of the
  counter: what a thread wrote to the object reaches the thread that deletes it. UniquePtr
  (handle/UniquePtr.hh): single ownership, every object deleted by its own deleter, and comparisons
  that make the handles a preorder. AnyHandle (handle/Any.cc): the stored value and its type.

  Memory and numbers. Memory (memory/Memcpy.cc, Memmove.cc, Strcpy.cc): the unrolled copy is the
  byte loop, overlapping blocks are moved right, strings are copied with their end. XorBitant
  (utils/XorBitant.hh): the state map is a permutation.

  Threads. SpinMutex (thread/SpinMutex.hpp): mutual exclusion of lock and unlock, a flag that is set
  exactly while a thread owns the lock, progress of lock, and the inverted answer of try_lock.
  MutexData puts data behind the lock: with the orders of the code, the accesses inside critical
  sections never race. ThreadPool (thread/ThreadPool.hpp): tasks are taken in order and once, and
  only the owner of the mutex changes the queue; a pool that nobody calls comes to rest within a
  number of steps that its state bounds, with all its tasks run or, if it is being destroyed and
  nothing undefined happens, with its workers gone; and what its destructor gets wrong. PoolFutures
  follows the future of every task over the same steps: it gives what the call returned or threw, or
  a broken promise.

  Tests. RepoTests runs the repository's own tests (tests/*_test.cc) on the model: what they expect
  holds.

  Input and output. TomlParser (utils/TomlParser.hh) computes the line-by-line meaning of a file and
  reads back what was written; Config (io/Config.hh) takes the address and the port from it. Sockets
  (io/SocketRAII.hh) and Tcp (io/Tcp.hh, TcpClient.hh, TcpServer.hh): no call on a closed
  descriptor, each closed once, and the order and the reported error of the calls of start and
  connect_to_server. Cassandra (io/Cassandra.hh): the objects of the driver are used and freed
  properly on whatever answers, and what the result of init_db means. Logger and LogThreads
  (utils/Logger.hh, SimpleLogger.hh): a line says all that was logged, and lines of one logger are
  never mixed. LoggerImpl (utils/LoggerImpl.hpp): the older logger, whose lines are mixed. Timer
  (utils/Timer.hh): what it prints.

  Bounds. Loops of the code are recursions with a termination proof, and no fuel is used; only
  Strcpy, which may run for ever, is a partial function, and the theorem says when it returns. The
  parser assumes that a line is shorter than 2^64 - 1 characters, the vector that no block larger
  than 2^62 bytes is granted, and the shared counter that there are fewer than 2^64 handles; each of
  these is a named hypothesis or a guard of a step.

  Not modelled. io/JSONReader.hh, which declares nothing. Logging inside other components, the
  timers they start, what the tests print, the pause instructions of the spin lock, exceptions of
  element types in the two queues, the failure to create a thread, and the bytes behind the buffers
  of send and recv. Handles that lie inside the objects they manage are followed only where the
  assignments of shared_ptr read them; otherwise handles are variables of the program.
\<close>

end
